(* ===== verification/Prelude.thy ===== *)
theory Prelude
  imports "HOL-Library.Word" "HOL-Library.Multiset" "HOL-Library.Sublist"
begin

text \<open>
  Shared vocabulary of the development.

  Go's \<^verbatim>\<open>int64\<close> and \<^verbatim>\<open>int\<close> (64 bits on the supported platforms) are \<open>64 word\<close>; the
  arithmetic operators wrap as Go's do, comparisons go through \<open>sint\<close>.  Slice indices and
  lengths, which Go keeps below \<open>2 ^ 63\<close>, are \<open>nat\<close>.  A Go string is the list of its bytes.
  Instants (\<^verbatim>\<open>time.Time\<close>) are nanoseconds since the zero instant, so \<open>0\<close> is the zero
  \<^verbatim>\<open>time.Time\<close>; durations are nanoseconds.  The theory also holds the generic lemmas on
  lists, words and decimal text that several components use, and the theorem collections
  that carry their automation.
\<close>

named_theorems inv_defs \<open>definitions of component invariants\<close>
named_theorems op_defs \<open>definitions of component operations\<close>

type_synonym int64 = "64 word"
type_synonym uint64 = "64 word"
type_synonym instant = int
type_synonym duration = int

subsection \<open>Signed 64-bit arithmetic\<close>

abbreviation int64_min :: int where
  "int64_min \<equiv> - (2 ^ 63)"

abbreviation int64_max :: int where
  "int64_max \<equiv> 2 ^ 63 - 1"

lemma sint64_bounds: "int64_min \<le> sint (x :: int64)" "sint (x :: int64) \<le> int64_max"
  using sint_range_size [of x] by (auto simp: word_size)

lemma sint64_add:
  assumes "int64_min \<le> sint (x :: int64) + sint y" "sint x + sint y \<le> int64_max"
  shows "sint (x + y) = sint x + sint y"
  using assms by (simp add: sint_word_ariths signed_take_bit_int_eq_self_iff)

lemma sint64_sub:
  assumes "int64_min \<le> sint (x :: int64) - sint y" "sint x - sint y \<le> int64_max"
  shows "sint (x - y) = sint x - sint y"
  using assms by (simp add: sint_word_ariths signed_take_bit_int_eq_self_iff)

subsection \<open>Lists updated by index\<close>

definition swap :: "'a list \<Rightarrow> nat \<Rightarrow> nat \<Rightarrow> 'a list" where
  "swap xs i j = xs[i := xs ! j, j := xs ! i]"

lemma length_swap [simp]: "length (swap xs i j) = length xs"
  by (simp add: swap_def)

lemma nth_swap:
  "i < length xs \<Longrightarrow> j < length xs \<Longrightarrow> k < length xs \<Longrightarrow>
   swap xs i j ! k = (if k = i then xs ! j else if k = j then xs ! i else xs ! k)"
  by (auto simp: swap_def nth_list_update)

lemma mset_swap_indices [simp]:
  "i < length xs \<Longrightarrow> j < length xs \<Longrightarrow> mset (swap xs i j) = mset xs"
  by (cases "i = j") (simp_all add: swap_def mset_swap)

lemma sum_list_map_update:
  fixes f :: "'a \<Rightarrow> 'b::comm_monoid_add"
  shows "i < length xs \<Longrightarrow> sum_list (map f (xs[i := x])) + f (xs ! i) = sum_list (map f xs) + f x"
  by (induction xs arbitrary: i) (auto simp: ac_simps split: nat.split)

definition last_n :: "nat \<Rightarrow> 'a list \<Rightarrow> 'a list" where
  "last_n n xs = drop (length xs - n) xs"

lemma length_last_n [simp]: "length (last_n n xs) = min n (length xs)"
  by (simp add: last_n_def)

lemma last_n_all: "length xs \<le> n \<Longrightarrow> last_n n xs = xs"
  by (simp add: last_n_def)

lemma last_n_append_last_n: "last_n n (last_n n xs @ ys) = last_n n (xs @ ys)"
proof (cases "n \<le> length xs")
  case True
  then have "length xs + length ys - n = (length xs - n) + length ys" by simp
  with True show ?thesis by (simp add: last_n_def add.commute)
next
  case False
  then show ?thesis by (simp add: last_n_def)
qed

lemma last_n_snoc:
  "0 < n \<Longrightarrow> last_n n (xs @ [x]) = (if length xs < n then xs else tl (last_n n xs)) @ [x]"
  by (auto simp: last_n_def tl_drop drop_Suc [symmetric] Suc_diff_le)

subsection \<open>Go maps as association lists\<close>

text \<open>One binding per key; the order of the list carries no meaning.\<close>

definition del :: "'k \<Rightarrow> ('k \<times> 'v) list \<Rightarrow> ('k \<times> 'v) list" where
  "del k m = filter (\<lambda>p. fst p \<noteq> k) m"

definition ins :: "'k \<Rightarrow> 'v \<Rightarrow> ('k \<times> 'v) list \<Rightarrow> ('k \<times> 'v) list" where
  "ins k v m = (k, v) # del k m"

lemma map_of_del: "map_of (del k m) = (map_of m)(k := None)"
  by (induction m) (auto simp: del_def fun_eq_iff)

lemma map_of_ins: "map_of (ins k v m) = (map_of m)(k \<mapsto> v)"
  by (simp add: ins_def map_of_del)

lemma distinct_del: "distinct (map fst m) \<Longrightarrow> distinct (map fst (del k m))"
  unfolding del_def by (rule distinct_map_filter)

lemma distinct_ins: "distinct (map fst m) \<Longrightarrow> distinct (map fst (ins k v m))"
  using distinct_del [of m k] by (auto simp: ins_def del_def)

lemma del_fresh: "k \<notin> fst ` set m \<Longrightarrow> del k m = m"
  unfolding del_def by (rule filter_True) force

subsection \<open>Decimal text\<close>

text \<open>What \<^verbatim>\<open>%d\<close> and \<^verbatim>\<open>strconv\<close> print.\<close>

definition digit :: "nat \<Rightarrow> char" where
  "digit d = char_of (48 + d)"

fun nat_text :: "nat \<Rightarrow> string" where
  "nat_text n = (if n < 10 then [digit n] else nat_text (n div 10) @ [digit (n mod 10)])"

declare nat_text.simps [simp del]

definition int_text :: "int \<Rightarrow> string" where
  "int_text i = (if i < 0 then CHR ''-'' # nat_text (nat (- i)) else nat_text (nat i))"

definition digit_value :: "char \<Rightarrow> nat" where
  "digit_value c = of_char c - 48"

definition is_digit :: "char \<Rightarrow> bool" where
  "is_digit c \<longleftrightarrow> (48 :: nat) \<le> of_char c \<and> (of_char c :: nat) \<le> 57"

definition digits_value :: "string \<Rightarrow> nat" where
  "digits_value s = foldl (\<lambda>n c. 10 * n + digit_value c) 0 s"

lemma digit_simps [simp]: "d < 10 \<Longrightarrow> digit_value (digit d) = d" "d < 10 \<Longrightarrow> is_digit (digit d)"
  by (simp_all add: digit_value_def digit_def is_digit_def)

lemma digits_value_nat_text [simp]: "digits_value (nat_text n) = n"
proof (induction n rule: nat_text.induct)
  case (1 n)
  then show ?case
    by (subst nat_text.simps) (simp add: digits_value_def)
qed

lemma nat_text_digits: "\<forall>c \<in> set (nat_text n). is_digit c"
proof (induction n rule: nat_text.induct)
  case (1 n)
  then show ?case by (subst nat_text.simps) auto
qed

lemma nat_text_Nil [simp]: "nat_text n \<noteq> []"
  by (subst nat_text.simps) simp

lemma nat_text_inj [simp]: "nat_text m = nat_text n \<longleftrightarrow> m = n"
  by (metis digits_value_nat_text)

lemma nat_text_hd: "is_digit (hd (nat_text n))"
  using nat_text_digits [of n] by (metis hd_in_set nat_text_Nil)

lemma int_text_inj [simp]: "int_text i = int_text j \<longleftrightarrow> i = j"
proof -
  have "CHR ''-'' # nat_text k \<noteq> nat_text l" for k l
    using nat_text_hd [of l] by (cases "nat_text l") (auto simp: is_digit_def)
  then show ?thesis by (auto simp: int_text_def) (metis)
qed

lemma int_text_no_space: "CHR '' '' \<notin> set (int_text i)"
proof -
  have "\<not> is_digit (CHR '' '')" by (simp add: is_digit_def)
  then have "CHR '' '' \<notin> set (nat_text n)" for n using nat_text_digits [of n] by blast
  then show ?thesis by (simp add: int_text_def)
qed

lemma sint64_of_nat: "n < 2 ^ 63 \<Longrightarrow> sint (of_nat n :: int64) = int n"
  by (simp add: signed_of_nat signed_take_bit_int_eq_self_iff)

lemma sint_push_bit:
  assumes "0 \<le> sint (x :: int64)" "sint x * 2 ^ k < 2 ^ 63"
  shows "sint (push_bit k x) = sint x * 2 ^ k"
proof -
  have "push_bit k x = word_of_int (sint x * 2 ^ k)"
    by (simp add: push_bit_eq_mult)
  then have "sint (push_bit k x) = sint (word_of_int (sint x * 2 ^ k) :: int64)" by (rule arg_cong)
  moreover have "0 \<le> sint x * 2 ^ k" using assms(1) by simp
  ultimately show ?thesis
    using assms(2) by (simp only: signed_of_int) (simp add: signed_take_bit_int_eq_self_iff)
qed

text \<open>Go's integer division truncates towards zero.\<close>

definition go_div :: "int \<Rightarrow> int \<Rightarrow> int" where
  "go_div a b = sgn a * sgn b * (\<bar>a\<bar> div \<bar>b\<bar>)"

lemma go_div_2: "0 \<le> a \<Longrightarrow> go_div a 2 = a div 2"
  by (auto simp: go_div_def sgn_if)

end
