(* ===== verification/Heap.thy ===== *)
theory Heap
  imports Prelude
begin

text \<open>
  The generic binary min-heap of \<^verbatim>\<open>03-data-structures/examples/heap/heap.go\<close>: the slice
  \<^verbatim>\<open>data\<close> with a caller-supplied \<^verbatim>\<open>less\<close>, sifting up and down by index.  The interface
  \<open>pqueue\<close> states what a client of the heap relies on, the lemma \<open>drain_sorted\<close> is the
  client's (priority order of repeated \<^verbatim>\<open>Pop\<close>), and the interpretation \<open>hq\<close> shows that the
  code's operations keep every law.
\<close>

subsection \<open>State and operations\<close>

record 'a heap =
  data :: "'a list"
  less :: "'a \<Rightarrow> 'a \<Rightarrow> bool"

definition new_heap :: "('a \<Rightarrow> 'a \<Rightarrow> bool) \<Rightarrow> 'a heap" where
  "new_heap l = \<lparr>data = [], less = l\<rparr>"

definition heap_len :: "'a heap \<Rightarrow> nat" where
  "heap_len h = length (data h)"

definition parent :: "nat \<Rightarrow> nat" where
  "parent i = (i - 1) div 2"

lemma parent_less: "0 < i \<Longrightarrow> parent i < i"
  by (auto simp: parent_def)

function sift_up :: "('a \<Rightarrow> 'a \<Rightarrow> bool) \<Rightarrow> 'a list \<Rightarrow> nat \<Rightarrow> 'a list" where
  "sift_up l xs i =
     (if 0 < i then
        let p = parent i
        in if \<not> l (xs ! i) (xs ! p) then xs
           else sift_up l (swap xs i p) p
      else xs)"
  by pat_completeness auto
termination
  by (relation "measure (\<lambda>(l, xs, i). i)") (auto simp: parent_less)

definition smallest_child :: "('a \<Rightarrow> 'a \<Rightarrow> bool) \<Rightarrow> 'a list \<Rightarrow> nat \<Rightarrow> nat" where
  "smallest_child l xs i =
     (let n = length xs; left = 2 * i + 1; right = 2 * i + 2;
          s = (if left < n \<and> l (xs ! left) (xs ! i) then left else i)
      in if right < n \<and> l (xs ! right) (xs ! s) then right else s)"

lemma smallest_child_cases:
  "smallest_child l xs i = i \<or>
   (i < smallest_child l xs i \<and> smallest_child l xs i < length xs \<and>
    (smallest_child l xs i = 2 * i + 1 \<or> smallest_child l xs i = 2 * i + 2))"
  by (auto simp: smallest_child_def Let_def)

function sift_down :: "('a \<Rightarrow> 'a \<Rightarrow> bool) \<Rightarrow> 'a list \<Rightarrow> nat \<Rightarrow> 'a list" where
  "sift_down l xs i =
     (let s = smallest_child l xs i
      in if s = i then xs else sift_down l (swap xs i s) s)"
  by pat_completeness auto
termination
proof (relation "measure (\<lambda>(l, xs, i). length xs - i)", goal_cases)
  case 1
  then show ?case by simp
next
  case (2 l xs i s)
  then show ?case using smallest_child_cases [of l xs i] by auto
qed

declare sift_up.simps [simp del] sift_down.simps [simp del]

definition heap_push :: "'a \<Rightarrow> 'a heap \<Rightarrow> 'a heap" where
  "heap_push v h =
     (let d = data h @ [v] in h\<lparr>data := sift_up (less h) d (length d - 1)\<rparr>)"

definition heap_peek :: "'a heap \<Rightarrow> 'a option" where
  "heap_peek h = (if length (data h) = 0 then None else Some (data h ! 0))"

text \<open>
  \<^verbatim>\<open>Pop\<close>: the last element replaces the root, the slice is cut, the new root sifts down.
  The zeroed slot lies past the cut and is not observable.
\<close>

definition heap_pop :: "'a heap \<Rightarrow> 'a option \<times> 'a heap" where
  "heap_pop h =
     (let n = length (data h)
      in if n = 0 then (None, h)
         else let top = data h ! 0;
                  d = take (n - 1) ((data h)[0 := data h ! (n - 1)])
              in (Some top,
                  h\<lparr>data := (if n > 1 then sift_down (less h) d 0 else d)\<rparr>))"

definition check_invariant :: "'a heap \<Rightarrow> bool" where
  "check_invariant h =
     list_all (\<lambda>i. \<not> less h (data h ! i) (data h ! parent i)) [1..<length (data h)]"

subsection \<open>The order and the heap property\<close>

text \<open>
  The contract on \<^verbatim>\<open>less\<close>: a strict weak order, which is what a Go comparison function for
  sorting has to be.  \<open>le l x y\<close> reads "x may come out before y".
\<close>

definition strict_weak :: "('a \<Rightarrow> 'a \<Rightarrow> bool) \<Rightarrow> bool" where
  "strict_weak l \<longleftrightarrow>
     (\<forall>x y. l x y \<longrightarrow> \<not> l y x) \<and> (\<forall>x y z. \<not> l x y \<longrightarrow> \<not> l y z \<longrightarrow> \<not> l x z)"

lemma strict_weak_asym:
  assumes "strict_weak l" "l x y"
  shows "\<not> l y x"
proof -
  from assms(1) have "\<forall>x y. l x y \<longrightarrow> \<not> l y x"
    unfolding strict_weak_def by (rule conjunct1)
  with assms(2) show ?thesis by blast
qed

lemma strict_weak_trans:
  assumes "strict_weak l" "\<not> l x y" "\<not> l y z"
  shows "\<not> l x z"
proof -
  from assms(1) have "\<forall>x y z. \<not> l x y \<longrightarrow> \<not> l y z \<longrightarrow> \<not> l x z"
    unfolding strict_weak_def by (rule conjunct2)
  then have "\<not> l x y \<longrightarrow> \<not> l y z \<longrightarrow> \<not> l x z" by (elim allE)
  with assms(2,3) show ?thesis by blast
qed

lemma strict_weak_irrefl: "strict_weak l \<Longrightarrow> \<not> l x x"
  using strict_weak_asym [of l x x] by blast

definition heap_ok :: "('a \<Rightarrow> 'a \<Rightarrow> bool) \<Rightarrow> 'a list \<Rightarrow> bool" where
  "heap_ok l xs \<longleftrightarrow> (\<forall>i. 0 < i \<longrightarrow> i < length xs \<longrightarrow> \<not> l (xs ! i) (xs ! parent i))"

definition heap_inv :: "'a heap \<Rightarrow> bool" where
  [inv_defs]: "heap_inv h \<longleftrightarrow> strict_weak (less h) \<and> heap_ok (less h) (data h)"

lemma heap_ok_root:
  assumes "strict_weak l" "heap_ok l xs" "i < length xs"
  shows "\<not> l (xs ! i) (xs ! 0)"
  using assms(3)
proof (induction i rule: less_induct)
  case (less i)
  show ?case
  proof (cases "i = 0")
    case True
    then show ?thesis using assms(1) by (simp add: strict_weak_irrefl)
  next
    case False
    then have "parent i < i" by (simp add: parent_less)
    with less have "\<not> l (xs ! parent i) (xs ! 0)" by simp
    moreover have "\<not> l (xs ! i) (xs ! parent i)"
      using assms(2) False less.prems by (simp add: heap_ok_def)
    ultimately show ?thesis using strict_weak_trans [OF assms(1)] by simp
  qed
qed

subsection \<open>Sifting up\<close>

text \<open>
  While \<open>i\<close> rises, every pair but \<open>i\<close> and its parent is in order, and the children of
  \<open>i\<close> are in order with the parent of \<open>i\<close>.
\<close>

definition up_ok :: "('a \<Rightarrow> 'a \<Rightarrow> bool) \<Rightarrow> 'a list \<Rightarrow> nat \<Rightarrow> bool" where
  "up_ok l xs i \<longleftrightarrow>
     (\<forall>k. 0 < k \<longrightarrow> k < length xs \<longrightarrow> k \<noteq> i \<longrightarrow> \<not> l (xs ! k) (xs ! parent k)) \<and>
     (\<forall>k. 0 < i \<longrightarrow> k < length xs \<longrightarrow> 0 < k \<longrightarrow> parent k = i \<longrightarrow> \<not> l (xs ! k) (xs ! parent i))"

lemma up_ok_swap_pairs:
  assumes "strict_weak l" "up_ok l xs i" "0 < i" "i < length xs" "l (xs ! i) (xs ! parent i)"
    and k: "0 < k" "k < length xs" "k \<noteq> parent i"
  shows "\<not> l (swap xs i (parent i) ! k) (swap xs i (parent i) ! parent k)"
proof -
  let ?p = "parent i"
  have p: "?p < i" "?p < length xs" using assms(3,4) parent_less [of i] by auto
  have nth: "\<And>m. m < length xs \<Longrightarrow>
      swap xs i ?p ! m = (if m = i then xs ! ?p else if m = ?p then xs ! i else xs ! m)"
    using p assms(4) by (simp add: nth_swap)
  have pk: "parent k < length xs" "parent k \<noteq> k" using k parent_less [of k] by auto
  have ord: "k \<noteq> i \<Longrightarrow> \<not> l (xs ! k) (xs ! parent k)" and chl: "parent k = i \<Longrightarrow> \<not> l (xs ! k) (xs ! ?p)"
    using assms(2,3) k by (auto simp: up_ok_def)
  have rev: "\<not> l (xs ! ?p) (xs ! i)" using assms(1,5) by (rule strict_weak_asym)
  consider "k = i" | "k \<noteq> i" "parent k = i" | "k \<noteq> i" "parent k = ?p" | "k \<noteq> i" "parent k \<noteq> i" "parent k \<noteq> ?p" by blast
  then show ?thesis
  proof cases
    case 1
    then show ?thesis using rev nth [OF assms(4)] nth [OF p(2)] p by simp
  next
    case 3
    then have "\<not> l (xs ! k) (xs ! i)" using ord rev strict_weak_trans [OF assms(1)] by metis
    then show ?thesis using 3 k p nth [OF k(2)] nth [OF pk(1)] by simp
  qed (use chl ord k nth [OF k(2)] nth [OF pk(1)] in simp_all)
qed

lemma up_ok_swap:
  assumes "strict_weak l" "up_ok l xs i" "0 < i" "i < length xs" "l (xs ! i) (xs ! parent i)"
  shows "up_ok l (swap xs i (parent i)) (parent i)"
  unfolding up_ok_def length_swap
proof (intro conjI allI impI)
  let ?p = "parent i"
  fix k assume k: "0 < ?p" "k < length xs" "0 < k" "parent k = ?p"
  have p: "?p < i" "?p < length xs" "parent ?p < ?p" using assms(3,4) k(1) parent_less [of i] parent_less [of ?p] by auto
  have nth: "\<And>m. m < length xs \<Longrightarrow>
      swap xs i ?p ! m = (if m = i then xs ! ?p else if m = ?p then xs ! i else xs ! m)"
    using p assms(4) by (simp add: nth_swap)
  have ord: "\<And>m. 0 < m \<Longrightarrow> m < length xs \<Longrightarrow> m \<noteq> i \<Longrightarrow> \<not> l (xs ! m) (xs ! parent m)"
    using assms(2) by (auto simp: up_ok_def)
  have top: "\<not> l (xs ! ?p) (xs ! parent ?p)" using ord [of ?p] k(1) p by simp
  have "\<not> l (xs ! k) (xs ! parent ?p)" if "k \<noteq> i"
    using ord [of k] k that top strict_weak_trans [OF assms(1)] by metis
  moreover have "k \<noteq> ?p" using k(4) p(3) by auto
  ultimately have "\<not> l (swap xs i ?p ! k) (xs ! parent ?p)" using top nth [OF k(2)] by simp
  moreover have "swap xs i ?p ! parent ?p = xs ! parent ?p" using p nth [of "parent ?p"] by auto
  ultimately show "\<not> l (swap xs i ?p ! k) (swap xs i ?p ! parent ?p)" by simp
qed (use up_ok_swap_pairs [OF assms] in blast)

lemma length_sift_up [simp]: "length (sift_up l xs i) = length xs"
proof (induction l xs i rule: sift_up.induct)
  case (1 l xs i)
  then show ?case by (subst sift_up.simps) (simp add: Let_def)
qed

lemma mset_sift_up: "i < length xs \<Longrightarrow> mset (sift_up l xs i) = mset xs"
proof (induction l xs i rule: sift_up.induct)
  case (1 l xs i)
  have "0 < i \<Longrightarrow> parent i < length xs" using 1(2) parent_less [of i] by linarith
  with 1 show ?case by (subst sift_up.simps) (simp add: Let_def)
qed

lemma sift_up_heap_ok:
  "strict_weak l \<Longrightarrow> up_ok l xs i \<Longrightarrow> i < length xs \<Longrightarrow> heap_ok l (sift_up l xs i)"
proof (induction l xs i rule: sift_up.induct)
  case (1 l xs i)
  show ?case
  proof (cases "0 < i \<and> l (xs ! i) (xs ! parent i)")
    case True
    then have "parent i < length xs" using 1(4) parent_less [of i] by auto
    then have "heap_ok l (sift_up l (swap xs i (parent i)) (parent i))"
      using 1 True up_ok_swap [of l xs i] by simp
    then show ?thesis using True by (subst sift_up.simps) (simp add: Let_def)
  next
    case False
    then have "heap_ok l xs" using 1(3) by (auto simp: up_ok_def heap_ok_def)
    then show ?thesis using False by (subst sift_up.simps) (auto simp: Let_def)
  qed
qed

subsection \<open>Sifting down\<close>

definition down_ok :: "('a \<Rightarrow> 'a \<Rightarrow> bool) \<Rightarrow> 'a list \<Rightarrow> nat \<Rightarrow> bool" where
  "down_ok l xs i \<longleftrightarrow>
     (\<forall>k. 0 < k \<longrightarrow> k < length xs \<longrightarrow> parent k \<noteq> i \<longrightarrow> \<not> l (xs ! k) (xs ! parent k)) \<and>
     (\<forall>k. 0 < i \<longrightarrow> k < length xs \<longrightarrow> 0 < k \<longrightarrow> parent k = i \<longrightarrow> \<not> l (xs ! k) (xs ! parent i))"

lemma parent_eq_iff: "0 < k \<Longrightarrow> parent k = i \<longleftrightarrow> k = 2 * i + 1 \<or> k = 2 * i + 2"
  by (auto simp: parent_def)

lemma smallest_child_min:
  assumes "strict_weak l" "0 < k" "k < length xs" "parent k = i"
  shows "\<not> l (xs ! k) (xs ! smallest_child l xs i)"
proof -
  let ?a = "xs ! (2 * i + 1)" and ?b = "xs ! (2 * i + 2)" and ?c = "xs ! i"
  from assms(2,4) consider "k = 2 * i + 1" | "k = 2 * i + 2" by (auto simp: parent_eq_iff)
  then show ?thesis
    using strict_weak_irrefl [OF assms(1), of ?a] strict_weak_irrefl [OF assms(1), of ?b]
      strict_weak_asym [OF assms(1), of ?b ?a] strict_weak_asym [OF assms(1), of ?b ?c]
      strict_weak_trans [OF assms(1), of ?a ?c ?b] assms(3)
    by cases (auto simp: smallest_child_def Let_def)
qed

lemma smallest_child_le:
  assumes "strict_weak l"
  shows "\<not> l (xs ! i) (xs ! smallest_child l xs i)"
proof -
  let ?a = "xs ! (2 * i + 1)" and ?b = "xs ! (2 * i + 2)" and ?c = "xs ! i"
  show ?thesis
    using strict_weak_irrefl [OF assms, of ?c] strict_weak_asym [OF assms, of ?a ?c]
      strict_weak_asym [OF assms, of ?b ?a] strict_weak_asym [OF assms, of ?b ?c]
      strict_weak_trans [OF assms, of ?c ?a ?b]
    by (auto simp: smallest_child_def Let_def)
qed

lemma down_ok_swap:
  assumes "strict_weak l" "down_ok l xs i" "i < length xs" "smallest_child l xs i \<noteq> i"
  shows "down_ok l (swap xs i (smallest_child l xs i)) (smallest_child l xs i)"
proof -
  let ?s = "smallest_child l xs i"
  have s: "i < ?s" "?s < length xs" "parent ?s = i"
    using smallest_child_cases [of l xs i] assms(4) by (auto simp: parent_eq_iff)
  have nth: "\<And>k. k < length xs \<Longrightarrow>
      swap xs i ?s ! k = (if k = i then xs ! ?s else if k = ?s then xs ! i else xs ! k)"
    using s assms(3) by (simp add: nth_swap)
  have ord: "\<And>k. 0 < k \<Longrightarrow> k < length xs \<Longrightarrow> parent k \<noteq> i \<Longrightarrow> \<not> l (xs ! k) (xs ! parent k)"
    and chl: "\<And>k. 0 < i \<Longrightarrow> k < length xs \<Longrightarrow> 0 < k \<Longrightarrow> parent k = i \<Longrightarrow> \<not> l (xs ! k) (xs ! parent i)"
    using assms(2) by (auto simp: down_ok_def)
  show ?thesis
    unfolding down_ok_def length_swap
  proof (intro conjI allI impI)
    fix k assume k: "0 < k" "k < length xs" "parent k \<noteq> ?s"
    have pk: "parent k < k" "parent k < length xs" using k parent_less [of k] by auto
    consider "k = ?s" | "k = i" | "k \<noteq> ?s" "parent k = i" | "k \<noteq> ?s" "k \<noteq> i" "parent k \<noteq> i" by blast
    then show "\<not> l (swap xs i ?s ! k) (swap xs i ?s ! parent k)"
    proof cases
      case 1
      then show ?thesis using smallest_child_le [OF assms(1)] nth [OF k(2)] nth [OF pk(2)] s by simp
    next
      case 2
      then show ?thesis using chl [of ?s] k s nth [OF k(2)] nth [OF pk(2)] pk by simp
    next
      case 3
      then show ?thesis
        using smallest_child_min [OF assms(1) k(1,2)] nth [OF k(2)] nth [OF pk(2)] pk by simp
    next
      case 4
      then show ?thesis using ord [OF k(1,2)] k(3) nth [OF k(2)] nth [OF pk(2)] by simp
    qed
  next
    fix k assume k: "k < length xs" "0 < k" "parent k = ?s"
    have "?s < k" using parent_less [OF k(2)] k(3) by simp
    moreover have "\<not> l (xs ! k) (xs ! ?s)" using ord [OF k(2,1)] k(3) s by simp
    ultimately show "\<not> l (swap xs i ?s ! k) (swap xs i ?s ! parent ?s)"
      using nth [OF k(1)] nth [OF assms(3)] s by simp
  qed
qed

lemma length_sift_down [simp]: "length (sift_down l xs i) = length xs"
proof (induction l xs i rule: sift_down.induct)
  case (1 l xs i)
  then show ?case by (subst sift_down.simps) (simp add: Let_def)
qed

lemma mset_sift_down: "i < length xs \<Longrightarrow> mset (sift_down l xs i) = mset xs"
proof (induction l xs i rule: sift_down.induct)
  case (1 l xs i)
  then show ?case
    using smallest_child_cases [of l xs i] by (subst sift_down.simps) (auto simp: Let_def)
qed

lemma sift_down_heap_ok:
  "strict_weak l \<Longrightarrow> down_ok l xs i \<Longrightarrow> i < length xs \<Longrightarrow> heap_ok l (sift_down l xs i)"
proof (induction l xs i rule: sift_down.induct)
  case (1 l xs i)
  let ?s = "smallest_child l xs i"
  show ?case
  proof (cases "?s = i")
    case True
    have "heap_ok l xs"
      unfolding heap_ok_def
    proof (intro allI impI)
      fix k assume k: "0 < k" "k < length xs"
      show "\<not> l (xs ! k) (xs ! parent k)"
        using smallest_child_min [OF 1(2) k] True 1(3) k by (cases "parent k = i") (auto simp: down_ok_def)
    qed
    then show ?thesis using True by (subst sift_down.simps) simp
  next
    case False
    then have "?s < length xs" using smallest_child_cases [of l xs i] by blast
    then have "heap_ok l (sift_down l (swap xs i ?s) ?s)"
      using 1 False down_ok_swap [of l xs i] by simp
    then show ?thesis using False by (subst sift_down.simps) (simp add: Let_def)
  qed
qed

subsection \<open>The operations keep the invariant\<close>

lemma less_heap_push [simp]: "less (heap_push v h) = less h"
  by (simp add: heap_push_def Let_def)

lemma less_heap_pop: "heap_pop h = (r, h') \<Longrightarrow> less h' = less h"
  by (auto simp: heap_pop_def Let_def split: if_splits)

lemma mset_heap_push: "mset (data (heap_push v h)) = add_mset v (mset (data h))"
  by (simp add: heap_push_def Let_def mset_sift_up)

lemma heap_inv_push: "heap_inv h \<Longrightarrow> heap_inv (heap_push v h)"
proof -
  assume h: "heap_inv h"
  let ?d = "data h @ [v]"
  have "up_ok (less h) ?d (length (data h))"
    unfolding up_ok_def
  proof (intro conjI allI impI)
    fix k assume k: "0 < k" "k < length ?d" "k \<noteq> length (data h)"
    then show "\<not> less h (?d ! k) (?d ! parent k)"
      using h parent_less [of k] by (simp add: heap_inv_def heap_ok_def nth_append)
  next
    fix k assume "k < length ?d" "0 < k" "parent k = length (data h)"
    then show "\<not> less h (?d ! k) (?d ! parent (length (data h)))" using parent_less [of k] by simp
  qed
  then have "heap_ok (less h) (sift_up (less h) ?d (length (data h)))"
    using h by (intro sift_up_heap_ok) (simp_all add: heap_inv_def)
  then show ?thesis using h by (simp add: heap_inv_def heap_push_def Let_def)
qed

lemma heap_pop_None: "heap_pop h = (None, h') \<longleftrightarrow> data h = [] \<and> h' = h"
  by (auto simp: heap_pop_def Let_def)

lemma heap_pop_Some:
  assumes "heap_pop h = (Some x, h')"
  shows "data h \<noteq> []" "x = data h ! 0" "mset (data h) = add_mset x (mset (data h'))"
proof -
  show ne: "data h \<noteq> []" and x: "x = data h ! 0"
    using assms by (auto simp: heap_pop_def Let_def split: if_splits)
  obtain ys y where ys: "data h = ys @ [y]" using ne by (cases "data h" rule: rev_cases) auto
  show "mset (data h) = add_mset x (mset (data h'))"
  proof (cases ys)
    case Nil
    then show ?thesis using assms ys by (auto simp: heap_pop_def Let_def)
  next
    case (Cons z zs)
    then have "data h' = sift_down (less h) (y # zs) 0" "x = z"
      using assms ys by (auto simp: heap_pop_def Let_def)
    then show ?thesis using ys Cons by (simp add: mset_sift_down)
  qed
qed

lemma heap_inv_pop:
  assumes "heap_inv h" "heap_pop h = (r, h')"
  shows "heap_inv h'"
proof (cases "length (data h) \<le> 1")
  case True
  then show ?thesis
    using assms by (auto simp: heap_inv_def heap_pop_def Let_def heap_ok_def split: if_splits)
next
  case False
  let ?n = "length (data h)" let ?d = "take (?n - 1) ((data h)[0 := data h ! (?n - 1)])"
  have "down_ok (less h) ?d 0"
    unfolding down_ok_def
  proof (intro conjI allI impI)
    fix k assume k: "0 < k" "k < length ?d" "parent k \<noteq> 0"
    have "parent k < k" using k(1) by (rule parent_less)
    then show "\<not> less h (?d ! k) (?d ! parent k)"
      using assms(1) k by (simp add: heap_inv_def heap_ok_def)
  qed simp
  then have "heap_ok (less h) (sift_down (less h) ?d 0)"
    using False assms(1) by (intro sift_down_heap_ok) (auto simp: heap_inv_def)
  then show ?thesis
    using assms False by (auto simp: heap_inv_def heap_pop_def Let_def split: if_splits)
qed

lemma heap_pop_min:
  assumes "heap_inv h" "heap_pop h = (Some x, h')" "y \<in># mset (data h)"
  shows "\<not> less h y x"
proof -
  obtain i where "i < length (data h)" "y = data h ! i"
    using assms(3) by (auto simp: in_set_conv_nth)
  then show ?thesis
    using assms(1) heap_ok_root [of "less h" "data h" i] heap_pop_Some(2) [OF assms(2)]
    by (simp add: heap_inv_def)
qed

lemma check_invariant_iff: "check_invariant h \<longleftrightarrow> heap_ok (less h) (data h)"
  by (auto simp: check_invariant_def heap_ok_def list_all_iff)

lemma heap_peek_pop: "heap_peek h = fst (heap_pop h)"
  by (simp add: heap_peek_def heap_pop_def Let_def)

subsection \<open>The priority-queue interface and its client\<close>

text \<open>
  What a client relies on: \<open>elems\<close> is the multiset held, \<open>ord\<close> the order, and \<^verbatim>\<open>Pop\<close> hands
  out an element that nothing in the queue precedes.
\<close>

fun drain :: "('q \<Rightarrow> 'a option \<times> 'q) \<Rightarrow> nat \<Rightarrow> 'q \<Rightarrow> 'a list" where
  "drain pop 0 q = []"
| "drain pop (Suc n) q =
     (case pop q of (None, _) \<Rightarrow> [] | (Some x, q') \<Rightarrow> x # drain pop n q')"

locale pqueue =
  fixes push :: "'a \<Rightarrow> 'q \<Rightarrow> 'q"
    and pop :: "'q \<Rightarrow> 'a option \<times> 'q"
    and peek :: "'q \<Rightarrow> 'a option"
    and ord :: "'q \<Rightarrow> 'a \<Rightarrow> 'a \<Rightarrow> bool"
    and elems :: "'q \<Rightarrow> 'a multiset"
    and inv :: "'q \<Rightarrow> bool"
  assumes inv_push: "inv q \<Longrightarrow> inv (push x q)"
    and elems_push: "inv q \<Longrightarrow> elems (push x q) = add_mset x (elems q)"
    and ord_push: "ord (push x q) = ord q"
    and inv_pop: "inv q \<Longrightarrow> pop q = (r, q') \<Longrightarrow> inv q'"
    and ord_pop: "pop q = (r, q') \<Longrightarrow> ord q' = ord q"
    and pop_None: "inv q \<Longrightarrow> pop q = (None, q') \<Longrightarrow> elems q = {#} \<and> q' = q"
    and pop_Some: "inv q \<Longrightarrow> pop q = (Some x, q') \<Longrightarrow> elems q = add_mset x (elems q')"
    and pop_least: "inv q \<Longrightarrow> pop q = (Some x, q') \<Longrightarrow> y \<in># elems q \<Longrightarrow> \<not> ord q y x"
    and peek_pop: "peek q = fst (pop q)"
begin

lemma push_all:
  "inv q \<Longrightarrow> inv (foldl (\<lambda>q x. push x q) q xs) \<and>
   elems (foldl (\<lambda>q x. push x q) q xs) = mset xs + elems q \<and>
   ord (foldl (\<lambda>q x. push x q) q xs) = ord q"
  by (induction xs arbitrary: q) (simp_all add: inv_push elems_push ord_push)

lemma drain_sorted:
  "inv q \<Longrightarrow> size (elems q) \<le> n \<Longrightarrow>
   mset (drain pop n q) = elems q \<and> sorted_wrt (\<lambda>x y. \<not> ord q y x) (drain pop n q)"
proof (induction n arbitrary: q)
  case 0
  then show ?case by simp
next
  case (Suc n)
  obtain r q' where pop: "pop q = (r, q')" by (cases "pop q")
  show ?case
  proof (cases r)
    case None
    then show ?thesis using pop pop_None [OF Suc.prems(1)] by simp
  next
    case (Some x)
    with pop have e: "elems q = add_mset x (elems q')" and i: "inv q'" and o: "ord q' = ord q"
      using pop_Some inv_pop ord_pop Suc.prems(1) by blast+
    from e have "size (elems q') \<le> n" using Suc.prems(2) by simp
    with i have IH: "mset (drain pop n q') = elems q'"
      "sorted_wrt (\<lambda>x y. \<not> ord q y x) (drain pop n q')" using Suc.IH [of q'] o by simp_all
    moreover have "\<not> ord q y x" if "y \<in> set (drain pop n q')" for y
    proof -
      have "y \<in># elems q" using that IH(1) e by (metis insert_iff set_mset_add_mset_insert set_mset_mset)
      then show ?thesis using pop_least pop Some Suc.prems(1) by blast
    qed
    ultimately show ?thesis using pop Some e by simp
  qed
qed

end

interpretation hq: pqueue heap_push heap_pop heap_peek less "\<lambda>h. mset (data h)" heap_inv
proof unfold_locales
  fix q q' :: "'a heap" and r x y
  show "heap_inv q \<Longrightarrow> heap_inv (heap_push x q)" by (rule heap_inv_push)
  show "mset (data (heap_push x q)) = add_mset x (mset (data q))" by (rule mset_heap_push)
  show "less (heap_push x q) = less q" by simp
  show "heap_inv q \<Longrightarrow> heap_pop q = (r, q') \<Longrightarrow> heap_inv q'" by (rule heap_inv_pop)
  show "heap_pop q = (r, q') \<Longrightarrow> less q' = less q" by (rule less_heap_pop)
  show "heap_pop q = (None, q') \<Longrightarrow> mset (data q) = {#} \<and> q' = q" by (simp add: heap_pop_None)
  show "heap_pop q = (Some x, q') \<Longrightarrow> mset (data q) = add_mset x (mset (data q'))"
    by (rule heap_pop_Some(3))
  show "heap_inv q \<Longrightarrow> heap_pop q = (Some x, q') \<Longrightarrow> y \<in># mset (data q) \<Longrightarrow> \<not> less q y x"
    by (rule heap_pop_min)
  show "heap_peek q = fst (heap_pop q)" by (rule heap_peek_pop)
qed

lemma heap_inv_new: "strict_weak l \<Longrightarrow> heap_inv (new_heap l)"
  by (simp add: heap_inv_def new_heap_def heap_ok_def)

lemma strict_weak_int: "strict_weak ((<) :: int \<Rightarrow> int \<Rightarrow> bool)"
  by (auto simp: strict_weak_def)

subsection \<open>Properties\<close>

text \<open>C31: pushing any values onto a new heap and popping as often returns exactly those values, in
  the caller's order: nothing that is handed out later precedes what came out before.\<close>

theorem heap_sorts:
  assumes "strict_weak l"
  shows "mset (drain heap_pop (length vs) (foldl (\<lambda>h v. heap_push v h) (new_heap l) vs)) = mset vs \<and>
    sorted_wrt (\<lambda>x y. \<not> l y x)
      (drain heap_pop (length vs) (foldl (\<lambda>h v. heap_push v h) (new_heap l) vs))"
proof -
  note p = hq.push_all [OF heap_inv_new [OF assms], of vs]
  then show ?thesis
    using hq.drain_sorted [OF conjunct1 [OF p], of "length vs"] by (simp add: new_heap_def)
qed

theorem heap_sorts_witness:
  "mset (drain heap_pop 3 (foldl (\<lambda>h v. heap_push v h) (new_heap (<)) [5, 1, 3 :: int])) = {#1, 3, 5#}"
  using heap_sorts [OF strict_weak_int, of "[5, 1, 3]"] by (simp add: eval_nat_numeral)

text \<open>Every \<^verbatim>\<open>Push\<close> and \<^verbatim>\<open>Pop\<close> keeps what \<^verbatim>\<open>checkInvariant\<close> tests; \<^verbatim>\<open>Push\<close> adds exactly
  its argument, and \<^verbatim>\<open>Pop\<close> fails only on the empty heap and otherwise removes exactly one
  element that \<^verbatim>\<open>Peek\<close> shows and that no element of the heap precedes.\<close>

theorem heap_operations:
  assumes "strict_weak (less h)" "check_invariant h"
  shows "check_invariant (heap_push v h) \<and>
    mset (data (heap_push v h)) = add_mset v (mset (data h)) \<and>
    check_invariant (snd (heap_pop h)) \<and>
    fst (heap_pop h) = heap_peek h \<and>
    (case heap_pop h of
       (None, h') \<Rightarrow> data h = [] \<and> h' = h
     | (Some x, h') \<Rightarrow> mset (data h) = add_mset x (mset (data h')) \<and>
                        (\<forall>y \<in># mset (data h). \<not> less h y x))"
proof (intro conjI)
  have inv: "heap_inv h" using assms by (simp add: heap_inv_def check_invariant_iff)
  show "check_invariant (heap_push v h)"
    using hq.inv_push [OF inv] by (simp add: heap_inv_def check_invariant_iff)
  show "mset (data (heap_push v h)) = add_mset v (mset (data h))"
    by (rule hq.elems_push [OF inv])
  show "check_invariant (snd (heap_pop h))"
    using hq.inv_pop [OF inv] by (cases "heap_pop h") (simp add: heap_inv_def check_invariant_iff)
  show "fst (heap_pop h) = heap_peek h" by (simp add: hq.peek_pop)
  show "case heap_pop h of
           (None, h') \<Rightarrow> data h = [] \<and> h' = h
         | (Some x, h') \<Rightarrow> mset (data h) = add_mset x (mset (data h')) \<and>
                            (\<forall>y \<in># mset (data h). \<not> less h y x)"
    using hq.pop_None [OF inv] hq.pop_Some [OF inv] hq.pop_least [OF inv]
    by (auto split: prod.splits option.splits)
qed

theorem heap_operations_witness:
  "check_invariant (heap_push 2 \<lparr>data = [1, 4, 3 :: int], less = (<)\<rparr>)"
  by (rule heap_operations [THEN conjunct1])
    (simp_all add: strict_weak_int check_invariant_def parent_def upt_rec)

end
