(* ===== verification/Ring.thy ===== *)
theory Ring
  imports Prelude
begin

text \<open>
  The fixed-capacity FIFO of \<^verbatim>\<open>03-data-structures/examples/ring/ring.go\<close> (drop-oldest
  \<^verbatim>\<open>Push\<close>, \<^verbatim>\<open>Pop\<close>, \<^verbatim>\<open>Peek\<close>, \<^verbatim>\<open>Map\<close>) and its client \<^verbatim>\<open>RecentKeys\<close>, the bounded
  deduplication window.  The interface \<open>bounded_fifo\<close> is what \<^verbatim>\<open>RecentKeys\<close> relies on: a
  push keeps the last \<open>cap\<close> elements and reports the one that fell out.  The interpretation
  \<open>rf\<close> derives it for the code's index arithmetic.  Go's zero value of the element type is
  the argument \<open>z\<close>.
\<close>

subsection \<open>The ring\<close>

record 'a ring =
  items :: "'a list"
  head :: nat
  count :: nat

definition new_ring :: "'a \<Rightarrow> int \<Rightarrow> 'a ring" where
  "new_ring z capacity =
     (let c = (if capacity < 1 then 1 else capacity)
      in \<lparr>items = replicate (nat c) z, head = 0, count = 0\<rparr>)"

definition ring_len :: "'a ring \<Rightarrow> nat" where
  "ring_len r = count r"

definition ring_cap :: "'a ring \<Rightarrow> nat" where
  "ring_cap r = length (items r)"

definition ring_push :: "'a \<Rightarrow> 'a \<Rightarrow> 'a ring \<Rightarrow> ('a \<times> bool) \<times> 'a ring" where
  "ring_push z v r =
     (let n = length (items r);
          (evicted, r1) =
            (if count r = n
             then ((items r ! head r, True),
                   r\<lparr>items := (items r)[head r := z], head := (head r + 1) mod n,
                     count := count r - 1\<rparr>)
             else ((z, False), r));
          tail = (head r1 + count r1) mod n
      in (evicted, r1\<lparr>items := (items r1)[tail := v], count := count r1 + 1\<rparr>))"

definition ring_pop :: "'a \<Rightarrow> 'a ring \<Rightarrow> ('a \<times> bool) \<times> 'a ring" where
  "ring_pop z r =
     (if count r = 0 then ((z, False), r)
      else ((items r ! head r, True),
            r\<lparr>items := (items r)[head r := z], head := (head r + 1) mod length (items r),
              count := count r - 1\<rparr>))"

definition ring_peek :: "'a \<Rightarrow> 'a ring \<Rightarrow> 'a \<times> bool" where
  "ring_peek z r = (if count r = 0 then (z, False) else (items r ! head r, True))"

definition ring_map :: "'b \<Rightarrow> ('a \<Rightarrow> 'b) \<Rightarrow> 'a ring \<Rightarrow> 'b ring" where
  "ring_map z f r =
     foldl (\<lambda>out i. snd (ring_push z (f (items r ! ((head r + i) mod length (items r)))) out))
       (new_ring z (int (length (items r)))) [0..<count r]"

subsection \<open>The queue a ring stands for\<close>

definition ring_list :: "'a ring \<Rightarrow> 'a list" where
  "ring_list r = map (\<lambda>i. items r ! ((head r + i) mod length (items r))) [0..<count r]"

text \<open>
  Besides the index ranges the invariant says that every slot outside the queue holds the
  zero value: no dead element is retained.
\<close>

definition ring_inv :: "'a \<Rightarrow> 'a ring \<Rightarrow> bool" where
  [inv_defs]: "ring_inv z r \<longleftrightarrow>
     head r < length (items r) \<and> count r \<le> length (items r) \<and>
     (\<forall>i. count r \<le> i \<longrightarrow> i < length (items r) \<longrightarrow>
        items r ! ((head r + i) mod length (items r)) = z)"

lemma wrap_index:
  "h < n \<Longrightarrow> i \<le> n \<Longrightarrow> (h + i) mod n = (if h + i < n then h + i else h + i - n)"
  for n :: nat
  by (simp add: le_mod_geq)

lemma wrap_Suc: "h < n \<Longrightarrow> Suc h mod n = (if Suc h < n then Suc h else 0)"
  by (metis Suc_lessI mod_less mod_self)

lemma wrap_inj:
  fixes n :: nat
  assumes "h < n" "i < n" "j < n"
  shows "(h + i) mod n = (h + j) mod n \<longleftrightarrow> i = j"
  using assms by (auto simp: wrap_index split: if_splits)

lemma length_ring_list [simp]: "length (ring_list r) = count r"
  by (simp add: ring_list_def)

lemma ring_list_empty: "count r = 0 \<Longrightarrow> ring_list r = []"
  by (simp add: ring_list_def)

lemma nth_ring_list:
  "i < count r \<Longrightarrow> ring_list r ! i = items r ! ((head r + i) mod length (items r))"
  by (simp add: ring_list_def)

lemma wrap_shift:
  "h < n \<Longrightarrow> i < n \<Longrightarrow> (Suc h mod n + i) mod n = (h + Suc i) mod n" for n :: nat
  by (simp add: mod_simps)

lemma ring_inv_new: "ring_inv z (new_ring z c)"
  by (auto simp: ring_inv_def new_ring_def)

lemma ring_list_new [simp]: "ring_list (new_ring z c) = []"
  by (simp add: ring_list_def new_ring_def Let_def)

lemma ring_cap_new: "ring_cap (new_ring z c) = nat (max 1 c)"
  by (simp add: ring_cap_def new_ring_def Let_def max_def)

text \<open>Writing the slot after the last live one appends; clearing the head slot drops the first.\<close>

lemma ring_append:
  fixes v :: "'a"
  assumes "ring_inv z r" "count r < length (items r)"
  defines "r' \<equiv> r\<lparr>items := (items r)[(head r + count r) mod length (items r) := v], count := count r + 1\<rparr>"
  shows "ring_inv z r'" "ring_list r' = ring_list r @ [v]"
proof -
  let ?n = "length (items r)"
  have h: "head r < ?n" using assms(1) by (simp add: ring_inv_def)
  then have n: "0 < ?n" by linarith
  have slot: "items r' ! ((head r + i) mod ?n) = (if i = count r then v else items r ! ((head r + i) mod ?n))"
    if "i < ?n" for i
    using mod_less_divisor [OF n, of "head r + i"] wrap_inj [OF h that assms(2)]
    by (auto simp: r'_def nth_list_update)
  show "ring_inv z r'"
    using assms(1,2) slot unfolding ring_inv_def by (simp add: r'_def)
  show "ring_list r' = ring_list r @ [v]"
  proof (rule nth_equalityI)
    fix i assume "i < length (ring_list r')"
    then have i: "i < Suc (count r)" by (simp add: r'_def)
    then have "i < ?n" using assms(2) by simp
    then show "ring_list r' ! i = (ring_list r @ [v]) ! i"
      using i slot [of i] by (auto simp: nth_ring_list nth_append r'_def)
  qed (simp add: r'_def)
qed

lemma ring_drop:
  assumes "ring_inv z r" "0 < count r"
  defines "r' \<equiv> r\<lparr>items := (items r)[head r := z], head := (head r + 1) mod length (items r), count := count r - 1\<rparr>"
  shows "ring_inv z r'" "ring_list r' = tl (ring_list r)"
proof -
  let ?n = "length (items r)"
  have h: "head r < ?n" "count r \<le> ?n" using assms(1) by (simp_all add: ring_inv_def)
  then have n: "0 < ?n" by linarith
  have slot: "items r' ! ((head r' + i) mod ?n) = (if Suc i = ?n then z else items r ! ((head r + Suc i) mod ?n))"
    if "i < ?n" for i
  proof (cases "Suc i = ?n")
    case True
    then show ?thesis using h wrap_shift [OF h(1) that] by (simp add: r'_def)
  next
    case False
    then have "(head r + Suc i) mod ?n \<noteq> head r"
      using that h n wrap_inj [OF h(1), of "Suc i" 0] by simp
    then show ?thesis using False wrap_shift [OF h(1) that] by (simp add: r'_def)
  qed
  show "ring_inv z r'"
    unfolding ring_inv_def
  proof (intro conjI allI impI)
    fix i assume i: "count r' \<le> i" "i < length (items r')"
    then have "i < ?n" "count r \<le> Suc i" by (simp_all add: r'_def)
    moreover have "items r ! ((head r + Suc i) mod ?n) = z" if "count r \<le> Suc i" "Suc i < ?n"
      using assms(1) that unfolding ring_inv_def by blast
    ultimately show "items r' ! ((head r' + i) mod length (items r')) = z"
      using slot [of i] by (cases "Suc i = ?n") (simp_all add: r'_def)
  qed (use h n in \<open>simp_all add: r'_def\<close>)
  show "ring_list r' = tl (ring_list r)"
  proof (rule nth_equalityI)
    fix i assume "i < length (ring_list r')"
    then have i: "Suc i < count r" by (simp add: r'_def)
    then have "i < ?n" using h by simp
    then show "ring_list r' ! i = tl (ring_list r) ! i"
      using i h slot [of i] by (simp add: nth_ring_list nth_tl r'_def)
  qed (simp add: r'_def)
qed

subsection \<open>The operations\<close>

lemma ring_push_spec:
  assumes "ring_inv z r" "ring_push z v r = (e, r')"
  shows "ring_inv z r'" "ring_cap r' = ring_cap r"
    "ring_list r' = last_n (ring_cap r) (ring_list r @ [v])"
    "e = (if ring_len r = ring_cap r then (hd (ring_list r), True) else (z, False))"
proof -
  let ?n = "length (items r)"
  have h: "head r < ?n" "count r \<le> ?n" using assms(1) by (simp_all add: ring_inv_def)
  have "ring_inv z r' \<and> ring_cap r' = ring_cap r \<and>
    ring_list r' = last_n (ring_cap r) (ring_list r @ [v]) \<and>
    e = (if ring_len r = ring_cap r then (hd (ring_list r), True) else (z, False))"
  proof (cases "count r = ?n")
    case True
    with h have pos: "0 < count r" by linarith
    let ?r1 = "r\<lparr>items := (items r)[head r := z], head := (head r + 1) mod ?n, count := count r - 1\<rparr>"
    have d: "ring_inv z ?r1" "ring_list ?r1 = tl (ring_list r)"
      using ring_drop [OF assms(1) pos] by simp_all
    have lt: "count ?r1 < length (items ?r1)" using True pos by simp
    have r': "r' = ?r1\<lparr>items := (items ?r1)[(head ?r1 + count ?r1) mod length (items ?r1) := v],
                      count := count ?r1 + 1\<rparr>" and e: "e = (items r ! head r, True)"
      using assms(2) True by (auto simp: ring_push_def Let_def)
    have "ring_list r' = tl (ring_list r) @ [v]" "ring_inv z r'"
      using ring_append [OF d(1) lt, of v] d(2) unfolding r' by simp_all
    moreover have "ring_list r \<noteq> []" "hd (ring_list r) = items r ! head r"
      using pos h nth_ring_list [OF pos] by (auto simp: hd_conv_nth simp flip: length_greater_0_conv)
    moreover have "ring_cap r' = ring_cap r" "ring_cap r = count r"
      using True by (simp_all add: ring_cap_def r')
    ultimately show ?thesis
      using e pos by (simp add: ring_len_def last_n_snoc last_n_all)
  next
    case False
    then have lt: "count r < ?n" using h by simp
    have r': "r' = r\<lparr>items := (items r)[(head r + count r) mod ?n := v], count := count r + 1\<rparr>"
      and e: "e = (z, False)"
      using assms(2) False by (auto simp: ring_push_def Let_def)
    then show ?thesis
      using ring_append [OF assms(1) lt, of v] False lt
      by (simp add: ring_cap_def ring_len_def last_n_all)
  qed
  then show "ring_inv z r'" "ring_cap r' = ring_cap r"
    "ring_list r' = last_n (ring_cap r) (ring_list r @ [v])"
    "e = (if ring_len r = ring_cap r then (hd (ring_list r), True) else (z, False))" by simp_all
qed

lemma ring_list_Nil_iff: "ring_list r = [] \<longleftrightarrow> count r = 0"
  by (metis length_ring_list length_0_conv)

lemma hd_ring_list: "ring_inv z r \<Longrightarrow> 0 < count r \<Longrightarrow> hd (ring_list r) = items r ! head r"
  using nth_ring_list [of 0 r] ring_list_Nil_iff [of r] by (simp add: hd_conv_nth ring_inv_def)

lemma ring_pop_spec:
  assumes "ring_inv z r" "ring_pop z r = (e, r')"
  shows "ring_inv z r'" "ring_cap r' = ring_cap r" "ring_list r' = tl (ring_list r)"
    "e = (if ring_list r = [] then (z, False) else (hd (ring_list r), True))"
  using assms ring_drop [OF assms(1)] hd_ring_list [OF assms(1)]
  by (auto simp: ring_list_empty ring_pop_def ring_cap_def ring_list_Nil_iff split: if_splits)

lemma ring_peek_spec:
  "ring_inv z r \<Longrightarrow>
   ring_peek z r = (if ring_list r = [] then (z, False) else (hd (ring_list r), True))"
  by (simp add: ring_peek_def ring_list_Nil_iff hd_ring_list)

subsection \<open>The bounded-FIFO interface\<close>

locale bounded_fifo =
  fixes zero :: 'a
    and push :: "'a \<Rightarrow> 'q \<Rightarrow> ('a \<times> bool) \<times> 'q"
    and pop :: "'q \<Rightarrow> ('a \<times> bool) \<times> 'q"
    and peek :: "'q \<Rightarrow> 'a \<times> bool"
    and cap :: "'q \<Rightarrow> nat"
    and queue :: "'q \<Rightarrow> 'a list"
    and inv :: "'q \<Rightarrow> bool"
  assumes cap_pos: "inv q \<Longrightarrow> 0 < cap q"
    and queue_bound: "inv q \<Longrightarrow> length (queue q) \<le> cap q"
    and push: "inv q \<Longrightarrow> push v q = (e, q') \<Longrightarrow>
      inv q' \<and> cap q' = cap q \<and> queue q' = last_n (cap q) (queue q @ [v]) \<and>
      e = (if length (queue q) = cap q then (hd (queue q), True) else (zero, False))"
    and pop: "inv q \<Longrightarrow> pop q = (e, q') \<Longrightarrow>
      inv q' \<and> cap q' = cap q \<and> queue q' = tl (queue q) \<and>
      e = (if queue q = [] then (zero, False) else (hd (queue q), True))"
    and peek: "inv q \<Longrightarrow> peek q = fst (pop q)"
begin

lemma push_list:
  "inv q \<Longrightarrow>
   inv (foldl (\<lambda>q v. snd (push v q)) q vs) \<and>
   cap (foldl (\<lambda>q v. snd (push v q)) q vs) = cap q \<and>
   queue (foldl (\<lambda>q v. snd (push v q)) q vs) = last_n (cap q) (queue q @ vs)"
proof (induction vs arbitrary: q)
  case Nil
  then show ?case using queue_bound by (simp add: last_n_all)
next
  case (Cons v vs)
  obtain e q' where p: "push v q = (e, q')" by (cases "push v q")
  then show ?case
    using Cons.IH [of q'] push [OF Cons.prems p] last_n_append_last_n [of "cap q" "queue q @ [v]" vs]
    by simp
qed

lemma push_snoc:
  assumes "inv q" "push v q = (e, q')"
  shows "queue q' = (if snd e then tl (queue q) else queue q) @ [v]"
  using push [OF assms] cap_pos [OF assms(1)] queue_bound [OF assms(1)]
  by (auto simp: last_n_snoc last_n_all)

end

interpretation rf: bounded_fifo z "ring_push z" "ring_pop z" "ring_peek z" ring_cap ring_list
    "ring_inv z" for z
proof unfold_locales
  fix q q' :: "'a ring" and e v
  assume q: "ring_inv z q"
  show "0 < ring_cap q" using q by (auto simp: ring_inv_def ring_cap_def)
  show "length (ring_list q) \<le> ring_cap q" using q by (simp add: ring_inv_def ring_cap_def)
  show "ring_push z v q = (e, q') \<Longrightarrow>
      ring_inv z q' \<and> ring_cap q' = ring_cap q \<and>
      ring_list q' = last_n (ring_cap q) (ring_list q @ [v]) \<and>
      e = (if length (ring_list q) = ring_cap q then (hd (ring_list q), True) else (z, False))"
    using ring_push_spec [OF q] by (simp add: ring_len_def)
  show "ring_pop z q = (e, q') \<Longrightarrow>
      ring_inv z q' \<and> ring_cap q' = ring_cap q \<and> ring_list q' = tl (ring_list q) \<and>
      e = (if ring_list q = [] then (z, False) else (hd (ring_list q), True))"
    using ring_pop_spec [OF q] by simp
  show "ring_peek z q = fst (ring_pop z q)" by (simp add: ring_peek_def ring_pop_def)
qed

lemma ring_map_spec:
  assumes "ring_inv z r"
  shows "ring_inv z' (ring_map z' f r)" "ring_cap (ring_map z' f r) = ring_cap r"
    "ring_list (ring_map z' f r) = map f (ring_list r)"
proof -
  let ?n = "length (items r)"
  let ?vs = "map (\<lambda>i. f (items r ! ((head r + i) mod ?n))) [0..<count r]"
  have vs: "?vs = map f (ring_list r)" by (simp add: ring_list_def)
  have m: "ring_map z' f r =
      foldl (\<lambda>q v. snd (ring_push z' v q)) (new_ring z' (int ?n)) ?vs"
    by (simp add: ring_map_def foldl_map)
  have c: "ring_cap (new_ring z' (int ?n)) = ?n" "length (ring_list r) \<le> ?n"
    using assms by (auto simp: ring_cap_new ring_inv_def)
  note p = rf.push_list [OF ring_inv_new [of z' "int ?n"], of ?vs]
  show "ring_inv z' (ring_map z' f r)" "ring_cap (ring_map z' f r) = ring_cap r"
    using p c(1) by (simp_all add: m ring_cap_def [of r])
  show "ring_list (ring_map z' f r) = map f (ring_list r)"
    using p c unfolding m vs by (simp add: last_n_all)
qed

subsection \<open>RecentKeys\<close>

record recent =
  rk_ring :: "string ring"
  seen :: "string \<rightharpoonup> unit"

definition new_recent :: "int \<Rightarrow> recent" where
  "new_recent n = \<lparr>rk_ring = new_ring [] n, seen = Map.empty\<rparr>"

definition rk_seen :: "string \<Rightarrow> recent \<Rightarrow> bool \<times> recent" where
  "rk_seen k r =
     (case seen r k of
        Some _ \<Rightarrow> (True, r)
      | None \<Rightarrow>
          let ((old, evicted), rg) = ring_push [] k (rk_ring r);
              m = (if evicted then (seen r)(old := None) else seen r)
          in (False, r\<lparr>rk_ring := rg, seen := m(k \<mapsto> ())\<rparr>))"

definition rk_contains :: "string \<Rightarrow> recent \<Rightarrow> bool" where
  "rk_contains k r = (seen r k \<noteq> None)"

definition rk_size :: "recent \<Rightarrow> nat" where
  "rk_size r = ring_cap (rk_ring r)"

text \<open>The map and the ring in lockstep: the map holds exactly the keys of the window.\<close>

definition rk_inv :: "recent \<Rightarrow> bool" where
  [inv_defs]: "rk_inv r \<longleftrightarrow> ring_inv [] (rk_ring r) \<and> distinct (ring_list (rk_ring r)) \<and>
     dom (seen r) = set (ring_list (rk_ring r))"

lemma rk_inv_new: "rk_inv (new_recent n)"
  by (simp add: rk_inv_def new_recent_def ring_inv_new)

lemma rk_contains_window: "rk_inv r \<Longrightarrow> rk_contains k r \<longleftrightarrow> k \<in> set (ring_list (rk_ring r))"
  by (auto simp: rk_contains_def rk_inv_def)

lemma fst_rk_seen: "fst (rk_seen k r) = rk_contains k r"
  by (auto simp: rk_seen_def rk_contains_def Let_def split: option.splits prod.splits)

lemma rk_seen_hit: "rk_contains k r \<Longrightarrow> rk_seen k r = (True, r)"
  by (auto simp: rk_seen_def rk_contains_def)

lemma rk_seen_miss:
  assumes "rk_inv r" "\<not> rk_contains k r" "rk_seen k r = (b, r')"
  shows "rk_inv r'" "rk_size r' = rk_size r"
    "ring_list (rk_ring r') = last_n (rk_size r) (ring_list (rk_ring r) @ [k])"
proof -
  let ?q = "ring_list (rk_ring r)"
  have inv: "ring_inv [] (rk_ring r)" "distinct ?q" "dom (seen r) = set ?q" "k \<notin> set ?q"
    using assms(1,2) by (auto simp: rk_inv_def rk_contains_def)
  obtain old ev rg where push: "ring_push [] k (rk_ring r) = ((old, ev), rg)"
    by (metis prod.collapse)
  have r': "rk_ring r' = rg"
      "seen r' = (if ev then (seen r)(old := None) else seen r)(k \<mapsto> ())"
    using assms(2,3) push by (auto simp: rk_seen_def rk_contains_def Let_def split: option.splits)
  note p = rf.push [OF inv(1) push] and snoc = rf.push_snoc [OF inv(1) push]
  have ne: "ev \<Longrightarrow> ?q \<noteq> [] \<and> old = hd ?q"
    using p rf.cap_pos [OF inv(1)] by (auto simp: ring_list_Nil_iff split: if_splits)
  show "ring_list (rk_ring r') = last_n (rk_size r) (?q @ [k])" "rk_size r' = rk_size r"
    using p r' by (simp_all add: rk_size_def)
  have "dom (seen r') = set (ring_list rg) \<and> distinct (ring_list rg)"
  proof (cases ev)
    case True
    then obtain xs where q: "?q = old # xs" using ne by (metis list.collapse)
    then show ?thesis using True inv r' snoc by auto
  next
    case False
    then show ?thesis using inv r' snoc by auto
  qed
  then show "rk_inv r'" using p r' by (simp add: rk_inv_def)
qed

text \<open>A history of \<^verbatim>\<open>Seen\<close> calls: the keys it pushed (its misses), and the state after it.\<close>

fun rk_run :: "recent \<Rightarrow> string list \<Rightarrow> string list \<times> recent" where
  "rk_run r [] = ([], r)"
| "rk_run r (k # ks) =
     (let (hit, r1) = rk_seen k r; (pushed, r2) = rk_run r1 ks
      in (if hit then pushed else k # pushed, r2))"

lemma rk_run_window:
  "rk_inv r \<Longrightarrow> rk_run r ks = (pushed, r') \<Longrightarrow>
   rk_inv r' \<and> rk_size r' = rk_size r \<and>
   ring_list (rk_ring r') = last_n (rk_size r) (ring_list (rk_ring r) @ pushed)"
proof (induction ks arbitrary: r pushed)
  case Nil
  then show ?case
    using rf.queue_bound [of "[]" "rk_ring r"] by (simp add: rk_inv_def rk_size_def last_n_all)
next
  case (Cons k ks)
  obtain hit r1 where s: "rk_seen k r = (hit, r1)" by (cases "rk_seen k r")
  obtain ps where run: "rk_run r1 ks = (ps, r')" and ps: "pushed = (if hit then ps else k # ps)"
    using Cons.prems(2) s by (auto split: prod.splits)
  show ?case
  proof (cases hit)
    case True
    then have "r1 = r" using s rk_seen_hit [of k r] fst_rk_seen [of k r] by auto
    then show ?thesis using Cons.IH [OF _ run] Cons.prems(1) ps True by simp
  next
    case False
    then have "\<not> rk_contains k r" using s fst_rk_seen [of k r] by simp
    note m = rk_seen_miss [OF Cons.prems(1) this s]
    show ?thesis
      using Cons.IH [OF m(1) run] m(2,3) ps False
        last_n_append_last_n [of "rk_size r" "ring_list (rk_ring r) @ [k]" ps] by simp
  qed
qed

subsection \<open>Properties\<close>

text \<open>C33: after any sequence of pushes a ring of capacity \<open>c\<close> (at least one) holds exactly the last
  \<open>c\<close> values in order, and a further push onto the full ring returns the oldest of them.\<close>

theorem ring_keeps_last:
  defines "fill \<equiv> \<lambda>z c vs. foldl (\<lambda>r v. snd (ring_push z v r)) (new_ring z c) vs"
  shows "ring_list (fill z c vs) = last_n (nat (max 1 c)) vs \<and>
    fst (ring_push z v (fill z c vs)) =
      (if length vs < nat (max 1 c) then (z, False) else (hd (last_n (nat (max 1 c)) vs), True)) \<and>
    fst (ring_pop z (fill z c vs)) =
      (if vs = [] then (z, False) else (hd (last_n (nat (max 1 c)) vs), True))"
proof -
  let ?c = "nat (max 1 c)" let ?r = "fill z c vs"
  have r: "ring_inv z ?r" "ring_cap ?r = ?c" "ring_list ?r = last_n ?c vs"
    using rf.push_list [OF ring_inv_new [of z c], of vs] by (simp_all add: fill_def ring_cap_new)
  obtain e q' where push: "ring_push z v ?r = (e, q')" by (cases "ring_push z v ?r")
  obtain e' q'' where pop: "ring_pop z ?r = (e', q'')" by (cases "ring_pop z ?r")
  have c: "0 < ?c" by simp
  then have "length (last_n ?c vs) = ?c \<longleftrightarrow> \<not> length vs < ?c" by (simp add: min_def not_less)
  moreover from c have "last_n ?c vs = [] \<longleftrightarrow> vs = []"
    by (metis length_0_conv length_last_n min_0L min_less_iff_conj neq0_conv)
  ultimately show ?thesis
    using rf.push [OF r(1) push] rf.pop [OF r(1) pop] by (simp only: r(2,3) push pop fst_conv) simp
qed

text \<open>\<^verbatim>\<open>Map\<close> returns a ring of the same capacity holding the mapped values in FIFO order, and
  every slot of it outside the queue is the zero value, wherever the source ring has wrapped.\<close>

theorem ring_map_fifo:
  assumes "ring_inv z r"
  shows "ring_list (ring_map z' f r) = map f (ring_list r) \<and>
    ring_cap (ring_map z' f r) = ring_cap r \<and> ring_inv z' (ring_map z' f r)"
  by (simp add: ring_map_spec [OF assms])

theorem ring_map_fifo_witness:
  "ring_list (ring_map 0 Suc (foldl (\<lambda>r v. snd (ring_push 0 v r)) (new_ring 0 2) [1, 2, 3])) = [3, 4]"
proof -
  note p = rf.push_list [OF ring_inv_new [of "0 :: nat" 2], of "[1, 2, 3]"]
  from p have l: "ring_list (foldl (\<lambda>r v. snd (ring_push 0 v r)) (new_ring 0 2) [1, 2, 3 :: nat]) = [2, 3]"
    by (simp add: ring_cap_new last_n_def)
  from ring_map_fifo [OF conjunct1 [OF p], of 0 Suc] show ?thesis unfolding l by simp
qed

text \<open>After any history of \<^verbatim>\<open>Seen\<close> calls on a new \<^verbatim>\<open>RecentKeys\<close> of size \<open>n\<close> (at least one),
  both \<^verbatim>\<open>Seen\<close> and \<^verbatim>\<open>Contains\<close> answer yes for a key exactly when it is among the last \<open>n\<close> keys
  that were pushed, hits not counting.\<close>

theorem recent_keys_window:
  "case rk_run (new_recent n) ks of (pushed, r) \<Rightarrow>
     fst (rk_seen k r) = (k \<in> set (last_n (nat (max 1 n)) pushed)) \<and>
     rk_contains k r = (k \<in> set (last_n (nat (max 1 n)) pushed))"
proof -
  obtain pushed r where run: "rk_run (new_recent n) ks = (pushed, r)" by fastforce
  have "rk_size (new_recent n) = nat (max 1 n)" "ring_list (rk_ring (new_recent n)) = []"
    by (simp_all add: rk_size_def new_recent_def ring_cap_new)
  with rk_run_window [OF rk_inv_new run] have
    "rk_inv r" "ring_list (rk_ring r) = last_n (nat (max 1 n)) pushed" by simp_all
  then show ?thesis by (simp add: run fst_rk_seen rk_contains_window)
qed

end
