(* ===== verification/Lru.thy ===== *)
theory Lru
  imports Prelude
begin

text \<open>
  The bounded cache of \<^verbatim>\<open>03-data-structures/examples/lru/lru.go\<close>: a \<^verbatim>\<open>container/list\<close> of
  element pointers, the cell each pointer holds, and the map from keys to pointers, all of it
  under one mutex, so every method is one atomic step.  Pointers are natural numbers and
  \<open>cell\<close> is the memory they refer to.  \<open>view\<close> is the abstract cache, the bindings with the most
  recently used first; \<open>recency_cache\<close> is the contract on it, with the retention guarantee its
  client gets, and \<open>lc\<close> interprets it on the pointer structure.
\<close>

subsection \<open>State and operations\<close>

record ('k, 'v) lru =
  lru_cap :: int
  ll :: "nat list"
  cell :: "nat \<rightharpoonup> 'k \<times> 'v"
  item :: "'k \<rightharpoonup> nat"
  fresh :: nat
  hook :: bool
  evict_calls :: "('k \<times> 'v) list"
  hits :: uint64
  misses :: uint64
  evictions :: uint64

definition new_lru :: "int \<Rightarrow> ('k, 'v) lru" where
  "new_lru n =
     \<lparr>lru_cap = (if n < 1 then 1 else n), ll = [], cell = Map.empty, item = Map.empty, fresh = 0,
      hook = False, evict_calls = [], hits = 0, misses = 0, evictions = 0\<rparr>"

definition lru_on_evict :: "('k, 'v) lru \<Rightarrow> ('k, 'v) lru" where
  "lru_on_evict c = c\<lparr>hook := True\<rparr>"

definition move_to_front :: "nat \<Rightarrow> nat list \<Rightarrow> nat list" where
  "move_to_front e es = e # remove1 e es"

definition lru_get :: "'v \<Rightarrow> 'k \<Rightarrow> ('k, 'v) lru \<Rightarrow> ('v \<times> bool) \<times> ('k, 'v) lru" where
  "lru_get z k c =
     (case item c k of
        Some e \<Rightarrow> ((snd (the (cell c e)), True),
                   c\<lparr>ll := move_to_front e (ll c), hits := hits c + 1\<rparr>)
      | None \<Rightarrow> ((z, False), c\<lparr>misses := misses c + 1\<rparr>))"

definition lru_peek :: "'v \<Rightarrow> 'k \<Rightarrow> ('k, 'v) lru \<Rightarrow> 'v \<times> bool" where
  "lru_peek z k c =
     (case item c k of Some e \<Rightarrow> (snd (the (cell c e)), True) | None \<Rightarrow> (z, False))"

definition lru_put :: "'k \<Rightarrow> 'v \<Rightarrow> ('k, 'v) lru \<Rightarrow> ('k, 'v) lru" where
  "lru_put k v c =
     (case item c k of
        Some e \<Rightarrow>
          c\<lparr>ll := move_to_front e (ll c), cell := (cell c)(e \<mapsto> (fst (the (cell c e)), v))\<rparr>
      | None \<Rightarrow>
          let e = fresh c;
              c1 = c\<lparr>ll := e # ll c, cell := (cell c)(e \<mapsto> (k, v)), item := (item c)(k \<mapsto> e),
                     fresh := Suc e\<rparr>
          in if int (length (ll c1)) > lru_cap c1 then
               if ll c1 = [] then c1
               else let oldest = last (ll c1); ent = the (cell c1 oldest)
                    in c1\<lparr>ll := remove1 oldest (ll c1), item := (item c1)(fst ent := None),
                          evictions := evictions c1 + 1,
                          evict_calls := (if hook c1 then evict_calls c1 @ [ent] else evict_calls c1)\<rparr>
             else c1)"

definition lru_remove :: "'k \<Rightarrow> ('k, 'v) lru \<Rightarrow> bool \<times> ('k, 'v) lru" where
  "lru_remove k c =
     (case item c k of
        Some e \<Rightarrow>
          let ent = the (cell c e)
          in (True, c\<lparr>ll := remove1 e (ll c), item := (item c)(fst ent := None)\<rparr>)
      | None \<Rightarrow> (False, c))"

definition lru_len :: "('k, 'v) lru \<Rightarrow> nat" where
  "lru_len c = length (ll c)"

definition lru_metrics :: "('k, 'v) lru \<Rightarrow> uint64 \<times> uint64 \<times> uint64" where
  "lru_metrics c = (hits c, misses c, evictions c)"

subsection \<open>The abstract cache\<close>

definition view :: "('k, 'v) lru \<Rightarrow> ('k \<times> 'v) list" where
  "view c = map (\<lambda>e. the (cell c e)) (ll c)"

definition drop_key :: "'k \<Rightarrow> ('k \<times> 'v) list \<Rightarrow> ('k \<times> 'v) list" where
  "drop_key k xs = filter (\<lambda>p. fst p \<noteq> k) xs"

lemma drop_key_Cons: "drop_key k (p # xs) = (if fst p = k then drop_key k xs else p # drop_key k xs)"
  by (simp add: drop_key_def)

lemma drop_key_absent: "k \<notin> fst ` set xs \<Longrightarrow> drop_key k xs = xs"
  by (auto simp: drop_key_def filter_id_conv)

definition spec_get :: "'k \<Rightarrow> ('k \<times> 'v) list \<Rightarrow> ('k \<times> 'v) list" where
  "spec_get k xs = (case map_of xs k of Some v \<Rightarrow> (k, v) # drop_key k xs | None \<Rightarrow> xs)"

definition spec_put :: "nat \<Rightarrow> 'k \<Rightarrow> 'v \<Rightarrow> ('k \<times> 'v) list \<Rightarrow> ('k \<times> 'v) list" where
  "spec_put n k v xs = take n ((k, v) # drop_key k xs)"

text \<open>The list and the map agree: a key maps to the one listed pointer whose cell holds it.\<close>

definition linked :: "nat list \<Rightarrow> (nat \<rightharpoonup> 'k \<times> 'v) \<Rightarrow> ('k \<rightharpoonup> nat) \<Rightarrow> bool" where
  "linked es m i \<longleftrightarrow>
     distinct es \<and> (\<forall>k e. i k = Some e \<longleftrightarrow> e \<in> set es \<and> fst (the (m e)) = k)"

lemma view_eqI: "ll c = es \<Longrightarrow> cell c = m \<Longrightarrow> view c = map (\<lambda>e. the (m e)) es"
  by (simp add: view_def)

lemma linked_item: "linked es m i \<Longrightarrow> i k = Some e \<longleftrightarrow> e \<in> set es \<and> fst (the (m e)) = k"
  by (simp add: linked_def)

lemma linked_remove:
  assumes "linked es m i" "i k = Some e"
  shows "linked (remove1 e es) m (i(k := None))"
proof -
  have d: "set (remove1 e es) = set es - {e}" "distinct (remove1 e es)"
    using assms(1) by (simp_all add: linked_def set_remove1_eq)
  have "(i(k := None)) k' = Some e' \<longleftrightarrow> e' \<in> set es - {e} \<and> fst (the (m e')) = k'" for k' e'
    using linked_item [OF assms(1), of k' e'] linked_item [OF assms(1), of k e'] assms(2)
      linked_item [OF assms(1), of k e] by auto
  with d show ?thesis by (simp add: linked_def)
qed

lemma linked_add:
  assumes "linked es m i" "i k = None" "e \<notin> set es"
  shows "linked (e # es) (m(e \<mapsto> (k, v))) (i(k \<mapsto> e))"
proof -
  have "(i(k \<mapsto> e)) k' = Some e' \<longleftrightarrow>
      e' \<in> set (e # es) \<and> fst (the ((m(e \<mapsto> (k, v))) e')) = k'" for k' e'
    using linked_item [OF assms(1), of k' e'] linked_item [OF assms(1), of k e'] assms(2,3) by auto
  then show ?thesis using assms(1,3) by (simp add: linked_def)
qed

lemma linked_front:
  assumes "linked es m i" "e \<in> set es"
  shows "linked (move_to_front e es) m i"
    "set (move_to_front e es) = set es" "length (move_to_front e es) = length es"
proof -
  have "set (move_to_front e es) = set es" "distinct (move_to_front e es)"
    using assms by (auto simp: move_to_front_def linked_def set_remove1_eq)
  then show "set (move_to_front e es) = set es" "length (move_to_front e es) = length es"
    "linked (move_to_front e es) m i"
    using assms(1) by (auto simp: linked_def) (metis distinct_card)
qed

lemma linked_write:
  "linked es m i \<Longrightarrow> fst (the (m e)) = k \<Longrightarrow> linked es (m(e \<mapsto> (k, v))) i"
  unfolding linked_def by auto

definition lru_inv :: "('k, 'v) lru \<Rightarrow> bool" where
  [inv_defs]: "lru_inv c \<longleftrightarrow>
     1 \<le> lru_cap c \<and> int (length (ll c)) \<le> lru_cap c \<and> (\<forall>e \<in> set (ll c). e < fresh c) \<and>
     linked (ll c) (cell c) (item c)"

lemma lru_inv_new: "lru_inv (new_lru n)"
  by (simp add: lru_inv_def new_lru_def linked_def)

lemma lru_item_iff:
  "lru_inv c \<Longrightarrow> item c k = Some e \<longleftrightarrow> e \<in> set (ll c) \<and> fst (the (cell c e)) = k"
  by (simp add: lru_inv_def linked_item)

lemma lru_item_None:
  assumes "lru_inv c"
  shows "item c k = None \<longleftrightarrow> k \<notin> fst ` set (view c)"
proof -
  have "item c k = None \<longleftrightarrow> (\<forall>e. item c k \<noteq> Some e)" by (cases "item c k") simp_all
  then show ?thesis by (auto simp: lru_item_iff [OF assms] view_def)
qed

lemma distinct_keys_view:
  assumes "lru_inv c"
  shows "distinct (map fst (view c))"
proof -
  have "inj_on (\<lambda>e. fst (the (cell c e))) (set (ll c))"
    using lru_item_iff [OF assms] by (intro inj_onI) (metis option.inject)
  then show ?thesis
    using assms by (simp add: view_def distinct_map lru_inv_def linked_def comp_def)
qed

lemma view_remove:
  assumes "lru_inv c" "item c k = Some e"
  shows "map (\<lambda>e. the (cell c e)) (remove1 e (ll c)) = drop_key k (view c)"
proof -
  have "e' \<noteq> e \<longleftrightarrow> fst (the (cell c e')) \<noteq> k" if "e' \<in> set (ll c)" for e'
    using that assms lru_item_iff [OF assms(1)] by (metis option.inject)
  then have "filter (\<lambda>e'. e' \<noteq> e) (ll c) = filter (\<lambda>e'. fst (the (cell c e')) \<noteq> k) (ll c)"
    by (intro filter_cong) simp_all
  moreover have "remove1 e (ll c) = filter (\<lambda>e'. e' \<noteq> e) (ll c)"
    using assms(1) by (simp add: lru_inv_def linked_def distinct_remove1_removeAll removeAll_filter_not_eq eq_commute)
  ultimately show ?thesis by (simp add: view_def drop_key_def filter_map comp_def)
qed

lemma lru_lookup:
  assumes "lru_inv c"
  shows "map_of (view c) k = (case item c k of Some e \<Rightarrow> Some (snd (the (cell c e))) | None \<Rightarrow> None)"
proof (cases "item c k")
  case None
  then have "map_of (view c) k = None"
    using lru_item_None [OF assms, of k] by (simp add: map_of_eq_None_iff)
  with None show ?thesis by simp
next
  case (Some e)
  then have "(k, snd (the (cell c e))) \<in> set (view c)"
    using lru_item_iff [OF assms, of k e] by (force simp: view_def)
  then show ?thesis using Some distinct_keys_view [OF assms] by (simp add: map_of_is_SomeI)
qed

subsection \<open>Refinement of the abstract cache\<close>

lemma lru_get_refines:
  assumes "lru_inv c" "lru_get z k c = (r, c')"
  shows "lru_inv c'" "lru_cap c' = lru_cap c" "view c' = spec_get k (view c)"
    "r = (case map_of (view c) k of Some v \<Rightarrow> (v, True) | None \<Rightarrow> (z, False))"
proof -
  have "lru_inv c' \<and> lru_cap c' = lru_cap c \<and> view c' = spec_get k (view c) \<and>
    r = (case map_of (view c) k of Some v \<Rightarrow> (v, True) | None \<Rightarrow> (z, False))"
  proof (cases "item c k")
    case None
    then show ?thesis
      using assms lru_lookup [OF assms(1), of k]
      by (auto simp: lru_get_def lru_inv_def spec_get_def view_def)
  next
    case (Some e)
    then have e: "e \<in> set (ll c)" "fst (the (cell c e)) = k" using lru_item_iff [OF assms(1)] by auto
    have "linked (ll c) (cell c) (item c)" using assms(1) by (simp add: lru_inv_def)
    note s = linked_front [OF this e(1)]
    have "the (cell c e) = (k, snd (the (cell c e)))" using e(2) by (metis prod.collapse)
    then have "view c' = spec_get k (view c)"
      using assms(2) Some view_remove [OF assms(1) Some] lru_lookup [OF assms(1), of k]
      by (auto simp: lru_get_def view_def [of c'] move_to_front_def spec_get_def)
    moreover have "map_of (view c) k = Some (snd (the (cell c e)))"
      using lru_lookup [OF assms(1), of k] Some by simp
    ultimately show ?thesis
      using assms Some s by (auto simp: lru_get_def lru_inv_def)
  qed
  then show "lru_inv c'" "lru_cap c' = lru_cap c" "view c' = spec_get k (view c)"
    "r = (case map_of (view c) k of Some v \<Rightarrow> (v, True) | None \<Rightarrow> (z, False))" by blast+
qed

lemma lru_peek_refines:
  "lru_inv c \<Longrightarrow>
   lru_peek z k c = (case map_of (view c) k of Some v \<Rightarrow> (v, True) | None \<Rightarrow> (z, False))"
  using lru_lookup [of c k] by (auto simp: lru_peek_def split: option.splits)

lemma lru_remove_refines:
  assumes "lru_inv c" "lru_remove k c = (b, c')"
  shows "lru_inv c'" "view c' = drop_key k (view c)" "b = (k \<in> fst ` set (view c))"
proof -
  have "lru_inv c' \<and> view c' = drop_key k (view c) \<and> b = (k \<in> fst ` set (view c))"
  proof (cases "item c k")
    case None
    moreover from this have "drop_key k (view c) = view c"
      using lru_item_None [OF assms(1), of k] by (simp add: drop_key_absent)
    ultimately show ?thesis
      using assms lru_item_None [OF assms(1), of k] by (auto simp: lru_remove_def)
  next
    case (Some e)
    then have e: "e \<in> set (ll c)" "fst (the (cell c e)) = k" using lru_item_iff [OF assms(1)] by auto
    have c': "c' = c\<lparr>ll := remove1 e (ll c), item := (item c)(k := None)\<rparr>" "b"
      using assms(2) Some e(2) by (auto simp: lru_remove_def Let_def)
    have "linked (remove1 e (ll c)) (cell c) ((item c)(k := None))"
      using linked_remove [of "ll c" "cell c" "item c" k e] Some assms(1) by (simp add: lru_inv_def)
    moreover have "length (remove1 e (ll c)) \<le> length (ll c)" by (simp add: length_remove1)
    moreover have "set (remove1 e (ll c)) \<subseteq> set (ll c)" by (rule set_remove1_subset)
    ultimately have "lru_inv c'" using assms(1) unfolding c' lru_inv_def by auto
    moreover have "view c' = drop_key k (view c)"
      using view_remove [OF assms(1) Some] by (simp add: c' view_def [of "c\<lparr>ll := _, item := _\<rparr>"])
    moreover have "k \<in> fst ` set (view c)" using lru_item_None [OF assms(1), of k] Some by simp
    ultimately show ?thesis using c'(2) by simp
  qed
  then show "lru_inv c'" "view c' = drop_key k (view c)" "b = (k \<in> fst ` set (view c))" by blast+
qed

lemma remove1_last: "distinct xs \<Longrightarrow> xs \<noteq> [] \<Longrightarrow> remove1 (last xs) xs = butlast xs"
  by (cases xs rule: rev_cases) (simp_all add: remove1_append)

lemma lru_put_hit:
  assumes "lru_inv c" "item c k = Some e"
  shows "lru_inv (lru_put k v c)" "view (lru_put k v c) = (k, v) # drop_key k (view c)"
proof -
  have e: "e \<in> set (ll c)" "fst (the (cell c e)) = k" and l: "linked (ll c) (cell c) (item c)"
    using assms lru_item_iff [OF assms(1), of k e] by (auto simp: lru_inv_def)
  have p: "lru_put k v c = c\<lparr>ll := move_to_front e (ll c), cell := (cell c)(e \<mapsto> (k, v))\<rparr>"
    using assms(2) e(2) by (simp add: lru_put_def)
  show "lru_inv (lru_put k v c)"
    using linked_front [OF l e(1)] linked_write e(2) assms(1) by (simp add: p lru_inv_def)
  have "map (\<lambda>e'. the (((cell c)(e \<mapsto> (k, v))) e')) (remove1 e (ll c))
      = map (\<lambda>e'. the (cell c e')) (remove1 e (ll c))"
    using l by (intro map_cong) (auto simp: linked_def set_remove1_eq)
  then show "view (lru_put k v c) = (k, v) # drop_key k (view c)"
    using view_remove [OF assms] by (simp add: p view_def [of "c\<lparr>ll := _, cell := _\<rparr>"] move_to_front_def)
qed

text \<open>The new binding goes to the front; when that overfills the cache the last one leaves.\<close>

lemma lru_put_room:
  fixes v :: 'v
  assumes "lru_inv c" "item c k = None" "int (length (ll c)) \<noteq> lru_cap c"
  defines "c' \<equiv> lru_put k v c"
  shows "lru_inv c' \<and> view c' = (k, v) # view c \<and> evictions c' = evictions c \<and> evict_calls c' = evict_calls c"
proof -
  let ?e = "fresh c" let ?es = "?e # ll c" let ?m = "(cell c)(?e \<mapsto> (k, v))" let ?i = "(item c)(k \<mapsto> ?e)"
  have l: "linked (ll c) (cell c) (item c)" and cap: "1 \<le> lru_cap c" "int (length (ll c)) \<le> lru_cap c"
    and fr: "\<forall>e \<in> set (ll c). e < ?e"
    using assms(1) by (auto simp: lru_inv_def)
  then have new: "?e \<notin> set (ll c)" by auto
  have c': "c' = c\<lparr>ll := ?es, cell := ?m, item := ?i, fresh := Suc ?e\<rparr>"
    using assms(2,3) cap by (simp add: c'_def lru_put_def Let_def)
  then have "view c' = map (\<lambda>e. the (?m e)) ?es" by (intro view_eqI [of c' ?es ?m]) simp_all
  moreover have "map (\<lambda>e. the (?m e)) ?es = (k, v) # view c" using new by (auto simp: view_def)
  ultimately show ?thesis using assms(3) cap fr linked_add [OF l assms(2) new] by (auto simp: c' lru_inv_def)
qed

lemma lru_put_full:
  fixes v :: 'v
  assumes "lru_inv c" "item c k = None" "int (length (ll c)) = lru_cap c"
  defines "c' \<equiv> lru_put k v c"
  shows "lru_inv c' \<and> view c' = butlast ((k, v) # view c) \<and> evictions c' = evictions c + 1 \<and>
    evict_calls c' = evict_calls c @ (if hook c then [last (view c)] else [])"
proof -
  let ?e = "fresh c" let ?es = "?e # ll c" let ?m = "(cell c)(?e \<mapsto> (k, v))" let ?i = "(item c)(k \<mapsto> ?e)"
  have l: "linked (ll c) (cell c) (item c)" and cap: "1 \<le> lru_cap c" and fr: "\<forall>e \<in> set (ll c). e < ?e"
    using assms(1) by (auto simp: lru_inv_def)
  then have new: "?e \<notin> set (ll c)" and ne: "ll c \<noteq> []" using assms(3) by auto
  have l1: "linked ?es ?m ?i" using linked_add [OF l assms(2) new] .
  have v1: "map (\<lambda>e. the (?m e)) ?es = (k, v) # view c" using new by (auto simp: view_def)
  let ?o = "last (ll c)" let ?ent = "the (cell c ?o)"
  have o: "?o \<in> set (ll c)" "?o \<noteq> ?e" using ne new by (auto dest: last_in_set)
  have io: "?i (fst ?ent) = Some ?o" using linked_item [OF l1, of "fst ?ent" ?o] o by simp
  have c': "c' = c\<lparr>ll := remove1 ?o ?es, cell := ?m, item := ?i(fst ?ent := None), fresh := Suc ?e,
      evictions := evictions c + 1,
      evict_calls := (if hook c then evict_calls c @ [?ent] else evict_calls c)\<rparr>"
    using assms(2,3) ne o by (simp add: c'_def lru_put_def Let_def)
  have b: "remove1 ?o ?es = butlast ?es" using remove1_last [of ?es] l1 ne by (simp add: linked_def)
  have "linked (remove1 ?o ?es) ?m (?i(fst ?ent := None))" by (rule linked_remove [OF l1 io])
  moreover have "ll c' = butlast ?es" "cell c' = ?m"
    unfolding b [symmetric] by (simp_all add: c' del: remove1.simps)
  then have "view c' = map (\<lambda>e. the (?m e)) (butlast ?es)" by (rule view_eqI)
  then have "view c' = butlast ((k, v) # view c)" by (simp only: map_butlast v1)
  moreover have "last (view c) = ?ent" using ne by (simp add: view_def last_map)
  moreover have "\<forall>e \<in> set (butlast ?es). e < Suc ?e" using fr by (auto dest!: in_set_butlastD)
  moreover have "int (length (butlast ?es)) \<le> lru_cap c" using assms(3) by simp
  ultimately show ?thesis
    using assms(3) cap fr unfolding c' lru_inv_def b by (auto simp del: butlast.simps)
qed

lemma lru_put_miss:
  fixes v :: 'v
  assumes "lru_inv c" "item c k = None"
  defines "full \<equiv> int (length (ll c)) = lru_cap c" and "c' \<equiv> lru_put k v c"
  shows "lru_inv c'" "view c' = (if full then butlast ((k, v) # view c) else (k, v) # view c)"
    "evictions c' = evictions c + (if full then 1 else 0)"
    "evict_calls c' = evict_calls c @ (if full \<and> hook c then [last (view c)] else [])"
  using lru_put_room [OF assms(1,2), of v] lru_put_full [OF assms(1,2), of v] unfolding full_def c'_def
  by (cases "int (length (ll c)) = lru_cap c"; simp)+

lemma lru_cap_put [simp]: "lru_cap (lru_put k v c) = lru_cap c"
  by (auto simp: lru_put_def Let_def split: option.splits)

lemma length_view [simp]: "length (view c) = length (ll c)"
  by (simp add: view_def)

lemma length_drop_key:
  "distinct (map fst xs) \<Longrightarrow> k \<in> fst ` set xs \<Longrightarrow> Suc (length (drop_key k xs)) = length xs"
  by (induction xs) (auto simp: drop_key_Cons drop_key_absent)

lemma lru_put_refines:
  assumes "lru_inv c"
  shows "lru_inv (lru_put k v c)" "view (lru_put k v c) = spec_put (nat (lru_cap c)) k v (view c)"
proof -
  have b: "length (view c) \<le> nat (lru_cap c)" using assms by (simp add: lru_inv_def le_nat_iff)
  have "lru_inv (lru_put k v c) \<and> view (lru_put k v c) = spec_put (nat (lru_cap c)) k v (view c)"
  proof (cases "item c k")
    case None
    then have d: "drop_key k (view c) = view c"
      using lru_item_None [OF assms, of k] by (simp add: drop_key_absent)
    have c: "int (length (ll c)) = lru_cap c \<longleftrightarrow> nat (lru_cap c) = length (view c)"
      using assms by (auto simp: lru_inv_def)
    have "view (lru_put k v c) = take (nat (lru_cap c)) ((k, v) # view c)"
      using lru_put_miss(2) [OF assms None, of v] b unfolding c
      by (cases "nat (lru_cap c) = length (view c)") (simp_all add: butlast_conv_take)
    then show ?thesis
      using lru_put_miss(1) [OF assms None, of v] by (simp add: spec_put_def d)
  next
    case (Some e)
    then have "k \<in> fst ` set (view c)" using lru_item_None [OF assms, of k] by auto
    from length_drop_key [OF distinct_keys_view [OF assms] this] b show ?thesis
      using lru_put_hit [OF assms Some, of v] by (simp add: spec_put_def)
  qed
  then show "lru_inv (lru_put k v c)" "view (lru_put k v c) = spec_put (nat (lru_cap c)) k v (view c)"
    by blast+
qed

subsection \<open>The cache interface and its retention guarantee\<close>

datatype ('k, 'v) cache_use = Use_get 'k | Use_put 'k 'v

fun cache_step ::
  "('k \<Rightarrow> 'c \<Rightarrow> ('v \<times> bool) \<times> 'c) \<Rightarrow> ('k \<Rightarrow> 'v \<Rightarrow> 'c \<Rightarrow> 'c) \<Rightarrow> 'c \<Rightarrow> ('k, 'v) cache_use \<Rightarrow> 'c" where
  "cache_step get put c (Use_get k) = snd (get k c)"
| "cache_step get put c (Use_put k v) = put k v c"

text \<open>\<open>keeps k S u\<close>: the call \<open>u\<close> reads \<open>k\<close>, or touches a key of \<open>S\<close>.\<close>

fun keeps :: "'k \<Rightarrow> 'k set \<Rightarrow> ('k, 'v) cache_use \<Rightarrow> bool" where
  "keeps k S (Use_get k') \<longleftrightarrow> k' = k \<or> k' \<in> S"
| "keeps k S (Use_put k' v) \<longleftrightarrow> k' \<in> S"

definition near_front :: "'k \<Rightarrow> 'v \<Rightarrow> 'k set \<Rightarrow> ('k \<times> 'v) list \<Rightarrow> bool" where
  "near_front k v S xs \<longleftrightarrow> (\<exists>pre post. xs = pre @ (k, v) # post \<and> fst ` set pre \<subseteq> S)"

lemma near_front_hd: "near_front k v S ((k, v) # xs)"
  unfolding near_front_def by (rule exI [of _ "[]"], rule exI [of _ xs]) simp

lemma drop_key_append: "drop_key k (xs @ ys) = drop_key k xs @ drop_key k ys"
  by (simp add: drop_key_def)

lemma keys_drop_key: "fst ` set (drop_key k xs) = fst ` set xs - {k}"
  by (auto simp: drop_key_def)

lemma near_front_get:
  assumes "near_front k v S xs" "distinct (map fst xs)" "k' = k \<or> k' \<in> S" "k \<notin> S"
  shows "near_front k v S (spec_get k' xs)"
proof -
  obtain pre post where xs: "xs = pre @ (k, v) # post" "fst ` set pre \<subseteq> S"
    using assms(1) by (auto simp: near_front_def)
  show ?thesis
  proof (cases "k' = k")
    case True
    have "map_of xs k = Some v" using assms(2) xs(1) by (intro map_of_is_SomeI) auto
    then show ?thesis using True by (simp add: spec_get_def near_front_hd)
  next
    case False
    show ?thesis
    proof (cases "map_of xs k'")
      case None
      then show ?thesis using assms(1) by (simp add: spec_get_def)
    next
      case (Some v')
      have "spec_get k' xs = ((k', v') # drop_key k' pre) @ (k, v) # drop_key k' post"
        using Some False by (simp add: spec_get_def xs(1) drop_key_append drop_key_Cons)
      moreover have "fst ` set ((k', v') # drop_key k' pre) \<subseteq> S"
        using assms(3) False xs(2) by (auto simp: keys_drop_key)
      ultimately show ?thesis unfolding near_front_def by blast
    qed
  qed
qed

lemma near_front_put:
  assumes "near_front k v S xs" "distinct (map fst xs)" "k' \<in> S" "k \<notin> S" "finite S" "card S < n"
  shows "near_front k v S (spec_put n k' v' xs)"
proof -
  obtain pre post where xs: "xs = pre @ (k, v) # post" "fst ` set pre \<subseteq> S"
    using assms(1) by (auto simp: near_front_def)
  let ?pre = "(k', v') # drop_key k' pre"
  have keys: "fst ` set ?pre \<subseteq> S" using assms(3) xs(2) by (auto simp: keys_drop_key)
  have "distinct (map fst ?pre)"
    using assms(2) xs(1) by (auto simp: drop_key_def distinct_map_filter)
  then have "length ?pre = card (fst ` set ?pre)" by (metis distinct_card length_map set_map)
  also have "\<dots> \<le> card S" using keys assms(5) by (rule card_mono [rotated])
  finally have "length ?pre < n" using assms(6) by simp
  then have "take n (?pre @ (k, v) # drop_key k' post)
      = ?pre @ (k, v) # take (n - Suc (length ?pre)) (drop_key k' post)"
    by (simp add: take_Cons' del: append_Cons)
  moreover have "k' \<noteq> k" using assms(3,4) by auto
  ultimately have "spec_put n k' v' xs = ?pre @ (k, v) # take (n - Suc (length ?pre)) (drop_key k' post)"
    by (simp add: spec_put_def xs(1) drop_key_append drop_key_Cons)
  with keys show ?thesis unfolding near_front_def by blast
qed

locale recency_cache =
  fixes zero :: 'v
    and get :: "'k \<Rightarrow> 'c \<Rightarrow> ('v \<times> bool) \<times> 'c"
    and put :: "'k \<Rightarrow> 'v \<Rightarrow> 'c \<Rightarrow> 'c"
    and peek :: "'k \<Rightarrow> 'c \<Rightarrow> 'v \<times> bool"
    and cap :: "'c \<Rightarrow> nat"
    and binds :: "'c \<Rightarrow> ('k \<times> 'v) list"
    and inv :: "'c \<Rightarrow> bool"
  assumes cap_pos: "inv c \<Longrightarrow> 0 < cap c"
    and distinct_binds: "inv c \<Longrightarrow> distinct (map fst (binds c))"
    and put: "inv c \<Longrightarrow>
      inv (put k v c) \<and> cap (put k v c) = cap c \<and> binds (put k v c) = spec_put (cap c) k v (binds c)"
    and get: "inv c \<Longrightarrow>
      inv (snd (get k c)) \<and> cap (snd (get k c)) = cap c \<and> binds (snd (get k c)) = spec_get k (binds c)"
    and peek: "inv c \<Longrightarrow>
      peek k c = (case map_of (binds c) k of Some v \<Rightarrow> (v, True) | None \<Rightarrow> (zero, False))"
begin

lemma step_near_front:
  assumes "inv c" "near_front k v S (binds c)" "keeps k S u" "k \<notin> S" "finite S" "card S < cap c"
  shows "inv (cache_step get put c u) \<and> cap (cache_step get put c u) = cap c \<and>
    near_front k v S (binds (cache_step get put c u))"
proof (cases u)
  case (Use_get k')
  then show ?thesis
    using assms get [OF assms(1), of k'] near_front_get [OF assms(2) distinct_binds [OF assms(1)]]
    by auto
next
  case (Use_put k' v')
  then show ?thesis
    using assms put [OF assms(1), of k' v'] near_front_put [OF assms(2) distinct_binds [OF assms(1)]]
    by auto
qed

lemma run_near_front:
  assumes "k \<notin> S" "finite S"
  shows "inv c \<Longrightarrow> near_front k v S (binds c) \<Longrightarrow> \<forall>u \<in> set us. keeps k S u \<Longrightarrow> card S < cap c \<Longrightarrow>
    inv (foldl (cache_step get put) c us) \<and> near_front k v S (binds (foldl (cache_step get put) c us))"
proof (induction us arbitrary: c)
  case Nil
  then show ?case by simp
next
  case (Cons u us)
  then show ?case using step_near_front [of c k v S u] assms by simp
qed

lemma retention:
  assumes "inv c" "k \<notin> S" "finite S" "card S < cap c" "\<forall>u \<in> set us. keeps k S u"
  shows "peek k (foldl (cache_step get put) (put k v c) us) = (v, True)"
proof -
  note p = put [OF assms(1), of k v]
  have "near_front k v S (binds (put k v c))"
    using p cap_pos [OF assms(1)]
    by (cases "cap c") (simp_all add: near_front_hd spec_put_def)
  with run_near_front [OF assms(2,3), of "put k v c" v us] p assms(4,5)
  have r: "inv (foldl (cache_step get put) (put k v c) us)"
    "near_front k v S (binds (foldl (cache_step get put) (put k v c) us))" by simp_all
  then have "map_of (binds (foldl (cache_step get put) (put k v c) us)) k = Some v"
    using distinct_binds [OF r(1)] by (intro map_of_is_SomeI) (auto simp: near_front_def)
  then show ?thesis using peek [OF r(1)] by simp
qed

end

interpretation lc: recency_cache "z :: 'v" "lru_get z" lru_put "lru_peek z"
    "\<lambda>c :: ('k, 'v) lru. nat (lru_cap c)" view lru_inv
  for z :: 'v
proof unfold_locales
  fix c :: "('k, 'v) lru" and k :: 'k and v :: 'v
  assume c: "lru_inv c"
  show "0 < nat (lru_cap c)" using c by (simp add: lru_inv_def)
  show "distinct (map fst (view c))" by (rule distinct_keys_view [OF c])
  show "lru_inv (lru_put k v c) \<and> nat (lru_cap (lru_put k v c)) = nat (lru_cap c) \<and>
      view (lru_put k v c) = spec_put (nat (lru_cap c)) k v (view c)"
    using lru_put_refines [OF c] by simp
  show "lru_inv (snd (lru_get z k c)) \<and> nat (lru_cap (snd (lru_get z k c))) = nat (lru_cap c) \<and>
      view (snd (lru_get z k c)) = spec_get k (view c)"
    using lru_get_refines [OF c prod.collapse [symmetric]] by metis
  show "lru_peek z k c = (case map_of (view c) k of Some v \<Rightarrow> (v, True) | None \<Rightarrow> (z, False))"
    by (rule lru_peek_refines [OF c])
qed

subsection \<open>Properties\<close>

text \<open>C32: the pointer structure refines the abstract recency list: a \<^verbatim>\<open>Get\<close> answers from it and
  moves a hit to the front, a \<^verbatim>\<open>Put\<close> puts its binding first and cuts the list at the capacity,
  \<^verbatim>\<open>Remove\<close> deletes the key and \<^verbatim>\<open>Peek\<close> reads without changing it; each keeps the
  invariant that ties the map, the list and the cells together.\<close>

theorem lru_refinement:
  assumes "lru_inv c"
  shows "lru_inv (lru_put k v c) \<and> view (lru_put k v c) = spec_put (nat (lru_cap c)) k v (view c) \<and>
    lru_inv (snd (lru_get z k c)) \<and> view (snd (lru_get z k c)) = spec_get k (view c) \<and>
    fst (lru_get z k c) = (case map_of (view c) k of Some v \<Rightarrow> (v, True) | None \<Rightarrow> (z, False)) \<and>
    lru_peek z k c = fst (lru_get z k c) \<and>
    lru_inv (snd (lru_remove k c)) \<and> view (snd (lru_remove k c)) = drop_key k (view c) \<and>
    fst (lru_remove k c) = (k \<in> fst ` set (view c))"
  using lru_put_refines [OF assms, of k v] lru_get_refines [OF assms prod.collapse [symmetric], of z k]
    lru_remove_refines [OF assms prod.collapse [symmetric], of k] lc.peek [OF assms, of z k]
  by simp

theorem lru_refinement_witness:
  "view (lru_put (2 :: nat) ''b'' (lru_put 1 ''a'' (new_lru 1))) = [(2, ''b'')]"
proof -
  note p = lru_refinement [OF lru_inv_new [of 1], of "1 :: nat" "''a''"]
  have "view (lru_put (2 :: nat) ''b'' (lru_put 1 ''a'' (new_lru 1)))
      = spec_put (nat (lru_cap (lru_put (1 :: nat) ''a'' (new_lru 1)))) 2 ''b''
          (view (lru_put (1 :: nat) ''a'' (new_lru 1)))"
    using lru_refinement [of "lru_put (1 :: nat) ''a'' (new_lru 1)" 2 "''b''"] p by blast
  also have "\<dots> = [(2, ''b'')]" by (simp add: spec_put_def new_lru_def)
  finally show ?thesis .
qed

text \<open>A \<^verbatim>\<open>Put\<close> evicts only when its key is new and the cache is full, and then exactly the
  least recently used binding: that one leaves, the eviction counter rises by one, and a
  registered hook is called once with that pair.\<close>

theorem lru_evicts_oldest:
  fixes k :: 'k
  assumes "lru_inv c"
  defines "full \<equiv> k \<notin> fst ` set (view c) \<and> int (lru_len c) = lru_cap c"
  shows "(full \<longrightarrow> view (lru_put k v c) = (k, v) # butlast (view c)) \<and>
    (\<not> full \<longrightarrow> view (lru_put k v c) = (k, v) # drop_key k (view c)) \<and>
    evictions (lru_put k v c) = evictions c + (if full then 1 else 0) \<and>
    evict_calls (lru_put k v c) = evict_calls c @ (if full \<and> hook c then [last (view c)] else [])"
proof (cases "item c k")
  case None
  then have k: "k \<notin> fst ` set (view c)" using lru_item_None [OF assms(1), of k] by simp
  have "view c \<noteq> []" if "int (length (ll c)) = lru_cap c"
    using that assms(1) by (auto simp: lru_inv_def view_def)
  then show ?thesis
    using lru_put_miss [OF assms(1) None, of v] k
    by (auto simp: full_def lru_len_def drop_key_absent)
next
  case (Some e)
  then have "\<not> full" using lru_item_None [OF assms(1), of k] by (auto simp: full_def)
  moreover have "evictions (lru_put k v c) = evictions c" "evict_calls (lru_put k v c) = evict_calls c"
    using Some by (simp_all add: lru_put_def)
  ultimately show ?thesis using lru_put_hit [OF assms(1) Some, of v] by simp
qed

theorem lru_evicts_oldest_witness:
  "evict_calls (lru_put (2 :: nat) ''b'' (lru_put 1 ''a'' (lru_on_evict (new_lru 1)))) = [(1, ''a'')]"
proof -
  let ?c = "lru_put (1 :: nat) ''a'' (lru_on_evict (new_lru 1))"
  have c: "lru_inv ?c" by (intro lru_put_refines) (simp add: lru_inv_def new_lru_def lru_on_evict_def linked_def)
  have "view ?c = [(1, ''a'')]" "hook ?c" "evict_calls ?c = []" "lru_len ?c = 1" "lru_cap ?c = 1"
    by (simp_all add: lru_put_def new_lru_def lru_on_evict_def view_def lru_len_def)
  with lru_evicts_oldest [OF c, of 2 "''b''"] show ?thesis by simp
qed

text \<open>A value just stored is still there after any sequence of reads and writes of other keys
  (and reads of its own), as long as those touch fewer distinct other keys than the capacity:
  no promotion or eviction can push it out sooner.\<close>

theorem lru_retention:
  assumes "lru_inv c" "k \<notin> S" "finite S" "int (card S) < lru_cap c" "\<forall>u \<in> set us. keeps k S u"
  shows "lru_peek z k (foldl (cache_step (lru_get z) lru_put) (lru_put k v c) us) = (v, True)"
  using lc.retention [OF assms(1,2,3) _ assms(5)] assms(4) by simp

theorem lru_retention_witness:
  "lru_peek 0 ''a'' (foldl (cache_step (lru_get 0) lru_put) (lru_put ''a'' (7 :: nat) (new_lru 2))
     [Use_put ''b'' 1, Use_get ''a'', Use_put ''b'' 2]) = (7, True)"
  by (rule lru_retention [where S = "{''b''}"]) (simp_all add: lru_inv_new, simp add: new_lru_def)

end
