(* ===== verification/Ledger.thy ===== *)
theory Ledger
  imports Prelude
begin

text \<open>
  The double-entry ledger of \<^verbatim>\<open>25-fintech-with-go/examples/ledger\<close> (\<^verbatim>\<open>money.go\<close>,
  \<^verbatim>\<open>ledger.go\<close>).  Amounts are 64-bit words that wrap as \<^verbatim>\<open>int64\<close> does.  An entry's
  \<^verbatim>\<open>Lines\<close> is a slice, so the model keeps an explicit memory of line arrays and an entry
  holds an address: which copies \<^verbatim>\<open>Post\<close> makes, and which \<^verbatim>\<open>Entries\<close> does not, is visible in
  it.  The mutex makes each method one step, but for \<^verbatim>\<open>Post\<close>, whose check runs before it takes the
  mutex.  The context an error is wrapped in is a constructor;
  \<open>err_is\<close> is \<^verbatim>\<open>errors.Is\<close> on the chain.
\<close>

subsection \<open>Money\<close>

record money =
  amount :: int64
  currency :: string

datatype ledger_error =
    ErrUnbalanced | ErrUnknownAccount | ErrCurrencyMismatch | ErrInvalidAmount
  | EmptyAccount
  | AtEntry string ledger_error
  | AtLine string nat ledger_error
  | AtBalance string ledger_error

fun err_is :: "ledger_error \<Rightarrow> ledger_error \<Rightarrow> bool" where
  "err_is (AtEntry r e) t \<longleftrightarrow> AtEntry r e = t \<or> err_is e t"
| "err_is (AtLine r i e) t \<longleftrightarrow> AtLine r i e = t \<or> err_is e t"
| "err_is (AtBalance a e) t \<longleftrightarrow> AtBalance a e = t \<or> err_is e t"
| "err_is e t \<longleftrightarrow> e = t"

definition money_new :: "int64 \<Rightarrow> string \<Rightarrow> ledger_error + money" where
  "money_new amt cur =
     (if length cur \<noteq> 3 then Inl ErrInvalidAmount else Inr \<lparr>amount = amt, currency = cur\<rparr>)"

text \<open>\<^verbatim>\<open>MustNew\<close> panics on an error: \<open>None\<close>.\<close>

definition must_new :: "int64 \<Rightarrow> string \<Rightarrow> money option" where
  "must_new amt cur = (case money_new amt cur of Inl _ \<Rightarrow> None | Inr m \<Rightarrow> Some m)"

definition money_add :: "money \<Rightarrow> money \<Rightarrow> ledger_error + money" where
  "money_add m n =
     (if length (currency m) \<noteq> 3 \<or> length (currency n) \<noteq> 3 then Inl ErrInvalidAmount
      else if currency m \<noteq> currency n then Inl ErrCurrencyMismatch
      else Inr \<lparr>amount = amount m + amount n, currency = currency m\<rparr>)"

definition negate :: "money \<Rightarrow> money" where
  "negate m = \<lparr>amount = - amount m, currency = currency m\<rparr>"

definition is_zero :: "money \<Rightarrow> bool" where
  "is_zero m = (amount m = 0)"

definition is_positive :: "money \<Rightarrow> bool" where
  "is_positive m = (sint (amount m) > 0)"

definition money_text :: "money \<Rightarrow> string" where
  "money_text m = int_text (sint (amount m)) @ '' '' @ currency m"

text \<open>Two amounts of money print the same only when they are the same.\<close>

lemma money_text_inj: "money_text m = money_text n \<Longrightarrow> m = n"
proof -
  assume eq: "money_text m = money_text n"
  have "takeWhile (\<lambda>c. c \<noteq> CHR '' '') (int_text i @ '' '' @ s) = int_text i" for i s
    using int_text_no_space [of i] by (subst takeWhile_append2) auto
  then have "int_text (sint (amount m)) = int_text (sint (amount n))" using eq unfolding money_text_def by metis
  then have "sint (amount m) = sint (amount n)" "currency m = currency n" using eq
    by (simp_all add: money_text_def)
  moreover from this have "amount m = amount n" by (metis of_int_sint scast_id)
  ultimately show "m = n" by (cases m; cases n) simp
qed

subsection \<open>The journal and the memory of line arrays\<close>

type_synonym addr = nat

record line =
  account :: string
  lamount :: money

record entry =
  entry_id :: int64
  posted_at :: instant
  reference :: string
  lines_at :: addr

record journal =
  mem :: "addr \<Rightarrow> line list"
  brk :: addr
  jentries :: "entry list"
  next_id :: int64

definition new_journal :: journal where
  "new_journal = \<lparr>mem = (\<lambda>_. []), brk = 0, jentries = [], next_id = 0\<rparr>"

text \<open>A fresh array with the given contents, as \<^verbatim>\<open>append([]Line(nil), ...)\<close> makes.\<close>

definition alloc :: "line list \<Rightarrow> journal \<Rightarrow> addr \<times> journal" where
  "alloc ls j = (brk j, j\<lparr>mem := (mem j)(brk j := ls), brk := Suc (brk j)\<rparr>)"

fun sum_lines :: "string \<Rightarrow> nat \<Rightarrow> money \<Rightarrow> line list \<Rightarrow> ledger_error + money" where
  "sum_lines ref i tot [] = Inr tot"
| "sum_lines ref i tot (l # ls) =
     (if account l = [] then Inl (AtLine ref i EmptyAccount)
      else case money_add tot (lamount l) of
             Inl e \<Rightarrow> Inl (AtLine ref i e)
           | Inr s \<Rightarrow> sum_lines ref (Suc i) s ls)"

definition validate :: "string \<Rightarrow> line list \<Rightarrow> ledger_error option" where
  "validate ref ls =
     (if ref = [] then Some ErrInvalidAmount
      else if length ls < 2 then Some (AtEntry ref ErrUnbalanced)
      else case money_new 0 (currency (lamount (hd ls))) of
             Inl e \<Rightarrow> Some (AtLine ref 0 e)
           | Inr zero \<Rightarrow>
               (case sum_lines ref 0 zero ls of
                  Inl e \<Rightarrow> Some e
                | Inr tot \<Rightarrow> if \<not> is_zero tot then Some (AtEntry ref ErrUnbalanced) else None))"

definition post :: "instant \<Rightarrow> string \<Rightarrow> addr \<Rightarrow> journal \<Rightarrow> (ledger_error + entry) \<times> journal" where
  "post now ref a j =
     (case validate ref (mem j a) of
        Some e \<Rightarrow> (Inl e, j)
      | None \<Rightarrow>
          let n = next_id j + 1;
              (own, j1) = alloc (mem j a) (j\<lparr>next_id := n\<rparr>);
              e = \<lparr>entry_id = n, posted_at = now, reference = ref, lines_at = own\<rparr>;
              j2 = j1\<lparr>jentries := jentries j1 @ [e]\<rparr>;
              (copy, j3) = alloc (mem j2 own) j2
          in (Inr (e\<lparr>lines_at := copy\<rparr>), j3))"

definition post_balance ::
  "instant \<Rightarrow> string \<Rightarrow> string \<Rightarrow> string \<Rightarrow> money \<Rightarrow> journal \<Rightarrow> (ledger_error + entry) \<times> journal" where
  "post_balance now ref src dst m j =
     (let (a, j1) = alloc [\<lparr>account = src, lamount = m\<rparr>, \<lparr>account = dst, lamount = negate m\<rparr>] j
      in post now ref a j1)"

fun balance_lines :: "string \<Rightarrow> money option \<Rightarrow> line list \<Rightarrow> ledger_error + money option" where
  "balance_lines a bal [] = Inr bal"
| "balance_lines a bal (l # ls) =
     (if account l \<noteq> a then balance_lines a bal ls
      else case bal of
             None \<Rightarrow> balance_lines a (Some (lamount l)) ls
           | Some b \<Rightarrow>
               (case money_add b (lamount l) of
                  Inl e \<Rightarrow> Inl (AtBalance a e)
                | Inr s \<Rightarrow> balance_lines a (Some s) ls))"

fun balance_entries :: "(addr \<Rightarrow> line list) \<Rightarrow> string \<Rightarrow> money option \<Rightarrow> entry list \<Rightarrow> ledger_error + money option" where
  "balance_entries m a bal [] = Inr bal"
| "balance_entries m a bal (e # es) =
     (case balance_lines a bal (m (lines_at e)) of
        Inl x \<Rightarrow> Inl x
      | Inr b \<Rightarrow> balance_entries m a b es)"

definition balance :: "string \<Rightarrow> journal \<Rightarrow> ledger_error + money" where
  "balance a j =
     (case balance_entries (mem j) a None (jentries j) of
        Inl e \<Rightarrow> Inl e
      | Inr None \<Rightarrow> Inl (AtBalance a ErrUnknownAccount)
      | Inr (Some b) \<Rightarrow> Inr b)"

fun total_lines :: "string \<Rightarrow> money \<Rightarrow> line list \<Rightarrow> ledger_error + money" where
  "total_lines cur t [] = Inr t"
| "total_lines cur t (l # ls) =
     (if currency (lamount l) \<noteq> cur then total_lines cur t ls
      else case money_add t (lamount l) of Inl e \<Rightarrow> Inl e | Inr s \<Rightarrow> total_lines cur s ls)"

fun total_entries :: "(addr \<Rightarrow> line list) \<Rightarrow> string \<Rightarrow> money \<Rightarrow> entry list \<Rightarrow> ledger_error + money" where
  "total_entries m cur t [] = Inr t"
| "total_entries m cur t (e # es) =
     (case total_lines cur t (m (lines_at e)) of
        Inl x \<Rightarrow> Inl x
      | Inr s \<Rightarrow> total_entries m cur s es)"

definition ledger_total :: "string \<Rightarrow> journal \<Rightarrow> ledger_error + money" where
  "ledger_total cur j =
     (case money_new 0 cur of Inl e \<Rightarrow> Inl e | Inr z \<Rightarrow> total_entries (mem j) cur z (jentries j))"

text \<open>\<^verbatim>\<open>Entries\<close> copies the entry structs; the copies still point to the journal's arrays.\<close>

definition entries_copy :: "journal \<Rightarrow> entry list" where
  "entries_copy j = jentries j"

definition reversal_entry :: "entry \<Rightarrow> journal \<Rightarrow> addr \<times> journal" where
  "reversal_entry e j =
     alloc (map (\<lambda>l. \<lparr>account = account l, lamount = negate (lamount l)\<rparr>) (mem j (lines_at e))) j"

text \<open>An element write through a slice a caller holds.\<close>

definition write_line :: "addr \<Rightarrow> nat \<Rightarrow> line \<Rightarrow> journal \<Rightarrow> journal" where
  "write_line a i l j = j\<lparr>mem := (mem j)(a := (mem j a)[i := l])\<rparr>"

subsection \<open>What validation accepts\<close>

definition lsum :: "line list \<Rightarrow> int64" where
  "lsum ls = sum_list (map (\<lambda>l. amount (lamount l)) ls)"

lemma lsum_simps [simp]:
  "lsum [] = 0" "lsum (l # ls) = amount (lamount l) + lsum ls" "lsum (ls @ ks) = lsum ls + lsum ks"
  by (simp_all add: lsum_def)

definition entry_ok :: "line list \<Rightarrow> bool" where
  [inv_defs]: "entry_ok ls \<longleftrightarrow>
     2 \<le> length ls \<and> lsum ls = 0 \<and> (\<forall>l \<in> set ls. account l \<noteq> []) \<and>
     (\<exists>c. length c = 3 \<and> (\<forall>l \<in> set ls. currency (lamount l) = c))"

lemma money_add_Inr:
  "money_add m n = Inr s \<longleftrightarrow>
     length (currency m) = 3 \<and> currency n = currency m \<and>
     s = \<lparr>amount = amount m + amount n, currency = currency m\<rparr>"
  by (auto simp: money_add_def)

lemma sum_lines_Inr:
  "length (currency t) = 3 \<Longrightarrow>
   sum_lines ref i t ls = Inr s \<longleftrightarrow>
     (\<forall>l \<in> set ls. account l \<noteq> [] \<and> currency (lamount l) = currency t) \<and>
     s = \<lparr>amount = amount t + lsum ls, currency = currency t\<rparr>"
proof (induction ls arbitrary: i t)
  case Nil
  then show ?case by auto
next
  case (Cons l ls)
  then show ?case
    by (cases "money_add t (lamount l)") (auto simp: money_add_def add.assoc split: if_splits)
qed

lemma validate_None: "validate ref ls = None \<longleftrightarrow> ref \<noteq> [] \<and> entry_ok ls"
proof (cases "ref = [] \<or> length ls < 2")
  case True
  then show ?thesis by (auto simp: validate_def entry_ok_def)
next
  case False
  then have hd: "hd ls \<in> set ls" by (cases ls) auto
  define c where "c = currency (lamount (hd ls))"
  let ?z = "\<lparr>amount = 0, currency = c\<rparr>" and ?same = "\<forall>l \<in> set ls. account l \<noteq> [] \<and> currency (lamount l) = c"
  have ok: "entry_ok ls \<longleftrightarrow> length c = 3 \<and> lsum ls = 0 \<and> ?same"
    using False hd by (auto simp: entry_ok_def c_def)
  show ?thesis
  proof (cases "length c = 3")
    case True
    then have v: "validate ref ls = (case sum_lines ref 0 ?z ls of Inl e \<Rightarrow> Some e
        | Inr tot \<Rightarrow> if \<not> is_zero tot then Some (AtEntry ref ErrUnbalanced) else None)"
      using False by (simp add: validate_def money_new_def flip: c_def)
    have s: "sum_lines ref 0 ?z ls = Inr s \<longleftrightarrow> ?same \<and> s = \<lparr>amount = lsum ls, currency = c\<rparr>" for s
      using sum_lines_Inr [of ?z ref 0 ls s] True by simp
    have "validate ref ls = None \<longleftrightarrow> (\<exists>s. sum_lines ref 0 ?z ls = Inr s \<and> amount s = 0)"
      unfolding v by (cases "sum_lines ref 0 ?z ls") (simp_all add: is_zero_def)
    then show ?thesis using True False ok s by auto
  next
    case wrong: False
    then show ?thesis
      using False ok by (simp add: validate_def money_new_def flip: c_def)
  qed
qed

subsection \<open>Derived balances and the global total\<close>

lemma total_lines_sum:
  "length cur = 3 \<Longrightarrow> currency t = cur \<Longrightarrow>
   total_lines cur t ls =
     Inr \<lparr>amount = amount t + lsum (filter (\<lambda>l. currency (lamount l) = cur) ls), currency = cur\<rparr>"
  by (induction ls arbitrary: t) (simp_all add: money_add_def add.assoc)

lemma total_lines_ok:
  assumes "entry_ok ls" "length cur = 3" "currency t = cur"
  shows "total_lines cur t ls = Inr t"
proof -
  obtain c where c: "\<forall>l \<in> set ls. currency (lamount l) = c" using assms(1) by (auto simp: entry_ok_def)
  have "lsum (filter (\<lambda>l. currency (lamount l) = cur) ls) = 0"
  proof (cases "c = cur")
    case True
    then have "filter (\<lambda>l. currency (lamount l) = cur) ls = ls" using c by (simp add: filter_id_conv)
    then show ?thesis using assms(1) by (simp add: entry_ok_def)
  next
    case False
    then have "filter (\<lambda>l. currency (lamount l) = cur) ls = []" using c by (simp add: filter_empty_conv)
    then show ?thesis by simp
  qed
  then show ?thesis using total_lines_sum [OF assms(2,3)] assms(3) by simp
qed

lemma total_entries_ok:
  "length cur = 3 \<Longrightarrow> currency t = cur \<Longrightarrow> \<forall>e \<in> set es. entry_ok (m (lines_at e)) \<Longrightarrow>
   total_entries m cur t es = Inr t"
  by (induction es) (simp_all add: total_lines_ok)

definition all_lines :: "journal \<Rightarrow> line list" where
  "all_lines j = concat (map (\<lambda>e. mem j (lines_at e)) (jentries j))"

definition lines_of :: "string \<Rightarrow> journal \<Rightarrow> line list" where
  "lines_of a j = filter (\<lambda>l. account l = a) (all_lines j)"

lemma balance_lines_append:
  "balance_lines a bal (ls @ ks) =
     (case balance_lines a bal ls of Inl e \<Rightarrow> Inl e | Inr b \<Rightarrow> balance_lines a b ks)"
  by (induction ls arbitrary: bal) (auto split: option.splits sum.splits)

lemma balance_entries_concat:
  "balance_entries m a bal es = balance_lines a bal (concat (map (\<lambda>e. m (lines_at e)) es))"
  by (induction es arbitrary: bal) (auto simp: balance_lines_append split: sum.splits)

lemma balance_lines_filter:
  "balance_lines a bal ls = balance_lines a bal (filter (\<lambda>l. account l = a) ls)"
  by (induction ls arbitrary: bal) (auto split: option.splits sum.splits)

lemma balance_lines_Some:
  "\<forall>l \<in> set ls. account l = a \<and> length (currency (lamount l)) = 3 \<Longrightarrow> length (currency b) = 3 \<Longrightarrow>
   balance_lines a (Some b) ls =
     (if \<forall>l \<in> set ls. currency (lamount l) = currency b
      then Inr (Some \<lparr>amount = amount b + lsum ls, currency = currency b\<rparr>)
      else Inl (AtBalance a ErrCurrencyMismatch))"
  by (induction ls arbitrary: b) (auto simp: money_add_def add.assoc)

definition journal_ok :: "journal \<Rightarrow> bool" where
  [inv_defs]: "journal_ok j \<longleftrightarrow> (\<forall>e \<in> set (jentries j). entry_ok (mem j (lines_at e)))"

lemma journal_ok_currency: "journal_ok j \<Longrightarrow> l \<in> set (all_lines j) \<Longrightarrow> length (currency (lamount l)) = 3"
  by (fastforce simp: journal_ok_def entry_ok_def all_lines_def)

lemma balance_derived:
  assumes "journal_ok j"
  shows "balance a j =
    (case lines_of a j of
       [] \<Rightarrow> Inl (AtBalance a ErrUnknownAccount)
     | l # ls \<Rightarrow>
         if \<forall>k \<in> set ls. currency (lamount k) = currency (lamount l)
         then Inr \<lparr>amount = lsum (l # ls), currency = currency (lamount l)\<rparr>
         else Inl (AtBalance a ErrCurrencyMismatch))"
proof -
  have b: "balance_entries (mem j) a None (jentries j) = balance_lines a None (lines_of a j)"
    using balance_lines_filter by (simp add: balance_entries_concat lines_of_def all_lines_def)
  have l3: "\<forall>l \<in> set (lines_of a j). account l = a \<and> length (currency (lamount l)) = 3"
    using journal_ok_currency [OF assms] by (auto simp: lines_of_def)
  show ?thesis
  proof (cases "lines_of a j")
    case Nil
    then show ?thesis using b by (simp add: balance_def)
  next
    case (Cons l ls)
    then show ?thesis
      using b l3 balance_lines_Some [of ls a "lamount l"] by (simp add: balance_def)
  qed
qed

subsection \<open>Posting\<close>

lemma alloc_simps [simp]:
  "fst (alloc ls j) = brk j" "mem (snd (alloc ls j)) = (mem j)(brk j := ls)"
  "brk (snd (alloc ls j)) = Suc (brk j)" "jentries (snd (alloc ls j)) = jentries j"
  "next_id (snd (alloc ls j)) = next_id j"
  by (simp_all add: alloc_def)

lemma post_cases:
  obtains (error) e where "validate ref (mem j a) = Some e" "post now ref a j = (Inl e, j)"
  | (posted) "validate ref (mem j a) = None"
      "post now ref a j =
        (Inr \<lparr>entry_id = next_id j + 1, posted_at = now, reference = ref, lines_at = Suc (brk j)\<rparr>,
         j\<lparr>mem := (mem j)(brk j := mem j a, Suc (brk j) := mem j a), brk := Suc (Suc (brk j)),
           next_id := next_id j + 1,
           jentries := jentries j @ [\<lparr>entry_id = next_id j + 1, posted_at = now, reference = ref,
                                      lines_at = brk j\<rparr>]\<rparr>)"
  by (cases "validate ref (mem j a)") (auto simp: post_def alloc_def Let_def)

text \<open>
  \<^verbatim>\<open>Post\<close> validates the caller's slice before it takes the mutex and copies the slice after, so a
  call is two steps: the check, and \<open>post_locked\<close>.  \<open>post\<close> is the two run without a step between.
\<close>

definition post_locked :: "instant \<Rightarrow> string \<Rightarrow> addr \<Rightarrow> journal \<Rightarrow> entry \<times> journal" where
  "post_locked now ref a j =
     (let n = next_id j + 1;
          (own, j1) = alloc (mem j a) (j\<lparr>next_id := n\<rparr>);
          e = \<lparr>entry_id = n, posted_at = now, reference = ref, lines_at = own\<rparr>;
          j2 = j1\<lparr>jentries := jentries j1 @ [e]\<rparr>;
          (copy, j3) = alloc (mem j2 own) j2
      in (e\<lparr>lines_at := copy\<rparr>, j3))"

lemma post_split:
  "post now ref a j = (case validate ref (mem j a) of
      Some e \<Rightarrow> (Inl e, j)
    | None \<Rightarrow> (case post_locked now ref a j of (e, j') \<Rightarrow> (Inr e, j')))"
  by (simp add: post_def post_locked_def Let_def alloc_def split: option.split)

lemma post_locked_eq:
  "post_locked now ref a j =
     (\<lparr>entry_id = next_id j + 1, posted_at = now, reference = ref, lines_at = Suc (brk j)\<rparr>,
      j\<lparr>mem := (mem j)(brk j := mem j a, Suc (brk j) := mem j a), brk := Suc (Suc (brk j)),
        next_id := next_id j + 1,
        jentries := jentries j @ [\<lparr>entry_id = next_id j + 1, posted_at = now, reference = ref,
                                   lines_at = brk j\<rparr>]\<rparr>)"
  by (simp add: post_locked_def alloc_def Let_def)

subsection \<open>The clients\<close>

text \<open>
  Any number of clients of one journal.  \<open>held\<close> are the line arrays they made or got back from
  \<^verbatim>\<open>Post\<close> and \<^verbatim>\<open>ReversalEntry\<close>, \<open>shared\<close> the journal's own arrays that \<^verbatim>\<open>Entries\<close> has handed out,
  and they may write through all of these at any moment.  \<open>in_flight\<close> are the calls of \<^verbatim>\<open>Post\<close>
  between their check and the mutex.  The rest is history: \<open>overwrites\<close> logs the writes that hit an
  array of the journal, the flag of a call in flight says that its slice was written to since the
  check, and \<open>stale\<close> are the arrays of the entries that such calls have posted.  \<^verbatim>\<open>PostBalance\<close> is
  \<open>make\<close>, \<open>check\<close> and \<open>append\<close>; \<^verbatim>\<open>Balance\<close> and \<^verbatim>\<open>Total\<close> only read.
\<close>

record ledger_client =
  jrn :: journal
  held :: "addr set"
  shared :: "addr set"
  in_flight :: "(string \<times> addr \<times> bool) list"
  overwrites :: "addr list"
  stale :: "addr set"

definition idle_ledger :: ledger_client where
  "idle_ledger = \<lparr>jrn = new_journal, held = {}, shared = {}, in_flight = [], overwrites = [], stale = {}\<rparr>"

definition owned :: "journal \<Rightarrow> addr set" where
  "owned j = lines_at ` set (jentries j)"

definition store_line :: "addr \<Rightarrow> nat \<Rightarrow> line \<Rightarrow> ledger_client \<Rightarrow> ledger_client" where
  "store_line a i l s = s\<lparr>jrn := write_line a i l (jrn s),
     overwrites := overwrites s @ (if a \<in> owned (jrn s) then [a] else []),
     in_flight := map (\<lambda>(ref, b, touched). (ref, b, touched \<or> b = a)) (in_flight s)\<rparr>"

inductive ledger_step :: "ledger_client \<Rightarrow> ledger_client \<Rightarrow> bool" where
  make: "alloc ls (jrn s) = (a, j) \<Longrightarrow> ledger_step s (s\<lparr>jrn := j, held := insert a (held s)\<rparr>)"
| store: "a \<in> held s \<union> shared s \<Longrightarrow> ledger_step s (store_line a i l s)"
| entries: "ledger_step s (s\<lparr>shared := shared s \<union> lines_at ` set (entries_copy (jrn s))\<rparr>)"
| reverse: "reversal_entry e (jrn s) = (a, j) \<Longrightarrow> ledger_step s (s\<lparr>jrn := j, held := insert a (held s)\<rparr>)"
| check: "a \<in> held s \<union> shared s \<Longrightarrow> validate ref (mem (jrn s) a) = None \<Longrightarrow>
    ledger_step s (s\<lparr>in_flight := in_flight s @ [(ref, a, False)]\<rparr>)"
| check_error: "a \<in> held s \<union> shared s \<Longrightarrow> validate ref (mem (jrn s) a) = Some x \<Longrightarrow> ledger_step s s"
| append: "i < length (in_flight s) \<Longrightarrow> in_flight s ! i = (ref, a, touched) \<Longrightarrow>
    post_locked now ref a (jrn s) = (e, j) \<Longrightarrow>
    ledger_step s (s\<lparr>jrn := j, held := insert (lines_at e) (held s),
      in_flight := take i (in_flight s) @ drop (Suc i) (in_flight s),
      stale := (if touched then {brk (jrn s)} else {}) \<union> stale s\<rparr>)"

text \<open>The arrays whose contents are not what a check of \<^verbatim>\<open>Post\<close> has seen.\<close>

definition tampered :: "ledger_client \<Rightarrow> addr set" where
  "tampered s = set (overwrites s) \<union> stale s"

definition ledger_inv :: "ledger_client \<Rightarrow> bool" where
  [inv_defs]: "ledger_inv s \<longleftrightarrow>
     owned (jrn s) \<inter> held s = {} \<and> shared s \<subseteq> owned (jrn s) \<and> set (overwrites s) \<subseteq> shared s \<and>
     (\<forall>a \<in> owned (jrn s) \<union> held s. a < brk (jrn s)) \<and>
     (\<forall>(ref, a, touched) \<in> set (in_flight s).
        a < brk (jrn s) \<and> (\<not> touched \<longrightarrow> validate ref (mem (jrn s) a) = None)) \<and>
     (\<forall>e \<in> set (jentries (jrn s)). lines_at e \<notin> tampered s \<longrightarrow> entry_ok (mem (jrn s) (lines_at e))) \<and>
     map entry_id (jentries (jrn s)) = map (\<lambda>i. of_nat (Suc i)) [0..<length (jentries (jrn s))] \<and>
     next_id (jrn s) = of_nat (length (jentries (jrn s)))"

text \<open>The entries posted so far are kept, and their lines but for what the log shows rewritten.\<close>

definition keeps_history :: "ledger_client \<Rightarrow> ledger_client \<Rightarrow> bool" where
  "keeps_history s t \<longleftrightarrow> (\<exists>es ws. jentries (jrn t) = jentries (jrn s) @ es \<and> overwrites t = overwrites s @ ws \<and>
     (\<forall>a \<in> owned (jrn s). a \<notin> set ws \<longrightarrow> mem (jrn t) a = mem (jrn s) a))"

lemma keeps_history_refl: "keeps_history s s"
  by (simp add: keeps_history_def)

lemma keeps_history_trans: "keeps_history s t \<Longrightarrow> keeps_history t u \<Longrightarrow> keeps_history s u"
  unfolding keeps_history_def owned_def by (elim exE conjE) (auto simp: image_Un)

lemma ledger_inv_idle: "ledger_inv idle_ledger"
  by (simp add: ledger_inv_def idle_ledger_def new_journal_def owned_def)

lemma ledger_inv_alloc:
  assumes "ledger_inv s" "alloc ls (jrn s) = (a, j)"
  shows "ledger_inv (s\<lparr>jrn := j, held := insert a (held s)\<rparr>) \<and>
    keeps_history s (s\<lparr>jrn := j, held := insert a (held s)\<rparr>)"
proof -
  have j: "a = brk (jrn s)" "j = (jrn s)\<lparr>mem := (mem (jrn s))(brk (jrn s) := ls), brk := Suc (brk (jrn s))\<rparr>"
    using assms(2) by (auto simp: alloc_def)
  have low: "\<forall>x \<in> owned (jrn s) \<union> held s. x < brk (jrn s)" using assms(1) by (simp add: ledger_inv_def)
  then have "brk (jrn s) \<notin> owned (jrn s)" "\<forall>e \<in> set (jentries (jrn s)). lines_at e \<noteq> brk (jrn s)"
    by (metis UnI1 image_eqI less_irrefl owned_def)+
  then show ?thesis
    using assms(1) low unfolding j
    by (auto simp: ledger_inv_def keeps_history_def tampered_def owned_def less_Suc_eq)
qed

lemma ledger_inv_store:
  assumes "ledger_inv s" "a \<in> held s \<union> shared s"
  shows "ledger_inv (store_line a i l s) \<and> keeps_history s (store_line a i l s)"
proof -
  have "a \<in> owned (jrn s) \<Longrightarrow> a \<in> shared s" using assms by (auto simp: ledger_inv_def)
  then show ?thesis
    using assms(1)
    by (auto simp: ledger_inv_def keeps_history_def tampered_def store_line_def write_line_def owned_def)
qed

lemma ledger_inv_append:
  assumes "ledger_inv s" "i < length (in_flight s)" "in_flight s ! i = (ref, a, touched)"
    and "post_locked now ref a (jrn s) = (e, j)"
  shows "let t = s\<lparr>jrn := j, held := insert (lines_at e) (held s),
      in_flight := take i (in_flight s) @ drop (Suc i) (in_flight s),
      stale := (if touched then {brk (jrn s)} else {}) \<union> stale s\<rparr> in ledger_inv t \<and> keeps_history s t"
proof -
  let ?j = "jrn s" and ?fl = "take i (in_flight s) @ drop (Suc i) (in_flight s)"
  have fl: "(ref, a, touched) \<in> set (in_flight s)" "set ?fl \<subseteq> set (in_flight s)"
    using assms(2,3) by (metis nth_mem) (auto dest: in_set_takeD in_set_dropD)
  have e: "lines_at e = Suc (brk ?j)" and j: "j = snd (post_locked now ref a ?j)"
    using assms(4) by (auto simp: post_locked_eq)
  have ok: "\<not> touched \<Longrightarrow> entry_ok (mem ?j a)"
    using assms(1) fl(1) by (auto simp: ledger_inv_def validate_None)
  have low: "\<forall>x \<in> owned ?j \<union> held s. x < brk ?j" "\<forall>(r, b, c) \<in> set ?fl. b < brk ?j \<and> (\<not> c \<longrightarrow> validate r (mem ?j b) = None)"
    using assms(1) fl(2) by (auto simp: ledger_inv_def)
  have old: "lines_at x < brk ?j" if "x \<in> set (jentries ?j)" for x
    using low(1) that by (simp add: owned_def)
  let ?t = "s\<lparr>jrn := j, held := insert (lines_at e) (held s), in_flight := ?fl,
      stale := (if touched then {brk ?j} else {}) \<union> stale s\<rparr>"
  have m: "mem j x = (if x = brk ?j \<or> x = Suc (brk ?j) then mem ?j a else mem ?j x)" for x
    unfolding j by (simp add: post_locked_eq)
  have own: "owned j = insert (brk ?j) (owned ?j)" and b: "brk j = Suc (Suc (brk ?j))"
    and es: "jentries j = jentries ?j @ [\<lparr>entry_id = next_id ?j + 1, posted_at = now, reference = ref, lines_at = brk ?j\<rparr>]"
      "next_id j = next_id ?j + 1"
    unfolding j by (auto simp: post_locked_eq owned_def)
  have h: "owned ?j \<inter> held s = {}" "shared s \<subseteq> owned ?j" "set (overwrites s) \<subseteq> shared s"
    using assms(1) by (simp_all add: ledger_inv_def)
  have fresh: "Suc (brk ?j) \<notin> owned ?j" "brk ?j \<notin> held s"
    using low(1) by (metis UnI1 UnI2 less_irrefl not_less_eq less_SucI)+
  have "entry_ok (mem j (lines_at x))" if "x \<in> set (jentries j)" "lines_at x \<notin> tampered ?t" for x
  proof (cases "x \<in> set (jentries ?j)")
    case True
    then show ?thesis using assms(1) old [OF True] that(2) m by (auto simp: ledger_inv_def tampered_def)
  next
    case False
    then have "lines_at x = brk ?j" using that(1) es(1) by auto
    then show ?thesis using that(2) ok m by (cases touched) (simp_all add: tampered_def)
  qed
  moreover have "\<forall>(r, b, c) \<in> set ?fl. b < brk j \<and> (\<not> c \<longrightarrow> validate r (mem j b) = None)"
    using low(2) b m by fastforce
  moreover have "\<forall>x \<in> owned j \<union> insert (lines_at e) (held s). x < brk j"
    using low(1) by (auto simp: own b e less_Suc_eq)
  moreover have "map entry_id (jentries j) = map (\<lambda>i. of_nat (Suc i)) [0..<length (jentries j)]"
    "next_id j = of_nat (length (jentries j))"
    using assms(1) by (auto simp: es ledger_inv_def)
  moreover have "owned j \<inter> insert (lines_at e) (held s) = {}" "shared s \<subseteq> owned j"
    using h fresh by (auto simp: own e)
  ultimately have "ledger_inv ?t" using h(3) unfolding ledger_inv_def by simp
  moreover have "mem j x = mem ?j x" if "x \<in> owned ?j" for x
    using low(1) that m by (metis UnI1 less_irrefl not_less_eq less_SucI)
  then have "keeps_history s ?t" using es(1) by (simp add: keeps_history_def)
  ultimately show ?thesis by (simp add: Let_def)
qed

lemma ledger_step_inv: "ledger_step s t \<Longrightarrow> ledger_inv s \<Longrightarrow> ledger_inv t \<and> keeps_history s t"
proof (induction rule: ledger_step.induct)
  case (make ls s a j)
  then show ?case using ledger_inv_alloc by blast
next
  case (store a s i l)
  then show ?case using ledger_inv_store by blast
next
  case (entries s)
  then show ?case by (auto simp: ledger_inv_def keeps_history_def tampered_def entries_copy_def owned_def)
next
  case (reverse e s a j)
  then show ?case using ledger_inv_alloc by (simp add: reversal_entry_def)
next
  case (check a s ref)
  then show ?case by (auto simp: ledger_inv_def keeps_history_def tampered_def)
next
  case (check_error a s ref x)
  then show ?case by (simp add: keeps_history_refl)
next
  case (append i s ref a touched now e j)
  then show ?case using ledger_inv_append unfolding Let_def by blast
qed

lemma ledger_run_inv:
  "ledger_step\<^sup>*\<^sup>* s t \<Longrightarrow> ledger_inv s \<Longrightarrow> ledger_inv t \<and> keeps_history s t"
proof (induction rule: rtranclp_induct)
  case base
  then show ?case by (simp add: keeps_history_refl)
next
  case (step t u)
  then show ?case using ledger_step_inv keeps_history_trans by blast
qed

subsection \<open>Reversal and exactness\<close>

lemma lsum_negate:
  "lsum (map (\<lambda>l. \<lparr>account = account l, lamount = negate (lamount l)\<rparr>) ls) = - lsum ls"
  by (induction ls) (simp_all add: negate_def)

lemma currency_negate [simp]: "currency (negate m) = currency m"
  by (simp add: negate_def)

lemma entry_ok_reversal:
  "entry_ok (map (\<lambda>l. \<lparr>account = account l, lamount = negate (lamount l)\<rparr>) ls) \<longleftrightarrow> entry_ok ls"
  by (auto simp: entry_ok_def lsum_negate)

lemma filter_account_reversal:
  "filter (\<lambda>l. account l = a) (map (\<lambda>l. \<lparr>account = account l, lamount = negate (lamount l)\<rparr>) ls)
     = map (\<lambda>l. \<lparr>account = account l, lamount = negate (lamount l)\<rparr>) (filter (\<lambda>l. account l = a) ls)"
  by (induction ls) simp_all

lemma lsum_sint: "lsum ls = word_of_int (\<Sum>l\<leftarrow>ls. sint (amount (lamount l)))"
  by (induction ls) simp_all

lemma all_lines_cong:
  "(\<And>e. e \<in> set (jentries j) \<Longrightarrow> mem j' (lines_at e) = mem j (lines_at e)) \<Longrightarrow> jentries j' = jentries j @ es \<Longrightarrow>
   all_lines j' = all_lines j @ concat (map (\<lambda>e. mem j' (lines_at e)) es)"
  by (simp add: all_lines_def cong: map_cong)

lemma post_lines:
  assumes "owned j \<subseteq> {..<brk j}" "post now ref a j = (Inr e, j')"
  shows "all_lines j' = all_lines j @ mem j a"
proof (cases rule: post_cases [of ref j a now])
  case (error x)
  then show ?thesis using assms(2) by simp
next
  case posted
  then have "mem j' x = mem j x" if "x < brk j" for x using assms(2) that by auto
  then have "all_lines j' = all_lines j @ concat (map (\<lambda>e. mem j' (lines_at e))
      [\<lparr>entry_id = next_id j + 1, posted_at = now, reference = ref, lines_at = brk j\<rparr>])"
    using assms posted(2) by (intro all_lines_cong) (auto simp: owned_def)
  then show ?thesis using assms(2) posted(2) by auto
qed

text \<open>The total of a currency is the sum of its lines; entries that pass validation add nothing.\<close>

lemma total_entries_sum:
  "length cur = 3 \<Longrightarrow> currency t = cur \<Longrightarrow> total_entries m cur t es = Inr \<lparr>amount = amount t +
     lsum (filter (\<lambda>l. currency (lamount l) = cur) (concat (map (\<lambda>e. m (lines_at e)) es))), currency = cur\<rparr>"
  by (induction es arbitrary: t) (simp_all add: total_lines_sum add.assoc)

lemma entry_ok_currency: "entry_ok ls \<Longrightarrow> lsum (filter (\<lambda>l. currency (lamount l) = cur) ls) = 0"
  by (cases "\<forall>l \<in> set ls. currency (lamount l) = cur")
     (auto simp: entry_ok_def filter_id_conv filter_empty_conv)

lemma lsum_bad_entries:
  "(\<And>e. e \<in> set es \<Longrightarrow> \<not> P e \<Longrightarrow> entry_ok (m (lines_at e))) \<Longrightarrow>
   lsum (filter (\<lambda>l. currency (lamount l) = cur) (concat (map (\<lambda>e. m (lines_at e)) es))) =
   lsum (filter (\<lambda>l. currency (lamount l) = cur) (concat (map (\<lambda>e. m (lines_at e)) (filter P es))))"
  by (induction es) (simp_all add: entry_ok_currency)

definition demo_lines :: "line list" where
  "demo_lines = [\<lparr>account = ''cash'', lamount = \<lparr>amount = 5, currency = ''USD''\<rparr>\<rparr>,
                 \<lparr>account = ''rev'', lamount = \<lparr>amount = - 5, currency = ''USD''\<rparr>\<rparr>]"

definition demo_journal :: journal where
  "demo_journal = snd (post 7 ''p1'' 0 (snd (alloc demo_lines new_journal)))"

lemma entry_ok_demo: "entry_ok demo_lines"
  by (simp add: entry_ok_def demo_lines_def)

definition demo_client :: ledger_client where
  "demo_client = \<lparr>jrn = demo_journal, held = {0, 2}, shared = {}, in_flight = [], overwrites = [], stale = {}\<rparr>"

lemma demo_run: "ledger_step\<^sup>*\<^sup>* idle_ledger demo_client"
proof -
  let ?j = "snd (alloc demo_lines new_journal)"
  have j: "brk ?j = 1" "mem ?j 0 = demo_lines" by (simp_all add: new_journal_def)
  have ok: "validate ''p1'' demo_lines = None" by (simp add: validate_None entry_ok_demo)
  let ?s = "idle_ledger\<lparr>jrn := ?j, held := {0}\<rparr>"
  let ?t = "?s\<lparr>in_flight := [(''p1'', 0, False)]\<rparr>"
  have 1: "ledger_step idle_ledger ?s"
    using ledger_step.make [of demo_lines idle_ledger 0 ?j] by (simp add: idle_ledger_def alloc_def new_journal_def)
  have 2: "ledger_step ?s ?t"
    using ledger_step.check [of 0 ?s "''p1''"] j(2) ok by (simp add: idle_ledger_def)
  have "post 7 ''p1'' 0 ?j = (case post_locked 7 ''p1'' 0 ?j of (e, j') \<Rightarrow> (Inr e, j'))"
    unfolding post_split j(2) ok by simp
  then have p: "snd (post_locked 7 ''p1'' 0 ?j) = demo_journal" by (simp add: demo_journal_def split_beta)
  have "lines_at (fst (post_locked 7 ''p1'' 0 ?j)) = 2" using j(1) by (simp add: post_locked_eq)
  then have 3: "ledger_step ?t demo_client"
    using ledger_step.append [of 0 ?t "''p1''" 0 False 7 "fst (post_locked 7 ''p1'' 0 ?j)" demo_journal] p
    by (simp add: idle_ledger_def demo_client_def prod_eq_iff insert_commute)
  show ?thesis using 1 2 3 by (meson converse_rtranclp_into_rtranclp r_into_rtranclp)
qed

text \<open>A client reads the entries and sets a posted line to zero through them.\<close>

definition leak_client :: ledger_client where
  "leak_client = store_line 1 1 \<lparr>account = ''rev'', lamount = \<lparr>amount = 0, currency = ''USD''\<rparr>\<rparr>
     (demo_client\<lparr>shared := {1}\<rparr>)"

lemma demo_entries: "map lines_at (jentries demo_journal) = [1]"
  by code_simp

lemma leak_run: "ledger_step\<^sup>*\<^sup>* demo_client leak_client"
proof -
  have "lines_at ` set (jentries demo_journal) = {1}"
    using demo_entries by (metis list.set_map list.simps(15) set_empty)
  then have "ledger_step demo_client (demo_client\<lparr>shared := {1}\<rparr>)"
    using ledger_step.entries [of demo_client] by (simp add: entries_copy_def demo_client_def)
  moreover have "ledger_step (demo_client\<lparr>shared := {1}\<rparr>) leak_client"
    unfolding leak_client_def by (rule ledger_step.store) simp
  ultimately show ?thesis by (meson converse_rtranclp_into_rtranclp r_into_rtranclp)
qed

lemma leak_overwrites: "overwrites leak_client = [1]" "stale leak_client = {}"
  using arg_cong [OF demo_entries, of set]
  by (simp_all add: leak_client_def store_line_def demo_client_def owned_def)

lemma post_fresh:
  "entry_ok ls \<Longrightarrow> ref \<noteq> [] \<Longrightarrow> \<exists>e j'. post now ref (brk j) (snd (alloc ls j)) = (Inr e, j')"
  using validate_None [of ref ls]
  by (cases rule: post_cases [of ref "snd (alloc ls j)" "brk j" now]) auto

subsection \<open>Properties\<close>

text \<open>\<^verbatim>\<open>Post\<close> succeeds exactly when the reference is not empty and the entry has at least two
  lines with named accounts in one three-byte currency that sum to zero; it then appends one entry
  with those lines and the next id, and on any error it leaves the journal as it was.\<close>

theorem post_decides:
  "(if ref \<noteq> [] \<and> entry_ok (mem j a)
    then \<exists>e j'. post now ref a j = (Inr e, j') \<and> entry_id e = next_id j + 1 \<and>
           mem j' (lines_at e) = mem j a \<and>
           (\<exists>own. jentries j' = jentries j @ [e\<lparr>lines_at := own\<rparr>] \<and> own \<noteq> lines_at e \<and>
                  mem j' own = mem j a)
    else \<exists>e. post now ref a j = (Inl e, j))"
  using validate_None [of ref "mem j a"]
  by (cases rule: post_cases [of ref j a now]) auto

text \<open>C1: whatever clients do, with calls of \<^verbatim>\<open>Post\<close> overlapping and every slice they made, got
  back or read from \<^verbatim>\<open>Entries\<close> written to at any moment, the journal only appends entries, and the
  lines of an earlier entry change only by a write through an array that \<^verbatim>\<open>Entries\<close> has handed out:
  writes to any other slice never reach a posted entry.\<close>

theorem ledger_immutable:
  assumes "ledger_step\<^sup>*\<^sup>* idle_ledger s" "ledger_step\<^sup>*\<^sup>* s t"
  shows "\<exists>es ws. jentries (jrn t) = jentries (jrn s) @ es \<and> overwrites t = overwrites s @ ws \<and> set ws \<subseteq> shared t \<and>
    (\<forall>e \<in> set (jentries (jrn s)). lines_at e \<notin> set ws \<longrightarrow> mem (jrn t) (lines_at e) = mem (jrn s) (lines_at e))"
proof -
  have "ledger_inv s" using ledger_run_inv [OF assms(1) ledger_inv_idle] by simp
  from ledger_run_inv [OF assms(2) this] have "ledger_inv t" "keeps_history s t" by simp_all
  then show ?thesis unfolding keeps_history_def ledger_inv_def owned_def by fastforce
qed

theorem ledger_immutable_witness:
  "\<exists>ws. overwrites leak_client = overwrites demo_client @ ws \<and> set ws \<subseteq> shared leak_client \<and> ws = [1]"
proof -
  obtain es ws where "overwrites leak_client = overwrites demo_client @ ws" "set ws \<subseteq> shared leak_client"
    using ledger_immutable [OF demo_run leak_run] by blast
  then show ?thesis using leak_overwrites by (simp add: demo_client_def)
qed

text \<open>C2: in every state that clients reach, overlapping calls of \<^verbatim>\<open>Post\<close> and writes through
  \<^verbatim>\<open>Entries\<close> included, \<^verbatim>\<open>Total\<close> in a valid currency is what the tampered entries sum to: those whose
  posted lines were rewritten through \<^verbatim>\<open>Entries\<close>, or whose slice was written to between the check of
  \<^verbatim>\<open>Post\<close> and its copy.  Without such a write it is zero.  The ids of the entries are 1, 2, 3 and so
  on in order of posting in any case.\<close>

theorem ledger_balances:
  assumes "ledger_step\<^sup>*\<^sup>* idle_ledger s" "length cur = 3"
  shows "ledger_total cur (jrn s) = Inr \<lparr>amount = lsum (filter (\<lambda>l. currency (lamount l) = cur)
      (concat (map (\<lambda>e. mem (jrn s) (lines_at e)) (filter (\<lambda>e. lines_at e \<in> tampered s) (jentries (jrn s)))))),
      currency = cur\<rparr> \<and>
    (tampered s = {} \<longrightarrow> ledger_total cur (jrn s) = Inr \<lparr>amount = 0, currency = cur\<rparr>) \<and>
    map entry_id (jentries (jrn s)) = map (\<lambda>i. of_nat (Suc i)) [0..<length (jentries (jrn s))]"
proof -
  let ?m = "mem (jrn s)" and ?bad = "\<lambda>e. lines_at e \<in> tampered s"
  have inv: "ledger_inv s" using ledger_run_inv [OF assms(1) ledger_inv_idle] by simp
  then have ok: "e \<in> set (jentries (jrn s)) \<Longrightarrow> \<not> ?bad e \<Longrightarrow> entry_ok (?m (lines_at e))" for e
    by (simp add: ledger_inv_def)
  have "lsum (filter (\<lambda>l. currency (lamount l) = cur) (concat (map (\<lambda>e. ?m (lines_at e)) (jentries (jrn s))))) =
      lsum (filter (\<lambda>l. currency (lamount l) = cur) (concat (map (\<lambda>e. ?m (lines_at e)) (filter ?bad (jentries (jrn s))))))"
    by (rule lsum_bad_entries) (rule ok)
  then have "ledger_total cur (jrn s) = Inr \<lparr>amount = lsum (filter (\<lambda>l. currency (lamount l) = cur)
      (concat (map (\<lambda>e. ?m (lines_at e)) (filter ?bad (jentries (jrn s)))))), currency = cur\<rparr>"
    using assms(2) by (simp add: ledger_total_def money_new_def total_entries_sum)
  then show ?thesis using inv by (simp add: ledger_inv_def)
qed

theorem ledger_balances_witness:
  "ledger_total ''USD'' demo_journal = Inr \<lparr>amount = 0, currency = ''USD''\<rparr>"
  using ledger_balances [OF demo_run, of "''USD''"] by (simp add: demo_client_def tampered_def)

text \<open>\<^verbatim>\<open>Balance\<close> of a reachable journal with no tampered entry is derived from the lines alone: an account without
  lines is unknown, an account whose lines share a currency has their sum, and one that mixes
  currencies is reported as a mismatch rather than summed.\<close>

theorem ledger_balance:
  assumes "ledger_step\<^sup>*\<^sup>* idle_ledger s" "tampered s = {}"
  shows "balance a (jrn s) =
    (case lines_of a (jrn s) of
       [] \<Rightarrow> Inl (AtBalance a ErrUnknownAccount)
     | l # ls \<Rightarrow>
         if \<forall>k \<in> set ls. currency (lamount k) = currency (lamount l)
         then Inr \<lparr>amount = lsum (l # ls), currency = currency (lamount l)\<rparr>
         else Inl (AtBalance a ErrCurrencyMismatch))"
  using ledger_run_inv [OF assms(1) ledger_inv_idle] assms(2)
  by (intro balance_derived) (simp add: ledger_inv_def journal_ok_def)

theorem ledger_balance_witness:
  "balance ''cash'' demo_journal = Inr \<lparr>amount = 5, currency = ''USD''\<rparr>"
proof -
  have "mem (snd (alloc demo_lines new_journal)) 0 = demo_lines" by (simp add: new_journal_def)
  then have "all_lines demo_journal = demo_lines"
    using validate_None [of "''p1''" demo_lines] entry_ok_demo
    by (cases rule: post_cases [of "''p1''" "snd (alloc demo_lines new_journal)" 0 7])
      (simp_all add: demo_journal_def all_lines_def new_journal_def)
  then have l: "lines_of ''cash'' demo_journal = [hd demo_lines]"
    by (simp add: lines_of_def demo_lines_def)
  have t: "jrn demo_client = demo_journal" "tampered demo_client = {}" by (simp_all add: demo_client_def tampered_def)
  show ?thesis using ledger_balance [OF demo_run t(2), of "''cash''"] unfolding t l by (simp add: demo_lines_def)
qed

text \<open>C5: posting the \<^verbatim>\<open>ReversalEntry\<close> of a posted entry takes exactly that entry's amounts back
  out of every account.  The post succeeds exactly when the reference is not empty and the entry's
  lines still pass the checks, which they do unless they were tampered with (C2); when it fails, the
  journal stays as it is.\<close>

theorem reversal_undoes:
  assumes "ledger_step\<^sup>*\<^sup>* idle_ledger s" "e \<in> set (jentries (jrn s))"
    and "reversal_entry e (jrn s) = (a, j1)" "post now ref a j1 = (r, j2)"
  shows "(\<not> isl r \<longleftrightarrow> ref \<noteq> [] \<and> entry_ok (mem (jrn s) (lines_at e))) \<and>
    (lines_at e \<notin> tampered s \<longrightarrow> entry_ok (mem (jrn s) (lines_at e))) \<and>
    lsum (lines_of acct j2) = lsum (lines_of acct (jrn s)) -
      (if isl r then 0 else lsum (filter (\<lambda>l. account l = acct) (mem (jrn s) (lines_at e))))"
proof -
  let ?j = "jrn s" and ?rev = "map (\<lambda>l. \<lparr>account = account l, lamount = negate (lamount l)\<rparr>) (mem (jrn s) (lines_at e))"
  have inv: "ledger_inv s" using ledger_run_inv [OF assms(1) ledger_inv_idle] by simp
  then have clean: "lines_at e \<notin> tampered s \<longrightarrow> entry_ok (mem ?j (lines_at e))"
    using assms(2) by (simp add: ledger_inv_def)
  have low: "owned ?j \<subseteq> {..<brk ?j}" using inv by (auto simp: ledger_inv_def)
  have j1: "a = brk ?j" "j1 = snd (alloc ?rev ?j)" using assms(3) by (auto simp: reversal_entry_def alloc_def)
  have m: "mem j1 a = ?rev" and low1: "owned j1 \<subseteq> {..<brk j1}"
    using low unfolding j1 by (auto simp: owned_def less_Suc_eq)
  have l1: "all_lines j1 = all_lines ?j"
    using all_lines_cong [of ?j j1 "[]"] low unfolding j1 by (force simp: owned_def)
  have ok: "\<not> isl r \<longleftrightarrow> ref \<noteq> [] \<and> entry_ok (mem ?j (lines_at e))"
    using post_decides [of ref j1 a now] assms(4) m by (auto simp: entry_ok_reversal split: if_splits)
  have "lsum (lines_of acct j2) = lsum (lines_of acct ?j) -
      (if isl r then 0 else lsum (filter (\<lambda>l. account l = acct) (mem ?j (lines_at e))))"
  proof (cases r)
    case (Inl x)
    then have "j2 = j1" using assms(4) by (cases rule: post_cases [of ref j1 a now]) auto
    then show ?thesis using Inl l1 by (simp add: lines_of_def)
  next
    case (Inr e')
    then have "all_lines j2 = all_lines ?j @ ?rev" using post_lines [OF low1, of now ref a e' j2] assms(4) m l1 by simp
    then show ?thesis using Inr by (simp add: lines_of_def filter_account_reversal lsum_negate)
  qed
  with ok clean show ?thesis by simp
qed

theorem reversal_undoes_witness:
  "lsum (lines_of ''cash'' (snd (post 8 ''p2'' 3 (snd (reversal_entry (hd (jentries demo_journal)) demo_journal))))) = 0"
proof -
  let ?e = "hd (jentries demo_journal)"
  have f: "fst (reversal_entry ?e demo_journal) = 3" "?e \<in> set (jentries demo_journal)"
    "lsum (lines_of ''cash'' demo_journal) = 5"
    "lsum (filter (\<lambda>l. account l = ''cash'') (mem demo_journal (lines_at ?e))) = 5"
    "\<not> isl (fst (post 8 ''p2'' 3 (snd (reversal_entry ?e demo_journal))))" by code_simp+
  then have "reversal_entry ?e demo_journal = (3, snd (reversal_entry ?e demo_journal))"
    by (metis prod.collapse)
  from reversal_undoes [where s = demo_client, OF demo_run _ _ prod.collapse [symmetric], of ?e 3
      "snd (reversal_entry ?e demo_journal)" 8 "''p2''" "''cash''"] this f(2,3,4,5)
  show ?thesis by (simp add: demo_client_def)
qed

text \<open>C6: as long as the true sum of a posted entry's amounts stays below \<open>2 ^ 64\<close> in absolute
  value, an entry that \<^verbatim>\<open>Post\<close> accepts balances in the integers and not only modulo the word
  size.\<close>

theorem post_exact:
  assumes "post now ref a j = (Inr e, j')"
    and "\<bar>\<Sum>l\<leftarrow>mem j a. sint (amount (lamount l))\<bar> < 2 ^ 64"
  shows "(\<Sum>l\<leftarrow>mem j a. sint (amount (lamount l))) = 0"
proof -
  have "entry_ok (mem j a)"
    using assms(1) validate_None [of ref "mem j a"]
    by (cases rule: post_cases [of ref j a now]) auto
  then have "word_of_int (\<Sum>l\<leftarrow>mem j a. sint (amount (lamount l))) = (0 :: int64)"
    by (simp add: entry_ok_def flip: lsum_sint)
  then have "uint (word_of_int (\<Sum>l\<leftarrow>mem j a. sint (amount (lamount l))) :: int64) = 0" by simp
  then have "(\<Sum>l\<leftarrow>mem j a. sint (amount (lamount l))) mod 2 ^ 64 = 0"
    by (simp add: uint_word_of_int)
  then obtain k where "(\<Sum>l\<leftarrow>mem j a. sint (amount (lamount l))) = 2 ^ 64 * k"
    by (auto simp: mod_eq_0_iff_dvd dvd_def)
  with assms(2) show ?thesis by simp
qed

theorem post_exact_witness:
  "(\<Sum>l\<leftarrow>mem (snd (alloc demo_lines new_journal)) 0. sint (amount (lamount l))) = 0"
proof -
  let ?j = "snd (alloc demo_lines new_journal)"
  have m: "mem ?j 0 = demo_lines" by (simp add: new_journal_def)
  obtain e j' where p: "post 7 ''p1'' 0 ?j = (Inr e, j')"
    using post_decides [of "''p1''" ?j 0 7] entry_ok_demo m by auto
  show ?thesis by (rule post_exact [OF p]) (simp only: m, simp add: demo_lines_def)
qed

text \<open>Without that bound it does not: \<^verbatim>\<open>Post\<close> accepts an entry of four debits of \<open>2 ^ 62\<close>
  each and no credit, because the running sum wraps to zero, and \<^verbatim>\<open>PostBalance\<close> of the least
  \<^verbatim>\<open>int64\<close> books the same negative amount on both accounts, since it is its own negation.\<close>

theorem post_accepts_wrapped:
  "let m = \<lparr>amount = 2 ^ 62, currency = ''USD''\<rparr>;
       big = map (\<lambda>a. \<lparr>account = a, lamount = m\<rparr>) [''a'', ''b'', ''c'', ''d''];
       low = \<lparr>amount = 2 ^ 63, currency = ''USD''\<rparr>
   in (\<exists>e j'. post now ''r'' (brk j) (snd (alloc big j)) = (Inr e, j')) \<and>
      (\<Sum>l\<leftarrow>big. sint (amount (lamount l))) = 2 ^ 64 \<and>
      (\<exists>e j'. post_balance now ''r'' ''a'' ''b'' low j = (Inr e, j')) \<and>
      negate low = low \<and> sint (amount low) = - (2 ^ 63)"
proof -
  let ?m = "\<lparr>amount = 2 ^ 62 :: int64, currency = ''USD''\<rparr>" and ?low = "\<lparr>amount = 2 ^ 63 :: int64, currency = ''USD''\<rparr>"
  let ?big = "map (\<lambda>a. \<lparr>account = a, lamount = ?m\<rparr>) [''a'', ''b'', ''c'', ''d'']"
  have "entry_ok ?big" by (simp add: entry_ok_def)
  from post_fresh [OF this, of "''r''" now j]
  have 1: "\<exists>e j'. post now ''r'' (brk j) (snd (alloc ?big j)) = (Inr e, j')" by simp
  have n: "negate ?low = ?low" by (simp add: negate_def)
  have "entry_ok [\<lparr>account = ''a'', lamount = ?low\<rparr>, \<lparr>account = ''b'', lamount = negate ?low\<rparr>]"
    unfolding n by (simp add: entry_ok_def)
  from post_fresh [OF this, of "''r''" now j]
  have 2: "\<exists>e j'. post_balance now ''r'' ''a'' ''b'' ?low j = (Inr e, j')"
    by (simp add: post_balance_def split_beta)
  have "(\<Sum>l\<leftarrow>?big. sint (amount (lamount l))) = 2 ^ 64" by simp
  moreover have "sint (amount ?low) = - (2 ^ 63)" by simp
  ultimately show ?thesis using 1 2 n unfolding Let_def by blast
qed

text \<open>\<^verbatim>\<open>Entries\<close> undoes the protection: the entries it hands out point to the journal's own line
  arrays, so a caller that writes one element through them unbalances a posted entry, and
  \<^verbatim>\<open>Total\<close> and \<^verbatim>\<open>Balance\<close> change.\<close>

theorem entries_leak:
  "let a = lines_at (hd (entries_copy demo_journal));
       j = write_line a 1 \<lparr>account = ''rev'', lamount = \<lparr>amount = 0, currency = ''USD''\<rparr>\<rparr> demo_journal
   in ledger_total ''USD'' demo_journal = Inr \<lparr>amount = 0, currency = ''USD''\<rparr> \<and>
      ledger_total ''USD'' j = Inr \<lparr>amount = 5, currency = ''USD''\<rparr> \<and>
      balance ''rev'' j = Inr \<lparr>amount = 0, currency = ''USD''\<rparr>"
  by code_simp

text \<open>A caller that writes to its slice while \<^verbatim>\<open>Post\<close> waits for the mutex gets an entry posted that was
  never validated: the books no longer balance.\<close>

lemma late_write_unbalances:
  "let j0 = snd (alloc demo_lines new_journal);
       j1 = write_line 0 1 \<lparr>account = ''rev'', lamount = \<lparr>amount = 0, currency = ''USD''\<rparr>\<rparr> j0;
       j2 = snd (post_locked 7 ''p1'' 0 j1)
   in validate ''p1'' (mem j0 0) = None \<and> ledger_total ''USD'' j2 = Inr \<lparr>amount = 5, currency = ''USD''\<rparr>"
  by code_simp

end
