(* ===== verification/Lease.thy ===== *)
theory Lease
  imports Prelude
begin

text \<open>
  Leases with fencing tokens, \<^verbatim>\<open>16-distributed-systems/examples/lease/lease.go\<close>: the
  \<^verbatim>\<open>Coordinator\<close> that grants one lease at a time with a fresh token, and the storage guard
  \<^verbatim>\<open>Fenced\<close> that refuses stale tokens.  The injected clock is a reading passed to each call
  (\<^verbatim>\<open>Renew\<close> may read it twice).  Tokens, expiries and readings are \<^verbatim>\<open>int64\<close>.  Go's maps are
  association lists with one binding per key.  The interface \<open>fence\<close> is what a writer relies
  on; \<open>fw\<close> interprets it on \<^verbatim>\<open>Fenced.Write\<close>.  \<open>lease_step\<close> interleaves any number of holders,
  live or zombie, with the clock.
\<close>

subsection \<open>The coordinator\<close>

record token =
  number :: int64
  holder :: string

record coord =
  next_token :: int64
  ttl_ms :: int64
  active :: "(string \<times> int64) list"
  tokens :: "(string \<times> int64) list"

definition new_coord :: "int64 \<Rightarrow> coord" where
  "new_coord ttl = \<lparr>next_token = 0, ttl_ms = ttl, active = [], tokens = []\<rparr>"

definition evict_expired :: "int64 \<Rightarrow> coord \<Rightarrow> coord" where
  "evict_expired now c =
     (let gone = map fst (filter (\<lambda>p. sint (snd p) \<le> sint now) (active c))
      in c\<lparr>active := filter (\<lambda>p. fst p \<notin> set gone) (active c),
           tokens := filter (\<lambda>p. fst p \<notin> set gone) (tokens c)\<rparr>)"

definition acquire :: "string \<Rightarrow> int64 \<Rightarrow> coord \<Rightarrow> (token \<times> bool) \<times> coord" where
  "acquire h now c =
     (let c1 = evict_expired now c
      in if active c1 \<noteq> [] then ((\<lparr>number = 0, holder = []\<rparr>, False), c1)
         else let n = next_token c1 + 1
              in ((\<lparr>number = n, holder = h\<rparr>, True),
                  c1\<lparr>next_token := n, active := ins h (now + ttl_ms c1) (active c1),
                     tokens := ins h n (tokens c1)\<rparr>))"

definition renew :: "string \<Rightarrow> int64 \<Rightarrow> int64 \<Rightarrow> coord \<Rightarrow> bool \<times> coord" where
  "renew h now1 now2 c =
     (case map_of (active c) h of
        None \<Rightarrow> (False, c\<lparr>active := del h (active c), tokens := del h (tokens c)\<rparr>)
      | Some expiry \<Rightarrow>
          if sint expiry \<le> sint now1
          then (False, c\<lparr>active := del h (active c), tokens := del h (tokens c)\<rparr>)
          else (True, c\<lparr>active := ins h (now2 + ttl_ms c) (active c)\<rparr>))"

subsection \<open>The storage guard\<close>

record fenced =
  newest_at :: "string \<rightharpoonup> int64"

definition new_fenced :: fenced where
  "new_fenced = \<lparr>newest_at = Map.empty\<rparr>"

definition newest :: "string \<Rightarrow> fenced \<Rightarrow> int64" where
  "newest r f = (case newest_at f r of Some n \<Rightarrow> n | None \<Rightarrow> 0)"

text \<open>\<open>apply_write\<close> is the caller's closure on the stored data \<open>d\<close>; \<open>None\<close> is \<^verbatim>\<open>ErrFencedOut\<close>.\<close>

definition fenced_write ::
  "string \<Rightarrow> token \<Rightarrow> ('d \<Rightarrow> 'd) \<Rightarrow> fenced \<times> 'd \<Rightarrow> (fenced \<times> 'd) option" where
  "fenced_write r t apply_write s =
     (case s of (f, d) \<Rightarrow>
        if sint (number t) \<le> sint (newest r f) then None
        else Some (f\<lparr>newest_at := (newest_at f)(r \<mapsto> number t)\<rparr>, apply_write d))"

subsection \<open>The fencing interface\<close>

text \<open>Attempted writes in order, each with its resource and token: those that are accepted.\<close>

fun fence_run :: "('r \<Rightarrow> 't \<Rightarrow> 's \<Rightarrow> 's option) \<Rightarrow> 's \<Rightarrow> ('r \<times> 't) list \<Rightarrow> ('r \<times> 't) list \<times> 's" where
  "fence_run put s [] = ([], s)"
| "fence_run put s ((r, t) # ws) =
     (case put r t s of
        None \<Rightarrow> fence_run put s ws
      | Some s1 \<Rightarrow> let (done_ws, s2) = fence_run put s1 ws in ((r, t) # done_ws, s2))"

locale fence =
  fixes put :: "'r \<Rightarrow> 't \<Rightarrow> 's \<Rightarrow> 's option"
    and rank :: "'t \<Rightarrow> int"
    and mark :: "'s \<Rightarrow> 'r \<Rightarrow> int"
  assumes put_None: "put r t s = None \<longleftrightarrow> rank t \<le> mark s r"
    and put_mark: "put r t s = Some s' \<Longrightarrow> mark s' = (mark s)(r := rank t)"
begin

lemma mark_mono: "fence_run put s ws = (acc, s') \<Longrightarrow> mark s r \<le> mark s' r"
proof (induction ws arbitrary: s acc)
  case Nil
  then show ?case by simp
next
  case (Cons w ws)
  obtain r' t where w: "w = (r', t)" by fastforce
  show ?case
  proof (cases "put r' t s")
    case None
    then show ?thesis using Cons w by simp
  next
    case (Some s1)
    then have "mark s r \<le> mark s1 r"
      using put_mark [OF Some] put_None [of r' t s] by (cases "r = r'") auto
    also have "\<dots> \<le> mark s' r" using Cons w Some by (auto split: prod.splits)
    finally show ?thesis .
  qed
qed

lemma accepted_increasing:
  "fence_run put s ws = (acc, s') \<Longrightarrow>
   sorted_wrt (<) (map (\<lambda>w. rank (snd w)) (filter (\<lambda>w. fst w = r) acc)) \<and>
   (\<forall>w \<in> set acc. fst w = r \<longrightarrow> mark s r < rank (snd w) \<and> rank (snd w) \<le> mark s' r)"
proof (induction ws arbitrary: s acc)
  case Nil
  then show ?case by simp
next
  case (Cons w ws)
  obtain r' t where w: "w = (r', t)" by fastforce
  show ?case
  proof (cases "put r' t s")
    case None
    then show ?thesis using Cons w by simp
  next
    case (Some s1)
    then obtain acc1 where run: "fence_run put s1 ws = (acc1, s')" and acc: "acc = (r', t) # acc1"
      using Cons.prems w by (auto split: prod.splits)
    have lt: "mark s r' < rank t" using put_None [of r' t s] Some by auto
    have m1: "mark s1 = (mark s)(r' := rank t)" by (rule put_mark [OF Some])
    then have "mark s r \<le> mark s1 r" using lt by simp
    moreover note Cons.IH [OF run] mark_mono [OF run, of r']
    ultimately show ?thesis using lt m1 acc by fastforce
  qed
qed

lemma stale_rejected:
  assumes "fence_run put s ws = (acc, s')" "(r, t) \<in> set acc" "rank t' \<le> rank t"
  shows "put r t' s' = None"
  using accepted_increasing [OF assms(1), of r] assms(2,3) put_None [of r t' s'] by fastforce

end

interpretation fw: fence "\<lambda>r t. fenced_write r t f" "\<lambda>t. sint (number t)"
    "\<lambda>s r. sint (newest r (fst s))" for f
  by unfold_locales (auto simp: fenced_write_def newest_def fun_eq_iff split: if_splits)

subsection \<open>Holders, the clock and the store together\<close>

text \<open>
  \<open>issued\<close> remembers every token ever granted, in order, and \<open>history\<close> every accepted write.
  A write may carry any token ever granted, however long ago its lease ran out.
\<close>

record 'd lease_sys =
  coordinator :: coord
  clock :: int64
  issued :: "token list"
  guard :: "fenced \<times> 'd"
  history :: "(string \<times> token) list"

definition lease_init :: "int64 \<Rightarrow> int64 \<Rightarrow> 'd \<Rightarrow> 'd lease_sys" where
  "lease_init ttl now d =
     \<lparr>coordinator = new_coord ttl, clock = now, issued = [], guard = (new_fenced, d), history = []\<rparr>"

inductive lease_step :: "'d lease_sys \<Rightarrow> 'd lease_sys \<Rightarrow> bool" where
  tick: "sint (clock s) \<le> sint n \<Longrightarrow> lease_step s (s\<lparr>clock := n\<rparr>)"
| granted: "acquire h (clock s) (coordinator s) = ((t, True), c) \<Longrightarrow>
    lease_step s (s\<lparr>coordinator := c, issued := issued s @ [t]\<rparr>)"
| refused: "acquire h (clock s) (coordinator s) = ((t, False), c) \<Longrightarrow>
    lease_step s (s\<lparr>coordinator := c\<rparr>)"
| renewed: "sint (clock s) \<le> sint n \<Longrightarrow> renew h (clock s) n (coordinator s) = (b, c) \<Longrightarrow>
    lease_step s (s\<lparr>coordinator := c, clock := n\<rparr>)"
| accepted: "t \<in> set (issued s) \<Longrightarrow> fenced_write r t f (guard s) = Some g \<Longrightarrow>
    lease_step s (s\<lparr>guard := g, history := history s @ [(r, t)]\<rparr>)"
| fenced_out: "t \<in> set (issued s) \<Longrightarrow> fenced_write r t f (guard s) = None \<Longrightarrow> lease_step s s"

inductive lease_reach :: "'d lease_sys \<Rightarrow> 'd lease_sys \<Rightarrow> bool" for s0 where
  start: "lease_reach s0 s0"
| step: "lease_reach s0 s \<Longrightarrow> lease_step s t \<Longrightarrow> lease_reach s0 t"

text \<open>At most one lease is recorded, and its token is the newest one granted.\<close>

definition coord_ok :: "coord \<Rightarrow> bool" where
  [inv_defs]: "coord_ok c \<longleftrightarrow> (active c = [] \<and> tokens c = []) \<or>
     (\<exists>h e. active c = [(h, e)] \<and> tokens c = [(h, next_token c)])"

definition lease_inv :: "'d lease_sys \<Rightarrow> bool" where
  [inv_defs]: "lease_inv s \<longleftrightarrow>
     coord_ok (coordinator s) \<and> (active (coordinator s) \<noteq> [] \<longrightarrow> issued s \<noteq> []) \<and>
     next_token (coordinator s) = of_nat (length (issued s)) \<and>
     map number (issued s) = map (\<lambda>i. of_nat (Suc i)) [0..<length (issued s)] \<and>
     (\<forall>(r, t) \<in> set (history s). sint (number t) \<le> sint (newest r (fst (guard s))))"

lemma coord_ok_evict:
  assumes "coord_ok c"
  shows "coord_ok (evict_expired now c) \<and>
   next_token (evict_expired now c) = next_token c \<and> ttl_ms (evict_expired now c) = ttl_ms c \<and>
   active (evict_expired now c) = filter (\<lambda>p. sint now < sint (snd p)) (active c)"
proof -
  from assms consider "active c = []" "tokens c = []"
    | h e where "active c = [(h, e)]" "tokens c = [(h, next_token c)]"
    by (auto simp: coord_ok_def)
  then show ?thesis
  proof cases
    case 1
    then show ?thesis by (simp add: coord_ok_def evict_expired_def)
  next
    case (2 h e)
    then show ?thesis
      by (cases "sint e \<le> sint now") (simp_all add: coord_ok_def evict_expired_def)
  qed
qed

lemma acquire_cases:
  assumes "coord_ok c" "acquire h now c = ((t, b), c')"
  shows "coord_ok c'" "b \<Longrightarrow> number t = next_token c + 1 \<and> holder t = h \<and> next_token c' = next_token c + 1 \<and>
      active c' = [(h, now + ttl_ms c)] \<and> (\<forall>(h', e) \<in> set (active c). sint e \<le> sint now)"
    "\<not> b \<Longrightarrow> next_token c' = next_token c"
proof -
  note e = coord_ok_evict [OF assms(1), of now]
  have "coord_ok c' \<and>
    (b \<longrightarrow> number t = next_token c + 1 \<and> holder t = h \<and> next_token c' = next_token c + 1 \<and>
      active c' = [(h, now + ttl_ms c)] \<and> (\<forall>(h', e) \<in> set (active c). sint e \<le> sint now)) \<and>
    (\<not> b \<longrightarrow> next_token c' = next_token c)"
  proof (cases "active (evict_expired now c) = []")
    case True
    moreover from this e have "tokens (evict_expired now c) = []" by (auto simp: coord_ok_def)
    moreover from True e have "\<forall>p \<in> set (active c). sint (snd p) \<le> sint now"
      by (auto simp: filter_empty_conv not_less)
    ultimately show ?thesis
      using assms(2) e by (auto simp: acquire_def Let_def ins_def del_def coord_ok_def)
  next
    case False
    then show ?thesis using assms(2) e by (auto simp: acquire_def Let_def)
  qed
  then show "coord_ok c'" "b \<Longrightarrow> number t = next_token c + 1 \<and> holder t = h \<and> next_token c' = next_token c + 1 \<and>
      active c' = [(h, now + ttl_ms c)] \<and> (\<forall>(h', e) \<in> set (active c). sint e \<le> sint now)"
    "\<not> b \<Longrightarrow> next_token c' = next_token c" by blast+
qed

lemma acquire_refused:
  "coord_ok c \<Longrightarrow> acquire h now c = ((t, False), c') \<Longrightarrow> active c' \<noteq> [] \<Longrightarrow> active c \<noteq> []"
  using coord_ok_evict [of c now] by (auto simp: acquire_def Let_def split: if_splits)

lemma coord_ok_renew:
  "coord_ok c \<Longrightarrow> renew h n1 n2 c = (b, c') \<Longrightarrow> coord_ok c' \<and> next_token c' = next_token c"
  by (auto simp: renew_def coord_ok_def ins_def del_def split: if_splits)

lemma lease_step_inv: "lease_step s t \<Longrightarrow> lease_inv s \<Longrightarrow> lease_inv t"
proof (induction rule: lease_step.induct)
  case (tick s n)
  then show ?case by (simp add: lease_inv_def)
next
  case (granted h s t c)
  then show ?case
    using acquire_cases [OF _ granted(1)] by (simp add: lease_inv_def add.commute)
next
  case (refused h s t c)
  have "coord_ok (coordinator s)" using refused(2) by (simp add: lease_inv_def)
  from acquire_cases [OF this refused(1)] acquire_refused [OF this refused(1)]
  show ?case using refused(2) by (auto simp: lease_inv_def)
next
  case (renewed s n h b c)
  have "active c \<noteq> [] \<Longrightarrow> active (coordinator s) \<noteq> []"
    using renewed(2) by (auto simp: renew_def del_def split: option.splits if_splits)
  then show ?case
    using renewed(3) coord_ok_renew [OF _ renewed(2)] by (auto simp: lease_inv_def)
next
  case (accepted t s r f g)
  have m: "sint (newest r' (fst g)) = (if r' = r then sint (number t) else sint (newest r' (fst (guard s))))" for r'
    using fw.put_mark [OF accepted(2)] by (simp add: fun_eq_iff)
  have lt: "sint (newest r (fst (guard s))) < sint (number t)"
    using fw.put_None [of r t f "guard s"] accepted(2) by auto
  have "\<forall>(r', t') \<in> set (history s). sint (number t') \<le> sint (newest r' (fst g))"
    using accepted(3) lt by (fastforce simp: lease_inv_def m)
  then show ?case using accepted(3) m by (simp add: lease_inv_def)
next
  case (fenced_out t s r f)
  then show ?case by simp
qed

lemma lease_inv_init: "lease_inv (lease_init ttl now d)"
  by (simp add: lease_inv_def lease_init_def new_coord_def coord_ok_def)

lemma lease_reach_inv: "lease_reach s0 s \<Longrightarrow> lease_inv s0 \<Longrightarrow> lease_inv s"
  by (induction rule: lease_reach.induct) (auto intro: lease_step_inv)

lemma number_issued:
  assumes "lease_inv s" "i < length (issued s)" "length (issued s) < 2 ^ 63"
  shows "sint (number (issued s ! i)) = int (Suc i)"
proof -
  have "number (issued s ! i) = map number (issued s) ! i" using assms(2) by simp
  also have "\<dots> = of_nat (Suc i)" using assms(1,2) by (simp add: lease_inv_def del: of_nat_Suc)
  finally show ?thesis
    using assms(2,3) by (simp add: signed_of_nat signed_take_bit_int_eq_self_iff del: of_nat_Suc)
qed

text \<open>
  A run to look at: \<open>A\<close> is granted token 1 and stalls past its expiry, \<open>B\<close> is granted token 2 and
  writes; the data is a counter.
\<close>

definition zombie_demo :: "nat lease_sys" where
  "zombie_demo =
     \<lparr>coordinator = \<lparr>next_token = 2, ttl_ms = 15, active = [(''B'', 35)], tokens = [(''B'', 2)]\<rparr>,
      clock = 20, issued = [\<lparr>number = 1, holder = ''A''\<rparr>, \<lparr>number = 2, holder = ''B''\<rparr>],
      guard = (\<lparr>newest_at = [''row'' \<mapsto> 2]\<rparr>, 1), history = [(''row'', \<lparr>number = 2, holder = ''B''\<rparr>)]\<rparr>"

lemma zombie_demo_reach: "lease_reach (lease_init 15 0 0) zombie_demo"
proof -
  let ?A = "\<lparr>number = 1, holder = ''A''\<rparr> :: token" and ?B = "\<lparr>number = 2, holder = ''B''\<rparr> :: token"
  let ?s1 = "(lease_init 15 0 (0 :: nat)) \<lparr>coordinator := \<lparr>next_token = 1, ttl_ms = 15, active = [(''A'', 15)], tokens = [(''A'', 1)]\<rparr>, issued := [?A]\<rparr>"
  let ?s2 = "?s1 \<lparr>clock := 20\<rparr>"
  let ?s3 = "?s2 \<lparr>coordinator := \<lparr>next_token = 2, ttl_ms = 15, active = [(''B'', 35)], tokens = [(''B'', 2)]\<rparr>, issued := [?A, ?B]\<rparr>"
  have s1: "lease_step (lease_init 15 0 0) ?s1"
    using lease_step.granted [of "''A''" "lease_init 15 0 (0 :: nat)" ?A]
    by (simp add: acquire_def evict_expired_def Let_def lease_init_def new_coord_def ins_def del_def)
  have s2: "lease_step ?s1 ?s2" by (rule lease_step.tick) (simp add: lease_init_def)
  have s3: "lease_step ?s2 ?s3"
    using lease_step.granted [of "''B''" ?s2 ?B]
    by (simp add: acquire_def evict_expired_def Let_def lease_init_def ins_def del_def)
  have s4: "lease_step ?s3 zombie_demo"
    using lease_step.accepted [of ?B ?s3 "''row''" Suc]
    by (simp add: fenced_write_def newest_def new_fenced_def lease_init_def zombie_demo_def)
  show ?thesis
    by (rule lease_reach.step [OF lease_reach.step [OF lease_reach.step
          [OF lease_reach.step [OF lease_reach.start s1] s2] s3] s4])
qed

subsection \<open>Properties\<close>

text \<open>C7: in every reachable state of the coordinator at most one lease is recorded, its token is the
  newest one granted, and a new lease is granted only when no recorded lease is still running, with a
  token number one higher.\<close>

theorem lease_exclusive:
  assumes "lease_reach (lease_init ttl now d) s"
  shows "length (active (coordinator s)) \<le> 1 \<and>
    (\<forall>(h, n) \<in> set (tokens (coordinator s)). issued s \<noteq> [] \<and> n = number (last (issued s))) \<and>
    (\<forall>h n t c. acquire h n (coordinator s) = ((t, True), c) \<longrightarrow>
       (\<forall>(h', e) \<in> set (active (coordinator s)). sint e \<le> sint n) \<and>
       active c = [(h, n + ttl_ms (coordinator s))] \<and> number t = of_nat (Suc (length (issued s))))"
proof -
  have inv: "lease_inv s" using lease_reach_inv [OF assms lease_inv_init] .
  then have ok: "coord_ok (coordinator s)" by (simp add: lease_inv_def)
  have l: "number (last (issued s)) = of_nat (length (issued s))" if "issued s \<noteq> []"
  proof -
    have "number (last (issued s)) = last (map number (issued s))" using that by (simp add: last_map)
    also have "\<dots> = of_nat (length (issued s))"
      using inv that by (cases "length (issued s)") (simp_all add: lease_inv_def)
    finally show ?thesis .
  qed
  show ?thesis
  proof (intro conjI)
    show "length (active (coordinator s)) \<le> 1" using ok by (auto simp: coord_ok_def)
    show "\<forall>(h, n) \<in> set (tokens (coordinator s)). issued s \<noteq> [] \<and> n = number (last (issued s))"
      using inv l by (auto simp: lease_inv_def coord_ok_def)
    show "\<forall>h n t c. acquire h n (coordinator s) = ((t, True), c) \<longrightarrow>
       (\<forall>(h', e) \<in> set (active (coordinator s)). sint e \<le> sint n) \<and>
       active c = [(h, n + ttl_ms (coordinator s))] \<and> number t = of_nat (Suc (length (issued s)))"
      using acquire_cases(2) [OF ok] inv by (simp add: lease_inv_def add.commute)
  qed
qed

theorem lease_exclusive_witness:
  "tokens (coordinator zombie_demo) = [(''B'', 2)] \<and> 2 = number (last (issued zombie_demo)) \<and>
   length (active (coordinator zombie_demo)) = 1"
proof -
  have "tokens (coordinator zombie_demo) = [(''B'', 2)]" "active (coordinator zombie_demo) \<noteq> []"
    by (simp_all add: zombie_demo_def)
  with lease_exclusive [OF zombie_demo_reach] show ?thesis
    by (cases "active (coordinator zombie_demo)") auto
qed

text \<open>C3: the zombie is fenced: once a write with some token has been accepted on a resource, no write
  on that resource with a token granted before it, nor with that same token again, is ever accepted,
  however holders, expiries and the clock interleave (while fewer than \<open>2 ^ 63\<close> tokens were granted).\<close>

theorem zombie_fenced:
  assumes "lease_reach (lease_init ttl now d) s" "length (issued s) < 2 ^ 63"
    and "i \<le> k" "k < length (issued s)" "(r, issued s ! k) \<in> set (history s)"
  shows "fenced_write r (issued s ! i) f (guard s) = None"
proof -
  have inv: "lease_inv s" using lease_reach_inv [OF assms(1) lease_inv_init] .
  have "sint (number (issued s ! i)) \<le> sint (number (issued s ! k))"
    using number_issued [OF inv _ assms(2)] assms(3,4) by simp
  also have "\<dots> \<le> sint (newest r (fst (guard s)))"
    using inv assms(5) by (auto simp: lease_inv_def)
  finally show ?thesis by (simp add: fw.put_None)
qed

theorem zombie_fenced_witness:
  "fenced_write ''row'' \<lparr>number = 1, holder = ''A''\<rparr> Suc (guard zombie_demo) = None"
proof -
  have "fenced_write ''row'' (issued zombie_demo ! 0) Suc (guard zombie_demo) = None"
    by (rule zombie_fenced [OF zombie_demo_reach, where k = 1]) (simp_all add: zombie_demo_def)
  then show ?thesis by (simp add: zombie_demo_def)
qed

text \<open>The accepted writes on one resource carry strictly increasing token numbers, whatever
  sequence of writes is attempted, and afterwards every token not above an accepted one is refused.\<close>

theorem fenced_writes_increase:
  assumes "fence_run (\<lambda>r t. fenced_write r t f) s ws = (acc, s')"
  shows "sorted_wrt (<) (map (\<lambda>w. sint (number (snd w))) (filter (\<lambda>w. fst w = r) acc)) \<and>
    (\<forall>t t'. (r, t) \<in> set acc \<longrightarrow> sint (number t') \<le> sint (number t) \<longrightarrow> fenced_write r t' f s' = None)"
  using fw.accepted_increasing [OF assms, of r] fw.stale_rejected [OF assms, of r] by blast

theorem fenced_writes_increase_witness:
  "fenced_write ''row'' \<lparr>number = 2, holder = ''A''\<rparr> Suc
     (snd (fence_run (\<lambda>r t. fenced_write r t Suc) (new_fenced, 0)
        [(''row'', \<lparr>number = 2, holder = ''B''\<rparr>), (''row'', \<lparr>number = 1, holder = ''A''\<rparr>)])) = None"
proof -
  let ?B = "\<lparr>number = 2, holder = ''B''\<rparr> :: token" and ?A = "\<lparr>number = 1, holder = ''A''\<rparr> :: token"
  have run: "fence_run (\<lambda>r t. fenced_write r t Suc) (new_fenced, 0) [(''row'', ?B), (''row'', ?A)]
      = ([(''row'', ?B)], (\<lparr>newest_at = [''row'' \<mapsto> 2]\<rparr>, 1))"
    by (simp add: fenced_write_def newest_def new_fenced_def)
  from fenced_writes_increase [OF run, of "''row''"] show ?thesis unfolding run by simp
qed

text \<open>The guard also refuses the holder itself: after a first accepted write, a second write with
  the same, still newest token on the same resource is \<^verbatim>\<open>ErrFencedOut\<close>, although nobody else was
  granted a lease and the lease is running.\<close>

theorem holder_second_write:
  "let ((t, ok), c) = acquire ''A'' 0 (new_coord 15)
   in ok \<and> fst (renew ''A'' 1 1 c) \<and>
      (case fenced_write ''row'' t Suc (new_fenced, 0) of
         None \<Rightarrow> False
       | Some s \<Rightarrow> snd s = Suc 0 \<and> fenced_write ''row'' t Suc s = None)"
  by (simp add: acquire_def evict_expired_def new_coord_def renew_def ins_def del_def
      fenced_write_def newest_def new_fenced_def Let_def)

end
