(* ===== verification/Resilience.thy ===== *)
theory Resilience
  imports Prelude
begin

unbundle bit_operations_syntax

text \<open>
  The resilience pieces of \<^verbatim>\<open>15-microservices/examples/resilience/resilience.go\<close>: \<^verbatim>\<open>Retry\<close>
  with exponential backoff and a deadline budget, the circuit \<^verbatim>\<open>Breaker\<close> and the
  \<^verbatim>\<open>Bulkhead\<close>.  The operation, the clock, the random source and the timer-or-cancel
  \<^verbatim>\<open>select\<close> act on a world \<open>'w\<close> that \<open>retry_env\<close> supplies; a backoff is an \<^verbatim>\<open>int64\<close>
  shifted left, so it can overflow, and \<^verbatim>\<open>rand.Int64N\<close> panics on a bound that is not positive.
  The breaker's mutex makes \<^verbatim>\<open>Allow\<close> and \<^verbatim>\<open>Record\<close> single steps on a clock reading.
\<close>

subsection \<open>Retry\<close>

datatype 'e retry_out =
    Done | Fatal 'e | Budget_spent 'e | Cancelled 'e | Exhausted int64 "'e option" | Rand_panic

record ('w, 'e) retry_env =
  op_call :: "'w \<Rightarrow> 'e option \<times> 'w"
  retryable :: "('e \<Rightarrow> bool) option"
  deadline :: "instant option"
  now_at :: "'w \<Rightarrow> instant \<times> 'w"
  rand_below :: "int \<Rightarrow> 'w \<Rightarrow> int64 \<times> 'w"
  sleep_for :: "int64 \<Rightarrow> 'w \<Rightarrow> 'e option \<times> 'w"

definition budget_gone :: "('w, 'e) retry_env \<Rightarrow> int64 \<Rightarrow> 'w \<Rightarrow> bool \<times> 'w" where
  "budget_gone env backoff w =
     (case deadline env of
        None \<Rightarrow> (False, w)
      | Some d \<Rightarrow> let (n, w1) = now_at env w in (d - n \<le> sint backoff, w1))"

text \<open>\<open>k\<close> attempts are left; \<open>attempt\<close> is the loop counter and \<open>last_err\<close> the last error.\<close>

fun retry_from ::
  "('w, 'e) retry_env \<Rightarrow> int64 \<Rightarrow> int64 \<Rightarrow> nat \<Rightarrow> nat \<Rightarrow> 'e option \<Rightarrow> 'w \<Rightarrow> 'e retry_out \<times> 'w" where
  "retry_from env base max_attempts 0 attempt last_err w = (Exhausted max_attempts last_err, w)"
| "retry_from env base max_attempts (Suc k) attempt last_err w =
     (let (r, w1) = op_call env w
      in case r of
           None \<Rightarrow> (Done, w1)
         | Some e \<Rightarrow>
             if (case retryable env of Some f \<Rightarrow> \<not> f e | None \<Rightarrow> False) then (Fatal e, w1)
             else let backoff = push_bit attempt base; (gone, w2) = budget_gone env backoff w1
                  in if gone then (Budget_spent e, w2)
                     else if go_div (sint backoff) 2 \<le> 0 then (Rand_panic, w2)
                     else let (jitter, w3) = rand_below env (go_div (sint backoff) 2) w2;
                              (c, w4) = sleep_for env (backoff + jitter) w3
                          in case c of
                               Some ce \<Rightarrow> (Cancelled ce, w4)
                             | None \<Rightarrow> retry_from env base max_attempts k (Suc attempt) (Some e) w4)"

definition retry :: "('w, 'e) retry_env \<Rightarrow> int64 \<Rightarrow> int64 \<Rightarrow> 'w \<Rightarrow> 'e retry_out \<times> 'w" where
  "retry env base max_attempts w =
     retry_from env base max_attempts (nat (sint max_attempts)) 0 None w"

subsection \<open>Breaker\<close>

record breaker =
  failures :: int64
  threshold :: int64
  cooldown :: duration
  open_until :: instant
  half_open :: bool

definition new_breaker :: "int64 \<Rightarrow> duration \<Rightarrow> breaker" where
  "new_breaker n d =
     \<lparr>failures = 0, threshold = n, cooldown = d, open_until = 0, half_open = False\<rparr>"

definition allow :: "instant \<Rightarrow> breaker \<Rightarrow> bool \<times> breaker" where
  "allow now b =
     (if now < open_until b then (False, b)
      else if half_open b then (False, b)
      else if open_until b \<noteq> 0 \<and> now > open_until b then (True, b\<lparr>half_open := True\<rparr>)
      else (True, b))"

definition record_result :: "bool \<Rightarrow> instant \<Rightarrow> breaker \<Rightarrow> breaker" where
  "record_result success now b =
     (if half_open b then
        let b1 = b\<lparr>half_open := False, open_until := 0\<rparr>
        in if success then b1\<lparr>failures := 0\<rparr> else b1\<lparr>open_until := now + cooldown b\<rparr>
      else if success then b\<lparr>failures := 0\<rparr>
      else let b1 = b\<lparr>failures := failures b + 1\<rparr>
           in if sint (failures b1) \<ge> sint (threshold b1)
              then b1\<lparr>open_until := now + cooldown b\<rparr> else b1)"

fun allow_all :: "instant list \<Rightarrow> breaker \<Rightarrow> bool list \<times> breaker" where
  "allow_all [] b = ([], b)"
| "allow_all (t # ts) b =
     (let (a, b1) = allow t b; (as, b2) = allow_all ts b1 in (a # as, b2))"

fun record_all :: "(bool \<times> instant) list \<Rightarrow> breaker \<Rightarrow> breaker" where
  "record_all [] b = b"
| "record_all ((success, t) # rs) b = record_all rs (record_result success t b)"

text \<open>The failures at the end of a list of outcomes.\<close>

definition streak :: "(bool \<times> instant) list \<Rightarrow> nat" where
  "streak rs = length (takeWhile (\<lambda>r. \<not> fst r) (rev rs))"

subsection \<open>Bulkhead\<close>

text \<open>
  The semaphore channel holds one token per running call; \<^verbatim>\<open>Do\<close> enters, and whatever way the
  function ends its deferred receive frees the slot.  When a slot is free and the context is done,
  \<^verbatim>\<open>select\<close> may take either case; the default case only when neither is ready.
\<close>

record bulkhead =
  slots :: nat
  sem :: nat
  running :: "nat list"

datatype bulkhead_event = Enter nat | Ctx_error nat | Full nat | Leave nat

definition new_bulkhead :: "nat \<Rightarrow> bulkhead" where
  "new_bulkhead n = \<lparr>slots = n, sem = 0, running = []\<rparr>"

inductive bulkhead_step :: "bulkhead \<Rightarrow> bulkhead_event \<Rightarrow> bulkhead \<Rightarrow> bool" where
  enter: "sem b < slots b \<Longrightarrow> bulkhead_step b (Enter i) (b\<lparr>sem := Suc (sem b), running := i # running b\<rparr>)"
| ctx_error: "bulkhead_step b (Ctx_error i) b"
| full: "\<not> sem b < slots b \<Longrightarrow> bulkhead_step b (Full i) b"
| leave: "i \<in> set (running b) \<Longrightarrow>
    bulkhead_step b (Leave i) (b\<lparr>sem := sem b - 1, running := remove1 i (running b)\<rparr>)"

inductive_cases bulkhead_full_elim: "bulkhead_step b (Full i) b'"
inductive_cases bulkhead_enter_elim: "bulkhead_step b (Enter i) b'"

inductive bulkhead_reach :: "nat \<Rightarrow> bulkhead \<Rightarrow> bool" for n where
  start: "bulkhead_reach n (new_bulkhead n)"
| step: "bulkhead_reach n b \<Longrightarrow> bulkhead_step b e b' \<Longrightarrow> bulkhead_reach n b'"

subsection \<open>Lemmas\<close>

lemma retry_from_no_panic:
  assumes "2 \<le> sint base"
  shows "sint base * 2 ^ (attempt + k) \<le> 2 ^ 63 \<Longrightarrow>
    fst (retry_from env base m k attempt l w) \<noteq> Rand_panic"
proof (induction k arbitrary: attempt l w)
  case 0
  then show ?case by simp
next
  case (Suc k)
  have "(2 :: int) ^ attempt < 2 ^ (attempt + Suc k)"
    by (rule power_strict_increasing) simp_all
  then have "sint base * 2 ^ attempt < sint base * 2 ^ (attempt + Suc k)"
    using assms by (intro mult_strict_left_mono) simp_all
  then have lt: "sint base * 2 ^ attempt < 2 ^ 63" using Suc.prems by linarith
  have "2 \<le> sint base * 2 ^ attempt"
    using assms mult_mono [of 2 "sint base" 1 "2 ^ attempt"] by simp
  then have "\<not> go_div (sint (push_bit attempt base)) 2 \<le> 0"
    using assms lt by (simp add: sint_push_bit go_div_2)
  moreover have "sint base * 2 ^ (Suc attempt + k) \<le> 2 ^ 63" using Suc.prems by simp
  note Suc.IH [OF this]
  ultimately show ?case by (auto simp: Let_def split: prod.splits option.splits)
qed

lemma budget_gone_world:
  assumes "\<And>w. f (snd (now_at env w)) = f w"
  shows "f (snd (budget_gone env d w)) = f w"
  using assms [of w] by (auto simp: budget_gone_def split: option.splits prod.splits)

text \<open>\<open>calls\<close> reads off the world how often the operation ran.\<close>

definition counts :: "('w \<Rightarrow> nat) \<Rightarrow> ('w, 'e) retry_env \<Rightarrow> bool" where
  "counts calls env \<longleftrightarrow> (\<forall>w. calls (snd (op_call env w)) = Suc (calls w)) \<and>
     (\<forall>w. calls (snd (now_at env w)) = calls w) \<and>
     (\<forall>n w. calls (snd (rand_below env n w)) = calls w) \<and>
     (\<forall>d w. calls (snd (sleep_for env d w)) = calls w)"

lemma retry_from_calls:
  assumes "counts calls env"
  shows "retry_from env base m k attempt l w = (r, w') \<Longrightarrow>
    calls w' \<le> calls w + k \<and> (\<forall>n e. r = Exhausted n e \<longrightarrow> calls w' = calls w + k) \<and>
    (0 < k \<longrightarrow> calls w < calls w')"
proof (induction k arbitrary: attempt l w)
  case 0
  then show ?case by auto
next
  case (Suc k)
  obtain x w1 where op: "op_call env w = (x, w1)" by fastforce
  obtain gone w2 where bg: "budget_gone env (push_bit attempt base) w1 = (gone, w2)" by fastforce
  let ?h = "go_div (sint (push_bit attempt base)) 2"
  obtain j w3 where rd: "rand_below env ?h w2 = (j, w3)" by fastforce
  obtain c w4 where sl: "sleep_for env (push_bit attempt base + j) w3 = (c, w4)" by fastforce
  have w: "calls w1 = Suc (calls w)" "calls w2 = Suc (calls w)" "calls w4 = Suc (calls w)"
    using assms op bg rd sl budget_gone_world [of calls env "push_bit attempt base" w1]
    by (metis counts_def snd_conv)+
  show ?case
  proof (cases "\<exists>e. x = Some e \<and> \<not> (case retryable env of Some f \<Rightarrow> \<not> f e | None \<Rightarrow> False) \<and>
      \<not> gone \<and> 0 < ?h \<and> c = None")
    case True
    then obtain e where "x = Some e" and
      "retry_from env base m k (Suc attempt) (Some e) w4 = (r, w')"
      using Suc.prems op bg rd sl by (auto simp: Let_def)
    with Suc.IH [OF this(2)] w show ?thesis by auto
  next
    case False
    then have "calls w' = Suc (calls w) \<and> (\<forall>n e. r \<noteq> Exhausted n e)"
      using Suc.prems op bg rd sl w by (auto simp: Let_def split: if_splits option.splits)
    then show ?thesis by auto
  qed
qed

lemma allow_open: "now < open_until b \<Longrightarrow> allow now b = (False, b)"
  by (simp add: allow_def)

lemma allow_all_open: "\<forall>t \<in> set ts. t < open_until b \<Longrightarrow> allow_all ts b = (map (\<lambda>_. False) ts, b)"
  by (induction ts) (auto simp: allow_open)


lemma record_all_append: "record_all (rs @ qs) b = record_all qs (record_all rs b)"
  by (induction rs arbitrary: b) auto

lemma streak_snoc: "streak (rs @ [r]) = (if fst r then 0 else Suc (streak rs))"
  by (simp add: streak_def)

lemma streak_le: "streak rs \<le> length rs"
  using length_takeWhile_le [of "\<lambda>r. \<not> fst r" "rev rs"] by (simp add: streak_def)

lemma record_all_new:
  "length rs < 2 ^ 63 \<Longrightarrow> record_all rs (new_breaker n d) = \<lparr>failures = of_nat (streak rs), threshold = n,
     cooldown = d, open_until = open_until (record_all rs (new_breaker n d)), half_open = False\<rparr>"
proof (induction rs rule: rev_induct)
  case Nil
  then show ?case by (simp add: new_breaker_def streak_def)
next
  case (snoc r rs)
  obtain ok u where r: "r = (ok, u)" by fastforce
  let ?b = "record_all rs (new_breaker n d)"
  have "?b = \<lparr>failures = of_nat (streak rs), threshold = n, cooldown = d,
      open_until = open_until ?b, half_open = False\<rparr>"
    using snoc by simp
  then show ?case
    by (cases ?b) (simp add: record_all_append r record_result_def streak_snoc Let_def add.commute)
qed

lemma open_until_snoc:
  assumes "length rs < 2 ^ 63 - 1"
  shows "open_until (record_all (rs @ [(ok, u)]) (new_breaker n d)) =
    (if \<not> ok \<and> sint n \<le> int (Suc (streak rs)) then u + d else open_until (record_all rs (new_breaker n d)))"
proof -
  let ?b = "record_all rs (new_breaker n d)"
  have b: "?b = \<lparr>failures = of_nat (streak rs), threshold = n, cooldown = d,
      open_until = open_until ?b, half_open = False\<rparr>"
    using assms by (intro record_all_new) simp
  have s: "sint (of_nat (Suc (streak rs)) :: int64) = int (Suc (streak rs))"
    using streak_le [of rs] assms by (intro sint64_of_nat) simp
  show ?thesis
    using b s by (cases ?b) (simp add: record_all_append record_result_def Let_def add.commute)
qed

lemma never_tripped:
  "length rs < 2 ^ 63 \<Longrightarrow> \<forall>k \<le> length rs. int (streak (take k rs)) < sint n \<Longrightarrow>
   open_until (record_all rs (new_breaker n d)) = 0"
proof (induction rs rule: rev_induct)
  case Nil
  then show ?case by (simp add: new_breaker_def)
next
  case (snoc r rs)
  obtain ok u where r: "r = (ok, u)" by fastforce
  have "\<forall>k \<le> length rs. int (streak (take k rs)) < sint n"
    using snoc.prems(2) by (auto simp: take_append intro: le_SucI)
  moreover have "int (streak (rs @ [r])) < sint n"
    using snoc.prems(2) [rule_format, of "Suc (length rs)"] by simp
  ultimately show ?case
    using snoc open_until_snoc [of rs ok u n d] by (auto simp: r streak_snoc)
qed

lemma bulkhead_reach_inv:
  "bulkhead_reach n b \<Longrightarrow> slots b = n \<and> sem b = length (running b) \<and> sem b \<le> n"
proof (induction rule: bulkhead_reach.induct)
  case start
  then show ?case by (simp add: new_bulkhead_def)
next
  case (step b e b')
  from step(2,3) show ?case by cases (auto simp: length_remove1)
qed

subsection \<open>A scripted caller\<close>

text \<open>The operation returns the errors of a script one by one; no deadline, no cancellation.\<close>

definition scripted :: "('e \<Rightarrow> bool) \<Rightarrow> (int \<Rightarrow> int64) \<Rightarrow> ('e option list, 'e) retry_env" where
  "scripted f jit = \<lparr>op_call = (\<lambda>w. (hd w, tl w)), retryable = Some f, deadline = None,
     now_at = (\<lambda>w. (0, w)), rand_below = (\<lambda>n w. (jit n, w)), sleep_for = (\<lambda>d w. (None, w))\<rparr>"

definition transient :: "('e \<Rightarrow> bool) \<Rightarrow> 'e option \<Rightarrow> bool" where
  "transient f r = (case r of Some e \<Rightarrow> f e | None \<Rightarrow> False)"

lemma retry_from_scripted:
  "\<lbrakk>k \<le> length w; fst (retry_from (scripted f jit) base m k attempt l w) \<noteq> Rand_panic\<rbrakk> \<Longrightarrow>
   fst (retry_from (scripted f jit) base m k attempt l w) =
     (case dropWhile (transient f) (take k w) of
        [] \<Rightarrow> Exhausted m (if k = 0 then l else w ! (k - 1))
      | None # _ \<Rightarrow> Done
      | Some e # _ \<Rightarrow> Fatal e)"
proof (induction k arbitrary: attempt l w)
  case 0
  then show ?case by simp
next
  case (Suc k)
  then obtain r w1 where w: "w = r # w1" by (cases w) auto
  show ?case
  proof (cases "transient f r")
    case False
    then show ?thesis
      by (auto simp: w scripted_def transient_def split: option.splits)
  next
    case True
    then obtain e where r: "r = Some e" "f e" by (auto simp: transient_def split: option.splits)
    have step: "retry_from (scripted f jit) base m (Suc k) attempt l w =
        (if go_div (sint (push_bit attempt base)) 2 \<le> 0 then (Rand_panic, w1)
         else retry_from (scripted f jit) base m k (Suc attempt) (Some e) w1)"
      using r by (simp add: w scripted_def budget_gone_def Let_def)
    then have np: "fst (retry_from (scripted f jit) base m k (Suc attempt) (Some e) w1) \<noteq> Rand_panic"
      and eq: "retry_from (scripted f jit) base m (Suc k) attempt l w =
        retry_from (scripted f jit) base m k (Suc attempt) (Some e) w1"
      using Suc.prems(2) by (auto split: if_splits)
    have "(if Suc k = 0 then l else w ! (Suc k - 1)) = (if k = 0 then Some e else w1 ! (k - 1))"
      using r by (cases k) (simp_all add: w)
    moreover have "dropWhile (transient f) (take (Suc k) w) = dropWhile (transient f) (take k w1)"
      using True by (simp add: w)
    moreover have "k \<le> length w1" using Suc.prems(1) by (simp add: w)
    ultimately show ?thesis
      unfolding eq by (simp only: Suc.IH [OF _ np])
  qed
qed

subsection \<open>Properties\<close>

text \<open>What \<^verbatim>\<open>Retry\<close> returns, with a base of at least two nanoseconds whose backoffs stay below
  \<open>2 ^ 63\<close>: the first result that is not a transient error decides, success or the error itself, and
  when the first \<^verbatim>\<open>maxAttempts\<close> results are all transient the last of them is reported as exhausted.\<close>

theorem retry_outcome:
  assumes "2 \<le> sint base" "sint base * 2 ^ nat (sint m) \<le> 2 ^ 63" "0 < sint m" "nat (sint m) \<le> length rs"
  shows "fst (retry (scripted f jit) base m rs) =
    (case dropWhile (transient f) (take (nat (sint m)) rs) of
       [] \<Rightarrow> Exhausted m (rs ! (nat (sint m) - 1))
     | None # _ \<Rightarrow> Done
     | Some e # _ \<Rightarrow> Fatal e)"
proof -
  have "fst (retry (scripted f jit) base m rs) \<noteq> Rand_panic"
    unfolding retry_def by (rule retry_from_no_panic) (use assms in simp_all)
  then show ?thesis
    using retry_from_scripted [OF assms(4), of f jit base m 0 None] assms(3) by (simp add: retry_def)
qed

theorem retry_outcome_witness:
  "fst (retry (scripted (\<lambda>e. e < (5::nat)) (\<lambda>n. 1)) 1000 3 [Some 1, Some 2, Some 3]) = Exhausted 3 (Some 3)"
  using retry_outcome [of 1000 3 "[Some 1, Some 2, Some (3::nat)]" "\<lambda>e. e < 5" "\<lambda>n. 1"]
  by (simp add: transient_def eval_nat_numeral)

text \<open>Under the same bounds on the base \<^verbatim>\<open>Retry\<close> never panics, whatever the operation, the clock, the
  deadline and the cancellations do, and it runs the operation at most \<^verbatim>\<open>maxAttempts\<close> times, at least
  once, and exactly \<^verbatim>\<open>maxAttempts\<close> times when it reports exhaustion; but a base of one nanosecond makes
  the first transient failure a panic in \<^verbatim>\<open>rand.Int64N\<close>.\<close>

theorem retry_bounds:
  assumes "counts calls env" "2 \<le> sint base" "sint base * 2 ^ nat (sint m) \<le> 2 ^ 63" "0 < sint m"
    and "retry env base m w = (r, w')"
  shows "r \<noteq> Rand_panic \<and> calls w < calls w' \<and> calls w' \<le> calls w + nat (sint m) \<and>
    (\<forall>n e. r = Exhausted n e \<longrightarrow> calls w' = calls w + nat (sint m)) \<and>
    (\<forall>e rs f jit. f e \<longrightarrow> fst (retry (scripted f jit) 1 m (Some e # rs)) = Rand_panic)"
proof -
  have "fst (retry env base m w) \<noteq> Rand_panic"
    unfolding retry_def by (rule retry_from_no_panic) (use assms in simp_all)
  moreover have "fst (retry (scripted f jit) 1 m (Some e # rs)) = Rand_panic" if "f e" for e rs f jit
    using assms(4) that by (cases "nat (sint m)")
      (simp_all add: retry_def scripted_def budget_gone_def Let_def go_div_def)
  ultimately show ?thesis
    using retry_from_calls [OF assms(1), of base m "nat (sint m)" 0 None w r w'] assms(4,5)
    by (auto simp: retry_def)
qed

theorem retry_bounds_witness:
  "fst (retry \<lparr>op_call = (\<lambda>w. (Some (7::nat), Suc w)), retryable = None, deadline = Some 90,
     now_at = (\<lambda>w. (0, w)), rand_below = (\<lambda>n w. (0, w)), sleep_for = (\<lambda>d w. (None, w))\<rparr> 50 2 0) = Budget_spent 7 \<and>
   fst (retry (scripted (\<lambda>e. e = (7::nat)) (\<lambda>n. 0)) 1 2 [Some 7]) = Rand_panic"
proof -
  let ?env = "\<lparr>op_call = (\<lambda>w. (Some (7::nat), Suc w)), retryable = None, deadline = Some 90,
     now_at = (\<lambda>w. (0, w)), rand_below = (\<lambda>n w. (0, w)), sleep_for = (\<lambda>d w. (None, w))\<rparr>
     :: (nat, nat) retry_env"
  have run: "retry ?env 50 2 0 = (Budget_spent 7, 2)"
    by (simp add: retry_def budget_gone_def go_div_def eval_nat_numeral push_bit_eq_mult)
  have "counts (\<lambda>w. w) ?env" by (simp add: counts_def)
  then have "\<forall>e rs f jit. f e \<longrightarrow> fst (retry (scripted f jit) 1 2 (Some (e :: nat) # rs)) = Rand_panic"
    using retry_bounds [OF \<open>counts (\<lambda>w. w) ?env\<close> _ _ _ run] by simp
  from this [rule_format, of "\<lambda>e. e = 7" 7] run show ?thesis by simp
qed

text \<open>A breaker on which outcomes are recorded counts the failures at the end of the list; once they
  reach the threshold every call before the last failure plus the cooldown is refused, and while no part
  of the history reached it every call is allowed.\<close>

theorem breaker_trips:
  assumes "length rs < 2 ^ 63"
  shows "failures (record_all rs (new_breaker n d)) = of_nat (streak rs) \<and>
    (\<forall>qs u ts. rs = qs @ [(False, u)] \<and> sint n \<le> int (streak rs) \<and> (\<forall>t \<in> set ts. t < u + d) \<longrightarrow>
       fst (allow_all ts (record_all rs (new_breaker n d))) = map (\<lambda>_. False) ts) \<and>
    ((\<forall>k \<le> length rs. int (streak (take k rs)) < sint n) \<longrightarrow>
       (\<forall>t. allow t (record_all rs (new_breaker n d)) = (0 \<le> t, record_all rs (new_breaker n d))))"
proof (intro conjI allI impI; (elim conjE)?)
  show "failures (record_all rs (new_breaker n d)) = of_nat (streak rs)"
    by (subst record_all_new [OF assms]) simp
next
  fix qs u ts
  assume "rs = qs @ [(False, u)]" "sint n \<le> int (streak rs)" "\<forall>t \<in> set ts. t < u + d"
  then have "\<forall>t \<in> set ts. t < open_until (record_all rs (new_breaker n d))"
    using assms open_until_snoc [of qs False u n d] by (simp add: streak_snoc)
  then show "fst (allow_all ts (record_all rs (new_breaker n d))) = map (\<lambda>_. False) ts"
    by (simp add: allow_all_open)
next
  fix t
  assume "\<forall>k \<le> length rs. int (streak (take k rs)) < sint n"
  then have "open_until (record_all rs (new_breaker n d)) = 0" by (rule never_tripped [OF assms])
  moreover have "\<not> half_open (record_all rs (new_breaker n d))"
    by (subst record_all_new [OF assms]) simp
  ultimately show "allow t (record_all rs (new_breaker n d)) = (0 \<le> t, record_all rs (new_breaker n d))"
    by (auto simp: allow_def)
qed

theorem breaker_trips_witness:
  "fst (allow_all [30, 39] (record_all [(True, 1), (False, 10), (False, 20)] (new_breaker 2 20))) = [False, False]"
proof -
  have "\<forall>qs u ts. [(True, 1), (False, 10), (False, 20)] = qs @ [(False, u)] \<and>
      sint (2 :: int64) \<le> int (streak [(True, 1), (False, 10), (False, 20)]) \<and> (\<forall>t \<in> set ts. t < u + 20) \<longrightarrow>
      fst (allow_all ts (record_all [(True, 1), (False, 10), (False, 20)] (new_breaker 2 20))) = map (\<lambda>_. False) ts"
    using breaker_trips [of "[(True, 1), (False, 10), (False, 20)]" 2 20] by simp
  from this [rule_format, of "[(True, 1), (False, 10)]" 20 "[30, 39]"]
  show ?thesis by (simp add: streak_def)
qed



text \<open>In every interleaving of calls the bulkhead never runs more than its slots, a call is rejected as
  full only when all slots are taken, and a call can enter exactly when one is free.\<close>

theorem bulkhead_bound:
  assumes "bulkhead_reach n b"
  shows "length (running b) \<le> n \<and> (\<forall>i b'. bulkhead_step b (Full i) b' \<longrightarrow> length (running b) = n) \<and>
    (\<forall>i. (\<exists>b'. bulkhead_step b (Enter i) b') \<longleftrightarrow> length (running b) < n)"
  using bulkhead_reach_inv [OF assms] bulkhead_step.enter [of b]
  by (auto elim!: bulkhead_full_elim bulkhead_enter_elim)

theorem bulkhead_bound_witness:
  "length (running (new_bulkhead 1 \<lparr>sem := 1, running := [4]\<rparr>)) \<le> 1"
proof -
  have "bulkhead_step (new_bulkhead 1) (Enter 4) (new_bulkhead 1 \<lparr>sem := 1, running := [4]\<rparr>)"
    using bulkhead_step.enter [of "new_bulkhead 1" 4] by (simp add: new_bulkhead_def)
  from bulkhead_bound [OF bulkhead_reach.step [OF bulkhead_reach.start this]] show ?thesis by simp
qed

end
