(* ===== verification/Broker.thy ===== *)
theory Broker
  imports Prelude
begin

unbundle bit_operations_syntax

text \<open>
  The in-memory queue broker of \<^verbatim>\<open>17-messaging/examples/messaging/broker.go\<close>.  A message waits in
  \<open>ready\<close>, is parked for redelivery in \<open>inflight\<close> (keyed by its ID), or ends in \<open>dlq\<close>.  The
  broker's mutex makes \<open>publish\<close>, \<open>next_msg\<close>, \<open>dead\<close> and \<open>redeliver\<close> single steps; clock
  readings are their arguments, and so is the order in which \<^verbatim>\<open>range b.inflight\<close> visits the map.
  \<open>consume\<close> is the consumer loop over an environment that supplies handler, context, clock and
  map order; \<open>broker_step\<close> interleaves any number of publishers, of whatever messages, and consumers.
\<close>

subsection \<open>Errors and messages\<close>

text \<open>An error is a chain: a leaf text, the terminal marker, or a \<^verbatim>\<open>fmt.Errorf\<close> wrapping with \<^verbatim>\<open>%w\<close>.\<close>

datatype err = Plain string | Terminal_error err | Wrapped string err

fun err_text :: "err \<Rightarrow> string" where
  "err_text (Plain s) = s"
| "err_text (Terminal_error e) = ''terminal: '' @ err_text e"
| "err_text (Wrapped s e) = s @ '': '' @ err_text e"

fun is_terminal :: "err \<Rightarrow> bool" where
  "is_terminal (Plain s) = False"
| "is_terminal (Terminal_error e) = True"
| "is_terminal (Wrapped s e) = is_terminal e"

record message =
  msg_id :: string
  queue :: string
  idempotency_key :: string
  attempts :: int64
  msg_value :: string
  dead_letter_reason :: string
  first_failed_at :: instant

record envelope =
  version :: int64
  env_type :: string
  payload :: string

text \<open>\<^verbatim>\<open>json.Unmarshal\<close> into an envelope is a parameter; \<open>supported\<close> maps versions to decoders.\<close>

definition decode_envelope ::
  "(string \<Rightarrow> err + envelope) \<Rightarrow> string \<Rightarrow> (int64 \<rightharpoonup> (string \<Rightarrow> err option)) \<Rightarrow> err option" where
  "decode_envelope unmarshal value supported =
     (case unmarshal value of
        Inl e \<Rightarrow> Some (Terminal_error (Wrapped ''bad envelope'' e))
      | Inr env \<Rightarrow>
          (case supported (version env) of
             None \<Rightarrow> Some (Terminal_error (Plain (''unsupported envelope version '' @ int_text (sint (version env)))))
           | Some decode \<Rightarrow> decode (payload env)))"

subsection \<open>The broker\<close>

record pending =
  msg :: message
  visible_at :: instant

record broker =
  ready :: "string \<Rightarrow> pending list"
  inflight :: "(string \<times> pending) list"
  dlq :: "string \<Rightarrow> message list"
  max_attempts :: int64
  backoff :: int64

definition new_broker :: "int64 \<Rightarrow> int64 \<Rightarrow> broker" where
  "new_broker n d = \<lparr>ready = \<lambda>_. [], inflight = [], dlq = \<lambda>_. [], max_attempts = n, backoff = d\<rparr>"

text \<open>Options apply in their order to the defaults; the clock is a parameter of the operations.\<close>

datatype broker_option = With_max_attempts int64 | With_backoff int64

fun apply_option :: "broker_option \<Rightarrow> broker \<Rightarrow> broker" where
  "apply_option (With_max_attempts n) b = b\<lparr>max_attempts := n\<rparr>"
| "apply_option (With_backoff d) b = b\<lparr>backoff := d\<rparr>"

definition new_broker_with :: "broker_option list \<Rightarrow> broker" where
  "new_broker_with opts = foldl (\<lambda>b f. apply_option f b) (new_broker 3 1000000) opts"

lemma new_broker_with_any: "\<exists>n d. new_broker_with opts = new_broker n d"
proof -
  have "\<exists>n d. foldl (\<lambda>b f. apply_option f b) (new_broker m e) opts = new_broker n d" for m e
  proof (induction opts arbitrary: m e)
    case (Cons f opts)
    then show ?case by (cases f) (simp_all add: new_broker_def)
  qed auto
  then show ?thesis by (simp add: new_broker_with_def)
qed

definition publish :: "string \<Rightarrow> message \<Rightarrow> broker \<Rightarrow> broker" where
  "publish q m b =
     (let m1 = m\<lparr>queue := q\<rparr>;
          m2 = (if attempts m1 = 0 then m1\<lparr>attempts := 1\<rparr> else m1)
      in b\<lparr>ready := (ready b)(q := ready b q @ [\<lparr>msg = m2, visible_at = 0\<rparr>])\<rparr>)"

text \<open>The message as it is put into the queue.\<close>

definition queued :: "string \<Rightarrow> message \<Rightarrow> message" where
  "queued q m = m\<lparr>queue := q, attempts := (if attempts m = 0 then 1 else attempts m)\<rparr>"

definition publish_all :: "(string \<times> message) list \<Rightarrow> broker \<Rightarrow> broker" where
  "publish_all ps b = foldl (\<lambda>b (q, m). publish q m b) b ps"

definition promote :: "instant \<Rightarrow> (string \<times> pending) list \<Rightarrow> broker \<Rightarrow> broker" where
  "promote now ord b = foldl (\<lambda>b (i, p).
     if \<not> now < visible_at p
     then b\<lparr>inflight := del i (inflight b),
            ready := (ready b)(queue (msg p) := ready b (queue (msg p)) @ [p])\<rparr>
     else b) b ord"

definition next_msg ::
  "instant \<Rightarrow> (string \<times> pending) list \<Rightarrow> string \<Rightarrow> broker \<Rightarrow> message option \<times> broker" where
  "next_msg now ord q b =
     (let b1 = promote now ord b; ps = ready b1 q
      in case dropWhile (\<lambda>p. now < visible_at p) ps of
           [] \<Rightarrow> (None, b1)
         | p # rest \<Rightarrow>
             (Some (msg p),
              b1\<lparr>ready := (ready b1)(q := takeWhile (\<lambda>p. now < visible_at p) ps @ rest)\<rparr>))"

definition stamp :: "instant \<Rightarrow> message \<Rightarrow> message" where
  "stamp t m = (if first_failed_at m = 0 then m\<lparr>first_failed_at := t\<rparr> else m)"

definition dead :: "string \<Rightarrow> message \<Rightarrow> err \<Rightarrow> instant \<Rightarrow> broker \<Rightarrow> broker" where
  "dead q m cause t b =
     b\<lparr>dlq := (dlq b)(q := dlq b q @ [stamp t (m\<lparr>dead_letter_reason := err_text cause\<rparr>)])\<rparr>"

definition dead_list :: "string \<Rightarrow> broker \<Rightarrow> message list" where
  "dead_list q b = dlq b q"

definition inflight_count :: "broker \<Rightarrow> nat" where
  "inflight_count b = length (inflight b)"

text \<open>
  A negative shift count panics in Go: \<open>None\<close>.  \<open>t1\<close> is the reading for the stamp, \<open>t2\<close> the
  one the delay is added to.
\<close>

definition redeliver :: "string \<Rightarrow> message \<Rightarrow> err \<Rightarrow> instant \<Rightarrow> instant \<Rightarrow> broker \<Rightarrow> broker option" where
  "redeliver q m cause t1 t2 b =
     (let m1 = (stamp t1 m)\<lparr>queue := q, attempts := attempts m + 1, dead_letter_reason := err_text cause\<rparr>;
          shift = attempts m1 - 2
      in if sint shift < 0 then None
         else Some (b\<lparr>inflight := ins (msg_id m1)
                \<lparr>msg = m1, visible_at = t2 + sint (push_bit (nat (sint shift)) (backoff b))\<rparr> (inflight b)\<rparr>))"

definition exhausted :: "int64 \<Rightarrow> err \<Rightarrow> err" where
  "exhausted n e = Wrapped (''max attempts ('' @ int_text (sint n) @ '') reached'') e"

text \<open>What the loop does with a handled message.\<close>

definition settle :: "string \<Rightarrow> message \<Rightarrow> err option \<Rightarrow> instant \<Rightarrow> instant \<Rightarrow> broker \<Rightarrow> broker option" where
  "settle q m r t1 t2 b =
     (case r of
        None \<Rightarrow> Some b
      | Some e \<Rightarrow>
          if is_terminal e then Some (dead q m e t1 b)
          else if sint (attempts m) \<ge> sint (max_attempts b)
               then Some (dead q m (exhausted (max_attempts b) e) t1 b)
          else redeliver q m e t1 t2 b)"

subsection \<open>The consumer loop\<close>

text \<open>
  A handler may hold the broker and publish: \<open>process\<close> also yields what is published while it runs,
  by it or by anyone else, in order.
\<close>

datatype outcome = Returned "err option" | Panicked string

record 'w consumer =
  ctx_err :: "'w \<Rightarrow> err option \<times> 'w"
  process :: "message \<Rightarrow> 'w \<Rightarrow> outcome \<times> (string \<times> message) list \<times> 'w"
  clock_now :: "'w \<Rightarrow> instant \<times> 'w"
  map_order :: "(string \<times> pending) list \<Rightarrow> 'w \<Rightarrow> (string \<times> pending) list \<times> 'w"

definition handle :: "'w consumer \<Rightarrow> message \<Rightarrow> broker \<Rightarrow> 'w \<Rightarrow> err option \<times> broker \<times> 'w" where
  "handle env m b w =
     (case process env m w of
        (Returned r, ps, w1) \<Rightarrow> (r, publish_all ps b, w1)
      | (Panicked v, ps, w1) \<Rightarrow>
          (Some (Terminal_error (Plain (''panic in handler: '' @ v))), publish_all ps b, w1))"

definition settle_now :: "'w consumer \<Rightarrow> string \<Rightarrow> message \<Rightarrow> err option \<Rightarrow> broker \<Rightarrow> 'w \<Rightarrow> broker option \<times> 'w" where
  "settle_now env q m r b w =
     (case r of
        None \<Rightarrow> (Some b, w)
      | Some e \<Rightarrow>
          let (t1, w1) = (if first_failed_at m = 0 then clock_now env w else (first_failed_at m, w))
          in if is_terminal e \<or> sint (attempts m) \<ge> sint (max_attempts b)
             then (settle q m r t1 t1 b, w1)
             else let (t2, w2) = clock_now env w1 in (settle q m r t1 t2 b, w2))"

datatype consumed = Drained | Ctx_done err | Shift_panic

text \<open>Each unit of fuel is one round of the loop; \<open>None\<close> is a loop still running.\<close>

fun consume :: "'w consumer \<Rightarrow> string \<Rightarrow> nat \<Rightarrow> broker \<Rightarrow> 'w \<Rightarrow> (consumed \<times> broker \<times> 'w) option" where
  "consume env q 0 b w = None"
| "consume env q (Suc n) b w =
     (let (c, w1) = ctx_err env w
      in case c of
           Some e \<Rightarrow> Some (Ctx_done e, b, w1)
         | None \<Rightarrow>
             let (t, w2) = clock_now env w1; (ord, w3) = map_order env (inflight b) w2
             in case next_msg t ord q b of
                  (None, b1) \<Rightarrow> Some (Drained, b1, w3)
                | (Some m, b1) \<Rightarrow>
                    let (r, b2, w4) = handle env m b1 w3; (b3, w5) = settle_now env q m r b2 w4
                    in case b3 of
                         None \<Rightarrow> Some (Shift_panic, b2, w5)
                       | Some b4 \<Rightarrow> consume env q n b4 w5)"

subsection \<open>Publishers and consumers together\<close>

text \<open>
  \<open>held\<close> are the messages some consumer of a queue has taken and not settled, \<open>acked\<close> the ones
  whose handler succeeded, \<open>published\<close> every \<^verbatim>\<open>Publish\<close> with its queue and the message as queued,
  \<open>deliveries\<close> every message handed to a handler, in order, and \<open>lost\<close> the parked messages that the
  parking of another message with their ID has replaced.  A consumer whose redelivery panics keeps
  the message in its hands.
\<close>

record broker_sys =
  the_broker :: broker
  held :: "(string \<times> message) list"
  acked :: "(string \<times> message) list"
  lost :: "(string \<times> message) list"
  published :: "(string \<times> message) list"
  deliveries :: "message list"

definition broker_init :: "int64 \<Rightarrow> int64 \<Rightarrow> broker_sys" where
  "broker_init n d = \<lparr>the_broker = new_broker n d, held = [], acked = [], lost = [], published = [], deliveries = []\<rparr>"

definition replaced :: "message \<Rightarrow> err option \<Rightarrow> broker \<Rightarrow> (string \<times> message) list" where
  "replaced m r b =
     (case r of
        None \<Rightarrow> []
      | Some e \<Rightarrow>
          if is_terminal e \<or> sint (attempts m) \<ge> sint (max_attempts b) then []
          else map (\<lambda>x. (queue (msg (snd x)), msg (snd x))) (filter (\<lambda>x. fst x = msg_id m) (inflight b)))"

inductive broker_step :: "broker_sys \<Rightarrow> broker_sys \<Rightarrow> bool" where
  publishes: "broker_step s (s\<lparr>the_broker := publish q m (the_broker s),
      published := published s @ [(q, queued q m)]\<rparr>)"
| takes: "mset ord = mset (inflight (the_broker s)) \<Longrightarrow> next_msg t ord q (the_broker s) = (Some m, b) \<Longrightarrow>
    broker_step s (s\<lparr>the_broker := b, held := (q, m) # held s, deliveries := deliveries s @ [m]\<rparr>)"
| polls: "mset ord = mset (inflight (the_broker s)) \<Longrightarrow> next_msg t ord q (the_broker s) = (None, b) \<Longrightarrow>
    broker_step s (s\<lparr>the_broker := b\<rparr>)"
| settles: "(q, m) \<in> set (held s) \<Longrightarrow> settle q m r t1 t2 (the_broker s) = Some b \<Longrightarrow>
    broker_step s (s\<lparr>the_broker := b, held := remove1 (q, m) (held s),
      acked := (if r = None then acked s @ [(q, m)] else acked s),
      lost := lost s @ replaced m r (the_broker s)\<rparr>)"

inductive broker_reach :: "broker_sys \<Rightarrow> broker_sys \<Rightarrow> bool" for s0 where
  start: "broker_reach s0 s0"
| step: "broker_reach s0 s \<Longrightarrow> broker_step s t \<Longrightarrow> broker_reach s0 t"

text \<open>The IDs of the messages of one queue, wherever they are.\<close>

definition parked_in :: "string \<Rightarrow> broker \<Rightarrow> message list" where
  "parked_in q b = map (msg \<circ> snd) (filter (\<lambda>x. queue (msg (snd x)) = q) (inflight b))"

definition live :: "string \<Rightarrow> broker \<Rightarrow> message multiset" where
  "live q b = mset (map msg (ready b q)) + mset (parked_in q b)"

definition of_queue :: "string \<Rightarrow> (string \<times> 'a) list \<Rightarrow> 'a list" where
  "of_queue q xs = map snd (filter (\<lambda>x. fst x = q) xs)"

definition everywhere :: "string \<Rightarrow> broker_sys \<Rightarrow> string multiset" where
  "everywhere q s = image_mset msg_id (live q (the_broker s) + mset (dlq (the_broker s) q) +
     mset (of_queue q (held s)) + mset (of_queue q (acked s)) + mset (of_queue q (lost s)))"

definition pub_count :: "string \<Rightarrow> broker_sys \<Rightarrow> nat" where
  "pub_count i s = length (filter (\<lambda>x. msg_id (snd x) = i) (published s))"

definition broker_ok :: "broker \<Rightarrow> bool" where
  [inv_defs]: "broker_ok b \<longleftrightarrow> distinct (map fst (inflight b)) \<and>
     (\<forall>(i, p) \<in> set (inflight b). msg_id (msg p) = i) \<and>
     (\<forall>q. \<forall>p \<in> set (ready b q). queue (msg p) = q)"

text \<open>How often the message with an ID was handed out, and the attempt it is on.\<close>

definition tries :: "string \<Rightarrow> broker_sys \<Rightarrow> nat" where
  "tries i s = length (filter (\<lambda>m. msg_id m = i) (deliveries s))"

definition attempt_cap :: "broker_sys \<Rightarrow> int" where
  "attempt_cap s = sint (max_attempts (the_broker s))"

definition broker_inv :: "broker_sys \<Rightarrow> bool" where
  [inv_defs]: "broker_inv s \<longleftrightarrow> broker_ok (the_broker s) \<and>
     (\<forall>q. everywhere q s = image_mset msg_id (mset (of_queue q (published s)))) \<and>
     (\<forall>(q, m) \<in> set (lost s). 2 \<le> pub_count (msg_id m) s)"

text \<open>Where the attempts of the one message with ID \<open>i\<close> stand, from \<open>n\<close> on.\<close>

definition id_inv :: "string \<Rightarrow> int \<Rightarrow> broker_sys \<Rightarrow> bool" where
  [inv_defs]: "id_inv i n s \<longleftrightarrow>
     map (\<lambda>m. sint (attempts m)) (filter (\<lambda>m. msg_id m = i) (deliveries s)) =
       map (\<lambda>k. n + int k) [0..<tries i s] \<and>
     n + int (tries i s) \<le> max n (attempt_cap s) + 1 \<and>
     (\<forall>q. \<forall>m \<in># live q (the_broker s). msg_id m = i \<longrightarrow>
        sint (attempts m) = n + int (tries i s) \<and> (0 < tries i s \<longrightarrow> n + int (tries i s) \<le> attempt_cap s)) \<and>
     (\<forall>(q, m) \<in> set (held s). msg_id m = i \<longrightarrow>
        sint (attempts m) + 1 = n + int (tries i s) \<and> 0 < tries i s)"

definition tries_inv :: "broker_sys \<Rightarrow> bool" where
  [inv_defs]: "tries_inv s \<longleftrightarrow> (\<forall>m \<in> set (deliveries s). 0 < pub_count (msg_id m) s) \<and>
     (\<forall>(q, m) \<in> set (published s). pub_count (msg_id m) s = 1 \<longrightarrow> id_inv (msg_id m) (sint (attempts m)) s)"

text \<open>Attempt numbers are positive when the published ones are.\<close>

definition pos_inv :: "broker_sys \<Rightarrow> bool" where
  [inv_defs]: "pos_inv s \<longleftrightarrow> (\<forall>(q, m) \<in> set (published s). attempts m \<noteq> 0) \<and>
     (\<forall>q. (\<forall>m \<in> set (of_queue q (published s)). 1 \<le> sint (attempts m)) \<longrightarrow>
        (\<forall>m \<in># live q (the_broker s) + mset (of_queue q (held s)). 1 \<le> sint (attempts m)))"

subsection \<open>Lemmas\<close>

lemma promote_fields [simp]:
  "dlq (promote now ord b) = dlq b" "max_attempts (promote now ord b) = max_attempts b"
  "backoff (promote now ord b) = backoff b"
  by (induction ord arbitrary: b) (auto simp: promote_def)

lemma promote_inflight:
  "inflight (promote now ord b) =
     filter (\<lambda>x. fst x \<notin> fst ` set (filter (\<lambda>y. \<not> now < visible_at (snd y)) ord)) (inflight b)"
proof (induction ord arbitrary: b)
  case Nil
  then show ?case by (simp add: promote_def)
next
  case (Cons x ord)
  then show ?case
    by (cases x) (auto simp: promote_def del_def intro!: filter_cong)
qed

lemma promote_ready:
  "ready (promote now ord b) q = ready b q @
     map snd (filter (\<lambda>x. \<not> now < visible_at (snd x) \<and> queue (msg (snd x)) = q) ord)"
proof (induction ord arbitrary: b)
  case Nil
  then show ?case by (simp add: promote_def)
next
  case (Cons x ord)
  then show ?case by (cases x) (auto simp: promote_def)
qed

lemma image_filter_split:
  "image_mset f {#x \<in># M. P x#} =
   image_mset f {#x \<in># M. \<not> N x \<and> P x#} + image_mset f {#x \<in># M. N x \<and> P x#}"
  by (induction M) auto

lemma promote_lawful:
  assumes "mset ord = mset (inflight b)" "broker_ok b"
  shows "inflight (promote now ord b) = filter (\<lambda>x. now < visible_at (snd x)) (inflight b)"
    "live q (promote now ord b) = live q b" "broker_ok (promote now ord b)"
proof -
  have set: "set ord = set (inflight b)" using assms(1) by (metis set_mset_mset)
  have dist: "distinct (map fst (inflight b))" using assms(2) by (simp add: broker_ok_def)
  show infl: "inflight (promote now ord b) = filter (\<lambda>x. now < visible_at (snd x)) (inflight b)"
    unfolding promote_inflight set
    by (rule filter_cong) (use set dist in \<open>auto simp: image_iff dest: eq_key_imp_eq_value\<close>)
  have "mset (map msg (ready (promote now ord b) q)) = mset (map msg (ready b q)) +
      image_mset (msg \<circ> snd) {#x \<in># mset (inflight b). \<not> now < visible_at (snd x) \<and> queue (msg (snd x)) = q#}"
    for q
    by (simp add: promote_ready multiset.map_comp assms(1))
  then show "live q (promote now ord b) = live q b"
    using image_filter_split [of "msg \<circ> snd" "\<lambda>x. queue (msg (snd x)) = q" "mset (inflight b)"
        "\<lambda>x. now < visible_at (snd x)"]
    by (simp add: live_def parked_in_def infl)
  show "broker_ok (promote now ord b)"
    using assms(2) set unfolding broker_ok_def infl
    by (auto simp: promote_ready distinct_map_filter)
qed

lemma next_msg_None: "next_msg t ord q b = (None, b') \<Longrightarrow> b' = promote t ord b"
  by (auto simp: next_msg_def Let_def split: list.splits)

lemma next_msg_Some:
  assumes "next_msg t ord q b = (Some m, b')" "mset ord = mset (inflight b)" "broker_ok b"
  shows "broker_ok b'" "live q b = add_mset m (live q b')" "q' \<noteq> q \<Longrightarrow> live q' b' = live q' b"
    "queue m = q" "dlq b' = dlq b" "max_attempts b' = max_attempts b" "backoff b' = backoff b"
proof -
  let ?b1 = "promote t ord b" and ?late = "\<lambda>p. t < visible_at p"
  obtain p rest where dw: "dropWhile ?late (ready ?b1 q) = p # rest" and m: "m = msg p"
    and b': "b' = ?b1\<lparr>ready := (ready ?b1)(q := takeWhile ?late (ready ?b1 q) @ rest)\<rparr>"
    using assms(1) by (auto simp: next_msg_def Let_def split: list.splits)
  have r: "ready ?b1 q = takeWhile ?late (ready ?b1 q) @ p # rest"
    using dw takeWhile_dropWhile_id [of ?late "ready ?b1 q"] by simp
  note ok = promote_lawful [OF assms(2,3), where now = t]
  have pin: "p \<in> set (ready ?b1 q)" by (subst r) simp
  then show "queue m = q" using ok(3) by (simp add: m broker_ok_def)
  have "set (takeWhile ?late (ready ?b1 q) @ rest) \<subseteq> set (ready ?b1 q)"
    by (subst (2) r) auto
  then show "broker_ok b'" using ok(3) unfolding b' broker_ok_def by auto
  have "mset (map msg (ready ?b1 q)) = add_mset m (mset (map msg (takeWhile ?late (ready ?b1 q) @ rest)))"
    by (subst r) (simp add: m)
  then have "live q ?b1 = add_mset m (live q b')" by (simp add: live_def parked_in_def b')
  then show "live q b = add_mset m (live q b')" by (simp only: ok(2))
  show "q' \<noteq> q \<Longrightarrow> live q' b' = live q' b"
    using ok(2) by (simp add: live_def parked_in_def b')
  show "dlq b' = dlq b" "max_attempts b' = max_attempts b" "backoff b' = backoff b"
    by (simp_all add: b')
qed

lemma stamp_simps [simp]: "msg_id (stamp t m) = msg_id m" "queue (stamp t m) = queue m"
  "attempts (stamp t m) = attempts m"
  by (simp_all add: stamp_def)

text \<open>The three ways a message is settled.\<close>

lemma settle_cases:
  assumes "settle q m r t1 t2 b = Some b'"
  obtains (ack) "r = None" "b' = b"
    | (dead) e where "r \<noteq> None" "b' = dead q m e t1 b" "replaced m r b = []"
    | (parked) m' v where "r \<noteq> None" "sint (attempts m) < sint (max_attempts b)" "msg_id m' = msg_id m" "queue m' = q"
        "attempts m' = attempts m + 1"
        "b' = b\<lparr>inflight := ins (msg_id m) \<lparr>msg = m', visible_at = v\<rparr> (inflight b)\<rparr>"
        "replaced m r b = map (\<lambda>x. (queue (msg (snd x)), msg (snd x))) (filter (\<lambda>x. fst x = msg_id m) (inflight b))"
proof (cases r)
  case None
  then show ?thesis using assms ack by (simp add: settle_def)
next
  case (Some e)
  show ?thesis
  proof (cases "is_terminal e \<or> sint (max_attempts b) \<le> sint (attempts m)")
    case True
    then show ?thesis using assms Some dead by (auto simp: settle_def replaced_def split: if_splits)
  next
    case False
    let ?m = "(stamp t1 m)\<lparr>queue := q, attempts := attempts m + 1, dead_letter_reason := err_text e\<rparr>"
    show ?thesis
      by (rule parked [of ?m "t2 + sint (push_bit (nat (sint (attempts m - 1))) (backoff b))"])
        (use False assms Some in \<open>auto simp: settle_def redeliver_def replaced_def Let_def split: if_splits\<close>)
  qed
qed

lemma settle_Some:
  assumes "1 \<le> sint (attempts m)"
  shows "\<exists>b'. settle q m r t1 t2 b = Some b'"
proof -
  have "sint (attempts m - 1) = sint (attempts m) - 1"
    using assms sint64_bounds [of "attempts m"] by (subst sint64_sub) simp_all
  then show ?thesis
    using assms by (auto simp: settle_def redeliver_def Let_def split: option.splits)
qed

lemma mset_filter_del:
  "mset (filter P xs) = mset (filter P (del k xs)) + mset (filter P (filter (\<lambda>x. fst x = k) xs))"
  unfolding del_def mset_filter by (induction xs) auto

text \<open>Settling a message loses nothing but what \<open>replaced\<close> lists.\<close>

lemma settle_live:
  assumes "settle q m r t1 t2 b = Some b'" "broker_ok b"
  shows "broker_ok b'" "max_attempts b' = max_attempts b"
    "image_mset msg_id (live q' b' + mset (dlq b' q') + mset (of_queue q' (replaced m r b))) =
       image_mset msg_id (live q' b + mset (dlq b q')) + (if r = None \<or> q' \<noteq> q then {#} else {#msg_id m#})"
proof -
  have "broker_ok b' \<and> max_attempts b' = max_attempts b \<and>
    image_mset msg_id (live q' b' + mset (dlq b' q') + mset (of_queue q' (replaced m r b))) =
       image_mset msg_id (live q' b + mset (dlq b q')) + (if r = None \<or> q' \<noteq> q then {#} else {#msg_id m#})"
    using assms(1)
  proof (cases rule: settle_cases)
    case ack
    then show ?thesis using assms(2) by (simp add: replaced_def of_queue_def)
  next
    case (dead e)
    then show ?thesis using assms(2) by (auto simp: broker_ok_def live_def parked_in_def dead_def of_queue_def)
  next
    case (parked m' v)
    let ?P = "\<lambda>x. queue (msg (snd x)) = q'"
    have ok: "broker_ok b'"
      using assms(2) parked by (auto simp: broker_ok_def distinct_ins) (auto simp: ins_def del_def)
    have rp: "mset (of_queue q' (replaced m r b)) =
        image_mset (msg \<circ> snd) (mset (filter ?P (filter (\<lambda>x. fst x = msg_id m) (inflight b))))"
      unfolding parked(7) by (simp add: of_queue_def filter_map comp_def multiset.map_comp)
    have "mset (parked_in q' b') = (if q' = q then {#m'#} else {#}) +
        image_mset (msg \<circ> snd) (mset (filter ?P (del (msg_id m) (inflight b))))"
      by (simp add: parked_in_def parked(4,6) ins_def)
    then have "mset (parked_in q' b') + mset (of_queue q' (replaced m r b)) =
        (if q' = q then {#m'#} else {#}) + mset (parked_in q' b)"
      unfolding rp parked_in_def mset_map mset_filter_del [of ?P "inflight b" "msg_id m"] by simp
    then have "image_mset msg_id (mset (parked_in q' b')) + image_mset msg_id (mset (of_queue q' (replaced m r b))) =
        (if q' = q then {#msg_id m#} else {#}) + image_mset msg_id (mset (parked_in q' b))"
      unfolding image_mset_union [symmetric] using parked(3) by simp
    then show ?thesis using ok parked(1,6) by (simp add: live_def ac_simps)
  qed
  then show "broker_ok b'" "max_attempts b' = max_attempts b"
    "image_mset msg_id (live q' b' + mset (dlq b' q') + mset (of_queue q' (replaced m r b))) =
       image_mset msg_id (live q' b + mset (dlq b q')) + (if r = None \<or> q' \<noteq> q then {#} else {#msg_id m#})"
    by blast+
qed

lemma publish_live:
  assumes "broker_ok b"
  shows "broker_ok (publish q m b)" "q' \<noteq> q \<Longrightarrow> live q' (publish q m b) = live q' b"
    "live q (publish q m b) = add_mset (queued q m) (live q b)"
    "dlq (publish q m b) = dlq b" "max_attempts (publish q m b) = max_attempts b"
  using assms by (auto simp: publish_def queued_def Let_def broker_ok_def live_def parked_in_def)

lemma queued_simps [simp]: "msg_id (queued q m) = msg_id m" "queue (queued q m) = q"
  "attempts (queued q m) = (if attempts m = 0 then 1 else attempts m)"
  by (simp_all add: queued_def)

lemma of_queue_simps [simp]: "of_queue q [] = []" "of_queue q (xs @ ys) = of_queue q xs @ of_queue q ys"
  "of_queue q ((q', x) # xs) = (if q' = q then [x] else []) @ of_queue q xs"
  by (simp_all add: of_queue_def)

lemma in_of_queue: "x \<in> set (of_queue q xs) \<longleftrightarrow> (q, x) \<in> set xs"
  by (force simp: of_queue_def)

lemma of_queue_remove1:
  "(q, x) \<in> set xs \<Longrightarrow> mset (of_queue q xs) = add_mset x (mset (of_queue q (remove1 (q, x) xs)))"
  "q' \<noteq> q \<Longrightarrow> of_queue q' (remove1 (q, x) xs) = of_queue q' xs"
  by (induction xs) (auto simp: of_queue_def)

text \<open>A message in some place has been published; if its ID was published once, it is in no other place.\<close>

lemma everywhere_published:
  assumes "broker_inv s" "i \<in># everywhere q s"
  obtains m where "(q, m) \<in> set (published s)" "msg_id m = i"
  using assms by (auto simp: broker_inv_def of_queue_def)

lemma pub_count_pos: "(q, m) \<in> set (published s) \<Longrightarrow> 0 < pub_count (msg_id m) s"
  by (force simp: pub_count_def filter_empty_conv)

lemma everywhere_pos: "broker_inv s \<Longrightarrow> i \<in># everywhere q s \<Longrightarrow> 0 < pub_count i s"
  using everywhere_published pub_count_pos by metis

lemma pub_count_same:
  assumes "pub_count i s \<le> 1" "(q, m) \<in> set (published s)" "(q', m') \<in> set (published s)" "msg_id m = i" "msg_id m' = i"
  shows "(q', m') = (q, m)"
proof -
  let ?xs = "filter (\<lambda>x. msg_id (snd x) = i) (published s)"
  have "(q, m) \<in> set ?xs" "(q', m') \<in> set ?xs" "length ?xs \<le> 1" using assms by (simp_all add: pub_count_def)
  then show ?thesis by (cases ?xs) auto
qed

lemma of_queue_count:
  "count (image_mset msg_id (mset (of_queue q xs))) i \<le> length (filter (\<lambda>x. msg_id (snd x) = i) xs)"
  by (induction xs) (auto simp: of_queue_def)

lemma everywhere_unique:
  assumes "broker_inv s" "pub_count i s \<le> 1" "i \<in># everywhere q s" "i \<in># everywhere q' s"
  shows "q' = q" "count (everywhere q s) i = 1"
proof -
  show "q' = q" using everywhere_published [OF assms(1)] assms(3,4) pub_count_same [OF assms(2)] by (metis Pair_inject)
  have "count (everywhere q s) i \<le> 1"
    using assms(1,2) of_queue_count [of q "published s" i] by (simp add: broker_inv_def pub_count_def)
  moreover have "0 < count (everywhere q s) i" using assms(3) by (simp only: count_greater_zero_iff)
  ultimately show "count (everywhere q s) i = 1" by linarith
qed

lemma everywhere_twice:
  assumes "i \<in># image_mset msg_id (live q (the_broker s))" "i \<in># image_mset msg_id (mset (of_queue q (held s)))"
  shows "count (everywhere q s) i \<noteq> 1"
proof -
  have "0 < count (image_mset msg_id (live q (the_broker s))) i"
    "0 < count (image_mset msg_id (mset (of_queue q (held s)))) i"
    using assms by (simp_all only: count_greater_zero_iff)
  then show ?thesis unfolding everywhere_def image_mset_union count_union by linarith
qed

lemma live_everywhere: "m \<in># live q (the_broker s) \<Longrightarrow> msg_id m \<in># everywhere q s"
  by (simp add: everywhere_def)

lemma held_everywhere: "(q, m) \<in> set (held s) \<Longrightarrow> msg_id m \<in># everywhere q s"
  by (simp add: everywhere_def in_of_queue)

lemma live_held_differ:
  assumes "broker_inv s" "x \<in># live q' (the_broker s)" "(q, m) \<in> set (held s)" "pub_count (msg_id m) s \<le> 1"
  shows "msg_id x \<noteq> msg_id m"
proof
  assume eq: "msg_id x = msg_id m"
  from everywhere_unique [OF assms(1,4) held_everywhere [OF assms(3)], of q'] live_everywhere [OF assms(2)] eq
  have "q' = q" "count (everywhere q s) (msg_id m) = 1" by simp_all
  moreover have "msg_id m \<in># image_mset msg_id (live q' (the_broker s))"
    using assms(2) by (simp add: eq [symmetric])
  moreover have "msg_id m \<in># image_mset msg_id (mset (of_queue q (held s)))"
    using assms(3) by (simp add: in_of_queue)
  ultimately show False using everywhere_twice [of "msg_id m" q s] by simp
qed

lemma in_live:
  "x \<in># live q b \<longleftrightarrow> (\<exists>p \<in> set (ready b q). x = msg p) \<or>
     (\<exists>i p. (i, p) \<in> set (inflight b) \<and> queue (msg p) = q \<and> x = msg p)"
  by (force simp: live_def parked_in_def)

lemma replaced_twice:
  assumes "broker_inv s" "(q, m) \<in> set (held s)" "(q', x) \<in> set (replaced m r (the_broker s))"
  shows "msg_id x = msg_id m \<and> 2 \<le> pub_count (msg_id m) s"
proof -
  obtain p where p: "(msg_id m, p) \<in> set (inflight (the_broker s))" "x = msg p" "q' = queue (msg p)"
    using assms(3) by (auto simp: replaced_def split: option.splits if_splits)
  then have x: "msg_id x = msg_id m" using assms(1) by (auto simp: broker_inv_def broker_ok_def)
  have "x \<in># live q' (the_broker s)" using p by (auto simp: in_live)
  from live_held_differ [OF assms(1) this assms(2)] x have "\<not> pub_count (msg_id m) s \<le> 1" by blast
  with x show ?thesis by simp
qed

lemma broker_step_inv: "broker_step s t \<Longrightarrow> broker_inv s \<Longrightarrow> broker_inv t"
proof (induction rule: broker_step.induct)
  case (publishes s q m)
  have "pub_count i (s\<lparr>the_broker := publish q m (the_broker s), published := published s @ [(q, queued q m)]\<rparr>) \<ge> pub_count i s" for i
    by (simp add: pub_count_def)
  note more = order_trans [OF _ this]
  show ?case
    using publishes publish_live [where b = "the_broker s" and m = m and q = q] unfolding broker_inv_def
    by (auto simp: everywhere_def intro: more)
next
  case (takes ord s t q m b)
  then have ok: "broker_ok (the_broker s)" by (simp add: broker_inv_def)
  note n = next_msg_Some [OF takes(2,1) ok]
  have "everywhere q' (s\<lparr>the_broker := b, held := (q, m) # held s, deliveries := deliveries s @ [m]\<rparr>) = everywhere q' s" for q'
    using n(2) n(3) [of q'] by (cases "q' = q") (simp_all add: everywhere_def n(5))
  then show ?case using takes(3) n(1) by (simp add: broker_inv_def pub_count_def)
next
  case (polls ord s t q b)
  then have ok: "broker_ok (the_broker s)" by (simp add: broker_inv_def)
  from promote_lawful [OF polls(1) ok] polls(3) show ?case
    by (auto simp: next_msg_None [OF polls(2)] broker_inv_def everywhere_def pub_count_def)
next
  case (settles q m s r t1 t2 b)
  then have ok: "broker_ok (the_broker s)" by (simp add: broker_inv_def)
  note l = settle_live [OF settles(2) ok]
  let ?s = "s\<lparr>the_broker := b, held := remove1 (q, m) (held s),
      acked := (if r = None then acked s @ [(q, m)] else acked s), lost := lost s @ replaced m r (the_broker s)\<rparr>"
  have "everywhere q' ?s = everywhere q' s" for q'
  proof -
    have "image_mset msg_id (mset (of_queue q' (held s))) + (if r = None \<and> q' = q then {#} else {#}) =
        image_mset msg_id (mset (of_queue q' (remove1 (q, m) (held s)))) + (if q' = q then {#msg_id m#} else {#})"
      using of_queue_remove1(1) [of q m "held s"] of_queue_remove1(2) [of q' q m "held s"] settles(1) by (cases "q' = q") simp_all
    then show ?thesis using l(3) [of q'] by (auto simp: everywhere_def ac_simps)
  qed
  moreover have "pub_count i ?s = pub_count i s" for i by (simp add: pub_count_def)
  ultimately show ?case
    using settles(3) l(1) replaced_twice [OF settles(3,1)] by (fastforce simp: broker_inv_def)
qed

lemma broker_init_inv: "broker_inv (broker_init n d)" "tries_inv (broker_init n d)" "pos_inv (broker_init n d)"
  by (simp_all add: broker_inv_def tries_inv_def pos_inv_def broker_init_def new_broker_def broker_ok_def
      everywhere_def live_def parked_in_def of_queue_def)

lemma broker_reach_inv: "broker_reach (broker_init n d) s \<Longrightarrow> broker_inv s"
  by (induction rule: broker_reach.induct) (auto intro: broker_step_inv broker_init_inv)

lemma settle_live_cases:
  assumes "settle q m r t1 t2 b = Some b'" "x \<in># live q' b'"
  shows "x \<in># live q' b \<or> (q' = q \<and> msg_id x = msg_id m \<and> sint (attempts x) = sint (attempts m) + 1 \<and>
    sint (attempts x) \<le> sint (max_attempts b))"
  using assms(1)
proof (cases rule: settle_cases)
  case ack
  then show ?thesis using assms(2) by simp
next
  case (dead e)
  then have "live q' b' = live q' b" by (simp add: live_def parked_in_def dead_def)
  then show ?thesis using assms(2) by simp
next
  case (parked m' v)
  have "x = m' \<and> q' = q \<or> x \<in># live q' b"
    using assms(2) parked(4) unfolding in_live parked(6) by (auto simp: ins_def del_def)
  moreover have "sint (attempts m') = sint (attempts m) + 1"
    using parked(2,5) sint64_bounds [of "attempts m"] sint64_bounds [of "max_attempts b"] by (simp add: sint64_add)
  ultimately show ?thesis using parked(2,3) by auto
qed

lemma live_mset_in: "(\<forall>m \<in># live q b + mset (of_queue q xs). P m) \<longleftrightarrow>
  (\<forall>m \<in># live q b. P m) \<and> (\<forall>m. (q, m) \<in> set xs \<longrightarrow> P m)"
  by (auto simp: in_of_queue)

lemma pos_invI:
  assumes "\<forall>(q, m) \<in> set (published s). attempts m \<noteq> 0"
    and "\<And>q. \<forall>m \<in> set (of_queue q (published s)). 1 \<le> sint (attempts m) \<Longrightarrow>
      (\<forall>m \<in># live q (the_broker s). 1 \<le> sint (attempts m)) \<and> (\<forall>m. (q, m) \<in> set (held s) \<longrightarrow> 1 \<le> sint (attempts m))"
  shows "pos_inv s"
  unfolding pos_inv_def live_mset_in using assms by blast

lemma pos_invD:
  assumes "pos_inv s" "\<forall>m \<in> set (of_queue q (published s)). 1 \<le> sint (attempts m)"
  shows "(\<forall>m \<in># live q (the_broker s). 1 \<le> sint (attempts m)) \<and> (\<forall>m. (q, m) \<in> set (held s) \<longrightarrow> 1 \<le> sint (attempts m))"
proof -
  have "(\<forall>m \<in> set (of_queue q (published s)). 1 \<le> sint (attempts m)) \<longrightarrow>
      (\<forall>m \<in># live q (the_broker s). 1 \<le> sint (attempts m)) \<and> (\<forall>m. (q, m) \<in> set (held s) \<longrightarrow> 1 \<le> sint (attempts m))"
    using assms(1) unfolding pos_inv_def live_mset_in by (rule spec [OF conjunct2])
  then show ?thesis using assms(2) by (rule mp)
qed

lemma pos_step_inv:
  assumes "broker_step s t" "broker_inv s" "pos_inv s"
  shows "pos_inv t"
proof -
  have ok: "broker_ok (the_broker s)" using assms(2) by (simp add: broker_inv_def)
  note IH = pos_invD [OF assms(3)]
  have nz: "\<forall>(q, m) \<in> set (published s). attempts m \<noteq> 0" using assms(3) by (simp add: pos_inv_def)
  from assms(1) show ?thesis
  proof cases
    case (publishes q m)
    have "(\<forall>m \<in># live q' (publish q m (the_broker s)). 1 \<le> sint (attempts m)) \<and>
        (\<forall>m. (q', m) \<in> set (held s) \<longrightarrow> 1 \<le> sint (attempts m))"
      if "\<forall>m \<in> set (of_queue q' (published s @ [(q, queued q m)])). 1 \<le> sint (attempts m)" for q'
    proof -
      have "\<forall>m \<in> set (of_queue q' (published s)). 1 \<le> sint (attempts m)" using that by simp
      note I = IH [OF this]
      have "q' = q \<Longrightarrow> 1 \<le> sint (attempts (queued q m))" using that by simp
      then show ?thesis using I publish_live(2,3) [OF ok, where m = m and q = q] by (cases "q' = q") simp_all
    qed
    note * = this
    show ?thesis
    proof (rule pos_invI)
      show "\<forall>(q, m) \<in> set (published t). attempts m \<noteq> 0" using nz by (auto simp: publishes(1))
    next
      fix q' assume "\<forall>m \<in> set (of_queue q' (published t)). 1 \<le> sint (attempts m)"
      then have "\<forall>m \<in> set (of_queue q' (published s @ [(q, queued q m)])). 1 \<le> sint (attempts m)" unfolding publishes(1) by simp
      from * [OF this] show "(\<forall>m \<in># live q' (the_broker t). 1 \<le> sint (attempts m)) \<and>
          (\<forall>m. (q', m) \<in> set (held t) \<longrightarrow> 1 \<le> sint (attempts m))" unfolding publishes(1) by simp
    qed
  next
    case (takes ord now q m b)
    note n = next_msg_Some [OF takes(3,2) ok]
    have "(\<forall>x \<in># live q' b. 1 \<le> sint (attempts x)) \<and> (\<forall>x. (q', x) \<in> set ((q, m) # held s) \<longrightarrow> 1 \<le> sint (attempts x))"
      if "\<forall>m \<in> set (of_queue q' (published s)). 1 \<le> sint (attempts m)" for q'
    proof -
      note I = IH [OF that]
      have m: "m \<in># live q (the_broker s)" and sub: "set_mset (live q b) \<subseteq> set_mset (live q (the_broker s))"
        by (simp_all add: n(2) subset_insertI)
      have "set_mset (live q' b) \<subseteq> set_mset (live q' (the_broker s))"
        using sub n(3) [of q'] by (cases "q' = q") simp_all
      then have "\<forall>x \<in># live q' b. 1 \<le> sint (attempts x)" using I by blast
      moreover have "q' = q \<Longrightarrow> 1 \<le> sint (attempts m)" using I m by blast
      ultimately show ?thesis using I by simp
    qed
    note * = this
    show ?thesis
    proof (rule pos_invI)
      show "\<forall>(q, m) \<in> set (published t). attempts m \<noteq> 0" using nz by (simp add: takes(1))
    next
      fix q' assume "\<forall>m \<in> set (of_queue q' (published t)). 1 \<le> sint (attempts m)"
      then have "\<forall>m \<in> set (of_queue q' (published s)). 1 \<le> sint (attempts m)" unfolding takes(1) by simp
      from * [OF this] show "(\<forall>m \<in># live q' (the_broker t). 1 \<le> sint (attempts m)) \<and>
          (\<forall>m. (q', m) \<in> set (held t) \<longrightarrow> 1 \<le> sint (attempts m))" unfolding takes(1) by simp
    qed
  next
    case (polls ord now q b)
    then show ?thesis
      using assms(3) promote_lawful(2) [OF polls(2) ok] by (simp add: next_msg_None [OF polls(3)] pos_inv_def)
  next
    case (settles q m r t1 t2 b)
    have "(\<forall>x \<in># live q' b. 1 \<le> sint (attempts x)) \<and> (\<forall>x. (q', x) \<in> set (remove1 (q, m) (held s)) \<longrightarrow> 1 \<le> sint (attempts x))"
      if "\<forall>m \<in> set (of_queue q' (published s)). 1 \<le> sint (attempts m)" for q'
    proof -
      note I = IH [OF that]
      have "1 \<le> sint (attempts x)" if "x \<in># live q' b" for x
        using settle_live_cases [OF settles(3) that]
      proof (elim disjE conjE)
        assume "x \<in># live q' (the_broker s)"
        then show ?thesis using I by blast
      next
        assume "q' = q" "sint (attempts x) = sint (attempts m) + 1"
        moreover from this have "1 \<le> sint (attempts m)" using I settles(2) by blast
        ultimately show ?thesis by linarith
      qed
      moreover have "set (remove1 (q, m) (held s)) \<subseteq> set (held s)" by (rule set_remove1_subset)
      ultimately show ?thesis using I by blast
    qed
    note * = this
    show ?thesis
    proof (rule pos_invI)
      show "\<forall>(q, m) \<in> set (published t). attempts m \<noteq> 0" using nz by (simp add: settles(1))
    next
      fix q' assume "\<forall>m \<in> set (of_queue q' (published t)). 1 \<le> sint (attempts m)"
      then have "\<forall>m \<in> set (of_queue q' (published s)). 1 \<le> sint (attempts m)" unfolding settles(1) by simp
      from * [OF this] show "(\<forall>m \<in># live q' (the_broker t). 1 \<le> sint (attempts m)) \<and>
          (\<forall>m. (q', m) \<in> set (held t) \<longrightarrow> 1 \<le> sint (attempts m))" unfolding settles(1) by simp
    qed
  qed
qed

lemma broker_reach_pos: "broker_reach (broker_init n d) s \<Longrightarrow> pos_inv s"
proof (induction rule: broker_reach.induct)
  case start
  then show ?case by (rule broker_init_inv)
next
  case (step s t)
  then show ?case using pos_step_inv broker_reach_inv by blast
qed

text \<open>The attempts of a message published under an ID of its own.\<close>

lemma tries_publishes:
  assumes "broker_inv s" "tries_inv s"
  shows "tries_inv (s\<lparr>the_broker := publish q m (the_broker s), published := published s @ [(q, queued q m)]\<rparr>)"
proof -
  let ?s = "s\<lparr>the_broker := publish q m (the_broker s), published := published s @ [(q, queued q m)]\<rparr>"
  have ok: "broker_ok (the_broker s)" using assms(1) by (simp add: broker_inv_def)
  note p = publish_live [OF ok, where m = m and q = q]
  have same: "tries i ?s = tries i s" "attempt_cap ?s = attempt_cap s" for i
    by (simp_all add: tries_def attempt_cap_def p)
  have pc: "pub_count i ?s = pub_count i s + (if i = msg_id m then 1 else 0)" for i by (simp add: pub_count_def)
  have lv: "x \<in># live q' (publish q m (the_broker s)) \<longleftrightarrow> x \<in># live q' (the_broker s) \<or> q' = q \<and> x = queued q m" for x q'
    using p(2) [of q'] p(3) by (cases "q' = q") auto
  have known: "x \<in># live q' (the_broker s) \<or> (q', x) \<in> set (held s) \<Longrightarrow> 0 < pub_count (msg_id x) s" for x q'
    using live_everywhere held_everywhere everywhere_pos [OF assms(1)] by blast
  have "id_inv (msg_id m0) (sint (attempts m0)) ?s"
    if "(q0, m0) \<in> set (published ?s)" "pub_count (msg_id m0) ?s = 1" for q0 m0
  proof (cases "msg_id m0 = msg_id m")
    case True
    then have zero: "pub_count (msg_id m0) s = 0" using that(2) pc [of "msg_id m0"] by simp
    then have m0: "m0 = queued q m" using that(1) pub_count_pos by fastforce
    have "tries (msg_id m0) s = 0" "filter (\<lambda>x. msg_id x = msg_id m0) (deliveries s) = []"
      using assms(2) zero by (auto simp: tries_inv_def tries_def filter_empty_conv)
    moreover have "x \<notin># live q' (the_broker s)" "(q', x) \<notin> set (held s)" if "msg_id x = msg_id m0" for q' x
      using known [of x q'] zero that by auto
    ultimately show ?thesis unfolding id_inv_def same by (auto simp: lv m0)
  next
    case False
    then have "id_inv (msg_id m0) (sint (attempts m0)) s"
      using assms(2) that pc [of "msg_id m0"] by (auto simp: tries_inv_def)
    then show ?thesis using False unfolding id_inv_def same by (auto simp: lv)
  qed
  moreover have "\<forall>x \<in> set (deliveries ?s). 0 < pub_count (msg_id x) ?s"
    using assms(2) by (simp add: tries_inv_def pc)
  ultimately show ?thesis unfolding tries_inv_def by blast
qed

lemma tries_takes:
  assumes "mset ord = mset (inflight (the_broker s))" "next_msg t ord q (the_broker s) = (Some m, b)"
    and "broker_inv s" "tries_inv s"
  shows "tries_inv (s\<lparr>the_broker := b, held := (q, m) # held s, deliveries := deliveries s @ [m]\<rparr>)"
proof -
  let ?s = "s\<lparr>the_broker := b, held := (q, m) # held s, deliveries := deliveries s @ [m]\<rparr>"
  have inv: "broker_inv ?s"
    by (rule broker_step_inv [OF broker_step.takes [OF assms(1,2)] assms(3)])
  have ok: "broker_ok (the_broker s)" using assms(3) by (simp add: broker_inv_def)
  note n = next_msg_Some [OF assms(2,1) ok]
  have live_m: "m \<in># live q (the_broker s)" using n(2) by simp
  have tr: "tries i ?s = (if i = msg_id m then Suc (tries i s) else tries i s)" for i
    by (simp add: tries_def)
  have cap: "attempt_cap ?s = attempt_cap s" by (simp add: attempt_cap_def n)
  have pc: "pub_count i ?s = pub_count i s" for i by (simp add: pub_count_def)
  have sub: "x \<in># live q' (the_broker s)" if "x \<in># live q' b" for x q'
    using n(2,3) that by (cases "q' = q") auto
  have "id_inv (msg_id m0) (sint (attempts m0)) ?s"
    if "(q0, m0) \<in> set (published ?s)" "pub_count (msg_id m0) ?s = 1" for q0 m0
  proof -
    let ?i = "msg_id m0" and ?n = "sint (attempts m0)"
    have old: "id_inv ?i ?n s" using assms(4) that by (auto simp: tries_inv_def pc)
    show ?thesis
    proof (cases "msg_id m = ?i")
      case True
      have a: "sint (attempts m) = ?n + int (tries ?i s)" "0 < tries ?i s \<longrightarrow> ?n + int (tries ?i s) \<le> attempt_cap s"
        using old live_m True by (auto simp: id_inv_def)
      have none: "x \<in># live q' b \<Longrightarrow> msg_id x \<noteq> ?i" for x q'
        using live_held_differ [OF inv, of x q' q m] that(2) True by simp
      have none_held: "(q', x) \<in> set (held s) \<Longrightarrow> msg_id x \<noteq> ?i" for x q'
        using live_held_differ [OF assms(3) live_m, of q' x] that(2) True by (metis One_nat_def order_refl pc)
      have "map (\<lambda>m. sint (attempts m)) (filter (\<lambda>m. msg_id m = ?i) (deliveries ?s)) =
          map (\<lambda>k. ?n + int k) [0..<tries ?i ?s]"
        using old True a(1) by (simp add: id_inv_def tr)
      moreover have "?n + int (tries ?i ?s) \<le> max ?n (attempt_cap ?s) + 1"
        using a True cap tr by (cases "tries ?i s") simp_all
      ultimately show ?thesis using a True none none_held by (auto simp: id_inv_def tr cap)
    next
      case False
      then show ?thesis using old sub by (auto simp: id_inv_def tr cap)
    qed
  qed
  moreover have "\<forall>x \<in> set (deliveries ?s). 0 < pub_count (msg_id x) ?s"
    using assms(4) everywhere_pos [OF assms(3) live_everywhere [OF live_m]] by (auto simp: tries_inv_def pc)
  ultimately show ?thesis unfolding tries_inv_def by blast
qed

lemma tries_polls:
  assumes "mset ord = mset (inflight (the_broker s))" "next_msg t ord q (the_broker s) = (None, b)"
    and "broker_inv s" "tries_inv s"
  shows "tries_inv (s\<lparr>the_broker := b\<rparr>)"
proof -
  have ok: "broker_ok (the_broker s)" using assms(3) by (simp add: broker_inv_def)
  from promote_lawful(2) [OF assms(1) ok] assms(4) show ?thesis
    by (simp add: next_msg_None [OF assms(2)] tries_inv_def id_inv_def tries_def attempt_cap_def pub_count_def)
qed

lemma tries_settles:
  assumes "(q, m) \<in> set (held s)" "settle q m r t1 t2 (the_broker s) = Some b" "broker_inv s" "tries_inv s"
  shows "tries_inv (s\<lparr>the_broker := b, held := remove1 (q, m) (held s),
    acked := (if r = None then acked s @ [(q, m)] else acked s), lost := lost s @ replaced m r (the_broker s)\<rparr>)"
proof -
  let ?s = "s\<lparr>the_broker := b, held := remove1 (q, m) (held s),
      acked := (if r = None then acked s @ [(q, m)] else acked s), lost := lost s @ replaced m r (the_broker s)\<rparr>"
  have "max_attempts b = max_attempts (the_broker s)"
    using assms(2) by (auto elim!: settle_cases simp: dead_def)
  then have same: "tries i ?s = tries i s" "attempt_cap ?s = attempt_cap s" "pub_count i ?s = pub_count i s" for i
    by (simp_all add: tries_def attempt_cap_def pub_count_def)
  have sub: "set (remove1 (q, m) (held s)) \<subseteq> set (held s)" by (rule set_remove1_subset)
  have "id_inv i n ?s" if old: "id_inv i n s" for i n
  proof -
    have "sint (attempts x) = n + int (tries i s) \<and> (0 < tries i s \<longrightarrow> n + int (tries i s) \<le> attempt_cap s)"
      if "x \<in># live q' b" "msg_id x = i" for x q'
      using settle_live_cases [OF assms(2) that(1)] that(2) old assms(1)
      by (fastforce simp: id_inv_def attempt_cap_def)
    then show ?thesis using old sub by (auto simp: id_inv_def same)
  qed
  then show ?thesis using assms(4) by (auto simp: tries_inv_def same)
qed

lemma tries_step_inv: "broker_step s t \<Longrightarrow> broker_inv s \<Longrightarrow> tries_inv s \<Longrightarrow> tries_inv t"
  by (induction rule: broker_step.induct) (blast intro: tries_publishes tries_takes tries_polls tries_settles)+

subsection \<open>The consumer loop refines the steps\<close>

text \<open>The only law on the environment: \<^verbatim>\<open>range\<close> visits every entry of the map once.\<close>

definition lawful :: "'w consumer \<Rightarrow> bool" where
  "lawful env \<longleftrightarrow> (\<forall>xs w. mset (fst (map_order env xs w)) = mset xs)"

lemma settle_now_settle: "\<exists>t1 t2. fst (settle_now env q m r b w) = settle q m r t1 t2 b"
  by (cases r) (auto simp: settle_now_def settle_def Let_def split: prod.splits)

lemma broker_reach_tries: "broker_reach (broker_init n d) s \<Longrightarrow> tries_inv s"
proof (induction rule: broker_reach.induct)
  case start
  then show ?case by (rule broker_init_inv)
next
  case (step s t)
  then show ?case using tries_step_inv broker_reach_inv by blast
qed

lemma reach_max_attempts: "broker_reach (broker_init n d) s \<Longrightarrow> max_attempts (the_broker s) = n"
proof (induction rule: broker_reach.induct)
  case start
  then show ?case by (simp add: broker_init_def new_broker_def)
next
  case (step s t)
  from step(2) step(3) show ?case
    by cases (auto elim!: settle_cases simp: publish_def Let_def dead_def next_msg_def split: list.splits)
qed

lemma broker_reach_publish_all:
  "broker_reach s0 s \<Longrightarrow> broker_reach s0 (s\<lparr>the_broker := publish_all ps (the_broker s),
     published := published s @ map (\<lambda>(q, m). (q, queued q m)) ps\<rparr>)"
proof (induction ps arbitrary: s)
  case Nil
  then show ?case by (simp add: publish_all_def)
next
  case (Cons x ps)
  obtain q m where x: "x = (q, m)" by fastforce
  from Cons.IH [OF broker_reach.step [OF Cons.prems broker_step.publishes [of s q m]]]
  show ?case by (simp add: x publish_all_def)
qed

lemma handle_publishes: "\<exists>ps. handle env m b w = (fst (handle env m b w), publish_all ps b, snd (snd (handle env m b w))) \<and>
    ps = fst (snd (process env m w))"
  by (simp add: handle_def split: prod.split outcome.split)

text \<open>A handler that publishes nothing to the queue it is called for.\<close>

definition quiet :: "'w consumer \<Rightarrow> string \<Rightarrow> bool" where
  "quiet env q \<longleftrightarrow> (\<forall>m w. of_queue q (fst (snd (process env m w))) = [])"

lemma of_queue_queued: "of_queue q (map (\<lambda>(q, m). (q, queued q m)) ps) = map (queued q) (of_queue q ps)"
  by (induction ps) (auto simp: of_queue_def)

text \<open>
  A run of the loop is a run of the steps.  If its redelivery panics, it keeps a message whose attempt
  number is not positive.
\<close>

lemma consume_reach:
  assumes "lawful env"
  shows "\<lbrakk>broker_reach (broker_init n d) s; consume env q k (the_broker s) w = Some (res, b', w')\<rbrakk> \<Longrightarrow>
    \<exists>s' sent. broker_reach (broker_init n d) s' \<and> the_broker s' = b' \<and> published s' = published s @ sent \<and>
      (quiet env q \<longrightarrow> of_queue q sent = []) \<and>
      (if res = Shift_panic then \<exists>m. held s' = (q, m) # held s \<and> sint (attempts m) < 1 else held s' = held s)"
proof (induction k arbitrary: s w)
  case 0
  then show ?case by simp
next
  case (Suc k)
  obtain c w1 where c: "ctx_err env w = (c, w1)" by fastforce
  obtain now w2 where t: "clock_now env w1 = (now, w2)" by fastforce
  obtain ord w3 where ord: "map_order env (inflight (the_broker s)) w2 = (ord, w3)" by fastforce
  have perm: "mset ord = mset (inflight (the_broker s))"
    using assms ord by (metis fst_conv lawful_def)
  obtain mo b1 where nx: "next_msg now ord q (the_broker s) = (mo, b1)" by fastforce
  consider e where "c = Some e" | "c = None" "mo = None" | m where "c = None" "mo = Some m" by fastforce
  then show ?case
  proof cases
    case 1
    then have "res \<noteq> Shift_panic" "b' = the_broker s" using Suc.prems(2) c by auto
    then show ?thesis using Suc.prems(1) by (intro exI [of _ s] exI [of _ "[]"]) (simp add: of_queue_def)
  next
    case 2
    then have "broker_reach (broker_init n d) (s\<lparr>the_broker := b1\<rparr>)"
      using nx by (intro broker_reach.step [OF Suc.prems(1) broker_step.polls [OF perm]]) simp
    then show ?thesis using Suc.prems(2) 2 c t ord nx
      by (intro exI [of _ "s\<lparr>the_broker := b1\<rparr>"] exI [of _ "[]"]) (auto simp: of_queue_def)
  next
    case (3 m)
    obtain r b2 w4 where h: "handle env m b1 w3 = (r, b2, w4)" by (cases "handle env m b1 w3") auto
    then obtain ps where ps: "b2 = publish_all ps b1" "ps = fst (snd (process env m w3))"
      using handle_publishes [of env m b1 w3] by auto
    obtain t1 t2 where st: "fst (settle_now env q m r b2 w4) = settle q m r t1 t2 b2"
      using settle_now_settle [of env q m r b2 w4] by blast
    let ?s = "s\<lparr>the_broker := b1, held := (q, m) # held s, deliveries := deliveries s @ [m]\<rparr>"
    let ?new = "map (\<lambda>(q, m). (q, queued q m)) ps"
    have "broker_reach (broker_init n d) ?s"
      using nx 3 by (intro broker_reach.step [OF Suc.prems(1) broker_step.takes [OF perm]]) simp
    from broker_reach_publish_all [OF this, of ps] obtain t where t': "broker_reach (broker_init n d) t"
      "the_broker t = b2" "held t = (q, m) # held s" "published t = published s @ ?new"
      by (simp add: ps(1))
    have q: "quiet env q \<longrightarrow> of_queue q ?new = []" by (simp add: of_queue_queued quiet_def ps(2))
    obtain b3 w5 where s: "settle_now env q m r b2 w4 = (b3, w5)" by fastforce
    show ?thesis
    proof (cases b3)
      case None
      then have "sint (attempts m) < 1" using settle_Some [of m q r t1 t2 b2] st s by fastforce
      moreover have "res = Shift_panic" "b' = b2" using Suc.prems(2) 3 c t ord nx h s None by simp_all
      ultimately show ?thesis using t' q by (intro exI [of _ t] exI [of _ ?new]) simp
    next
      case (Some b4)
      have "settle q m r t1 t2 (the_broker t) = Some b4" using st s Some t'(2) by simp
      from broker_reach.step [OF t'(1) broker_step.settles [OF _ this]] t'(3,4)
      obtain u where u: "broker_reach (broker_init n d) u" "the_broker u = b4" "held u = held s" "published u = published s @ ?new"
        by simp
      have "consume env q k (the_broker u) w5 = Some (res, b', w')"
        using Suc.prems(2) 3 c t ord nx h s Some u(2) by simp
      from Suc.IH [OF u(1) this] obtain s' sent where "broker_reach (broker_init n d) s'" "the_broker s' = b'"
        "published s' = (published s @ ?new) @ sent" "quiet env q \<longrightarrow> of_queue q sent = []"
        "if res = Shift_panic then \<exists>m. held s' = (q, m) # held s \<and> sint (attempts m) < 1 else held s' = held s"
        unfolding u(3,4) by blast
      then show ?thesis using q by (intro exI [of _ s'] exI [of _ "?new @ sent"]) simp
    qed
  qed
qed

text \<open>A panic needs a message that was published with a negative attempt number.\<close>

lemma held_negative:
  assumes "broker_reach (broker_init n d) s" "(q, m) \<in> set (held s)" "sint (attempts m) < 1"
  shows "\<exists>p \<in> set (of_queue q (published s)). sint (attempts p) < 0"
proof -
  have inv: "pos_inv s" by (rule broker_reach_pos [OF assms(1)])
  have "\<not> (\<forall>p \<in> set (of_queue q (published s)). 1 \<le> sint (attempts p))"
  proof
    assume "\<forall>p \<in> set (of_queue q (published s)). 1 \<le> sint (attempts p)"
    from pos_invD [OF inv this] assms(2) have "1 \<le> sint (attempts m)" by blast
    with assms(3) show False by linarith
  qed
  then obtain p where p: "p \<in> set (of_queue q (published s))" "sint (attempts p) < 1" by (meson not_le)
  then have "attempts p \<noteq> 0" using inv by (auto simp: pos_inv_def in_of_queue)
  then have "sint (attempts p) \<noteq> 0" by (metis signed_0 signed_word_eqI)
  then show ?thesis using p by (intro bexI [of _ p]) simp_all
qed

text \<open>The attempts a queue's messages have left, and one more each.\<close>

definition work :: "string \<Rightarrow> broker \<Rightarrow> nat" where
  "work q b = (\<Sum>m \<in># live q b. Suc (nat (sint (max_attempts b) - sint (attempts m))))"

lemma filter_conj_subset: "{#x \<in># M. P x \<and> Q x#} \<subseteq># {#x \<in># M. Q x#}"
  by (induction M) (auto intro: subset_mset.order_trans)

lemma settle_work:
  assumes "settle q m r t1 t2 b = Some b'" "broker_ok b"
  shows "broker_ok b'" "work q b' < work q b + Suc (nat (sint (max_attempts b) - sint (attempts m)))"
proof -
  have "broker_ok b' \<and> work q b' < work q b + Suc (nat (sint (max_attempts b) - sint (attempts m)))"
    using assms(1)
  proof (cases rule: settle_cases)
    case ack
    then show ?thesis using assms(2) by simp
  next
    case (dead e)
    then have "live q b' = live q b" "max_attempts b' = max_attempts b" "broker_ok b'"
      using assms(2) by (simp_all add: live_def parked_in_def dead_def broker_ok_def)
    then show ?thesis by (simp add: work_def)
  next
    case (parked m' v)
    have ok: "broker_ok b'"
      using assms(2) parked by (auto simp: broker_ok_def distinct_ins) (auto simp: ins_def del_def)
    have "mset (parked_in q b') \<subseteq># add_mset m' (mset (parked_in q b))"
      unfolding parked_in_def parked(6)
      by (simp add: ins_def del_def parked(4) image_mset_subseteq_mono filter_conj_subset)
    then have sub: "live q b' \<subseteq># add_mset m' (live q b)" by (simp add: live_def parked(6))
    have "work q b' \<le> (\<Sum>x \<in># add_mset m' (live q b). Suc (nat (sint (max_attempts b) - sint (attempts x))))"
    proof -
      obtain c where c: "add_mset m' (live q b) = live q b' + c"
        using sub by (auto simp: subset_mset.le_iff_add)
      have "max_attempts b' = max_attempts b" by (simp add: parked(6))
      then show ?thesis unfolding c work_def by simp
    qed
    moreover have "sint (attempts m') = sint (attempts m) + 1"
      using parked(2,5) sint64_bounds [of "attempts m"] sint64_bounds [of "max_attempts b"]
      by (simp add: sint64_add)
    ultimately show ?thesis using ok parked(2) by (simp add: work_def)
  qed
  then show "broker_ok b'" "work q b' < work q b + Suc (nat (sint (max_attempts b) - sint (attempts m)))"
    by simp_all
qed

text \<open>What publishing adds to the work of a queue.\<close>

definition publish_work :: "int64 \<Rightarrow> string \<Rightarrow> (string \<times> message) list \<Rightarrow> nat" where
  "publish_work n q ps = (\<Sum>m \<leftarrow> of_queue q ps. Suc (nat (sint n - sint (attempts (queued q m)))))"

lemma publish_all_work:
  "broker_ok b \<Longrightarrow> broker_ok (publish_all ps b) \<and> max_attempts (publish_all ps b) = max_attempts b \<and>
   work q (publish_all ps b) = work q b + publish_work (max_attempts b) q ps"
proof (induction ps arbitrary: b)
  case Nil
  then show ?case by (simp add: publish_all_def publish_work_def)
next
  case (Cons x ps)
  obtain q' m where x: "x = (q', m)" by fastforce
  note p = publish_live [OF Cons.prems, where q = q' and m = m]
  have "work q (publish q' m b) = work q b + publish_work (max_attempts b) q [x]"
    using p(2,3,5) by (cases "q = q'") (simp_all add: work_def publish_work_def x)
  moreover have "publish_work c q (x # ps) = publish_work c q [x] + publish_work c q ps" for c
    by (simp add: publish_work_def x)
  moreover have "publish_all (x # ps) b = publish_all ps (publish q' m b)" by (simp add: publish_all_def x)
  ultimately show ?case using Cons.IH [OF p(1)] p(5) by simp
qed

text \<open>
  What is published to the queue while handlers run stays within a budget that the surroundings never
  refill.  A handler that publishes nothing has the budget zero.
\<close>

definition bounded :: "int64 \<Rightarrow> string \<Rightarrow> 'w consumer \<Rightarrow> ('w \<Rightarrow> nat) \<Rightarrow> bool" where
  "bounded n q env budget \<longleftrightarrow>
     (\<forall>w. budget (snd (ctx_err env w)) \<le> budget w \<and> budget (snd (clock_now env w)) \<le> budget w \<and>
        (\<forall>xs. budget (snd (map_order env xs w)) \<le> budget w) \<and>
        (\<forall>m. publish_work n q (fst (snd (process env m w))) + budget (snd (snd (process env m w))) \<le> budget w))"

lemma boundedD:
  assumes "bounded n q env budget"
  shows "ctx_err env w = (c, w1) \<Longrightarrow> budget w1 \<le> budget w" "clock_now env w = (t, w1) \<Longrightarrow> budget w1 \<le> budget w"
    "map_order env xs w = (ys, w1) \<Longrightarrow> budget w1 \<le> budget w"
    "process env m w = (oc, ps, w1) \<Longrightarrow> publish_work n q ps + budget w1 \<le> budget w"
  using assms by (metis bounded_def fst_conv snd_conv)+

lemma quiet_bounded: "quiet env q \<Longrightarrow> bounded n q env (\<lambda>w. 0)"
  by (simp add: bounded_def quiet_def publish_work_def)

lemma settle_now_budget:
  assumes "bounded n q env budget" "settle_now env q' m r b w = (b', w')"
  shows "budget w' \<le> budget w"
proof -
  obtain t1 w1 where 1: "clock_now env w = (t1, w1)" by fastforce
  obtain t2 w2 where 2: "clock_now env w1 = (t2, w2)" by fastforce
  note le = boundedD(2) [OF assms(1)]
  have "budget w1 \<le> budget w" "budget w2 \<le> budget w1" using le [OF 1] le [OF 2] .
  moreover have "w' = w \<or> w' = w1 \<or> w' = w2"
    using assms(2) 1 2 by (simp add: settle_now_def Let_def split: option.splits if_splits)
  ultimately show ?thesis by fastforce
qed

lemma consume_returns_ok:
  assumes "lawful env"
  shows "broker_ok b \<Longrightarrow> bounded (max_attempts b) q env budget \<Longrightarrow> work q b + budget w < k \<Longrightarrow>
    \<exists>res. consume env q k b w = Some res"
proof (induction k arbitrary: b w)
  case 0
  then show ?case by simp
next
  case (Suc k)
  obtain c w1 where c: "ctx_err env w = (c, w1)" by fastforce
  obtain t w2 where t: "clock_now env w1 = (t, w2)" by fastforce
  obtain ord w3 where ord: "map_order env (inflight b) w2 = (ord, w3)" by fastforce
  have perm: "mset ord = mset (inflight b)" using assms ord by (metis fst_conv lawful_def)
  obtain mo b1 where nx: "next_msg t ord q b = (mo, b1)" by fastforce
  note bd = boundedD [OF Suc.prems(2)]
  have w3: "budget w3 \<le> budget w" using bd(1) [OF c] bd(2) [OF t] bd(3) [OF ord] by linarith
  show ?case
  proof (cases "c = None \<and> mo \<noteq> None")
    case False
    then show ?thesis using c t ord nx by (cases c; cases mo) simp_all
  next
    case True
    then obtain m where m: "mo = Some m" and "c = None" by auto
    obtain oc ps w4 where pr: "process env m w3 = (oc, ps, w4)" by (cases "process env m w3") auto
    obtain r where h: "handle env m b1 w3 = (r, publish_all ps b1, w4)"
      by (cases oc) (simp_all add: handle_def pr)
    obtain b3 w5 where s: "settle_now env q m r (publish_all ps b1) w4 = (b3, w5)" by fastforce
    then obtain t1 t2 where st: "settle q m r t1 t2 (publish_all ps b1) = b3"
      using settle_now_settle [of env q m r "publish_all ps b1" w4] by auto
    show ?thesis
    proof (cases b3)
      case None
      then show ?thesis using c t ord nx m h s True by simp
    next
      case (Some b4)
      note n = next_msg_Some [OF nx [unfolded m] perm Suc.prems(1)]
      from publish_all_work [OF n(1), of ps q]
      have p: "broker_ok (publish_all ps b1)" "max_attempts (publish_all ps b1) = max_attempts b"
        "work q (publish_all ps b1) = work q b1 + publish_work (max_attempts b) q ps" by (simp_all add: n(6))
      have "max_attempts b4 = max_attempts b" using settle_live(2) [OF st [unfolded Some] p(1)] p(2) by simp
      moreover from settle_work [OF st [unfolded Some] p(1)] have "broker_ok b4"
        and "work q b4 < work q (publish_all ps b1) + Suc (nat (sint (max_attempts b) - sint (attempts m)))"
        unfolding p(2) .
      moreover have "work q b = work q b1 + Suc (nat (sint (max_attempts b) - sint (attempts m)))"
        by (simp add: work_def n(2,6))
      moreover have "publish_work (max_attempts b) q ps + budget w5 \<le> budget w"
        using bd(4) [OF pr] settle_now_budget [OF Suc.prems(2) s] w3 by linarith
      ultimately have "\<exists>res. consume env q k b4 w5 = Some res"
        using Suc.IH [of b4 w5] Suc.prems(2,3) p(3) by simp
      then show ?thesis using c t ord nx m h s Some True by simp
    qed
  qed
qed

subsection \<open>Properties\<close>

text \<open>C4: in every interleaving of publishers, of whatever messages, and consumers, the messages published
  to a queue are, each exactly once, ready, parked, dead-lettered, in a consumer's hands, acknowledged or
  lost.  Lost are only messages that the parking of another one with their ID replaced, so nothing is
  lost while no ID is published twice.\<close>

theorem broker_conserves:
  assumes "broker_reach (broker_init n d) s"
  shows "image_mset msg_id (live q (the_broker s) + mset (dlq (the_broker s) q) + mset (of_queue q (held s)) +
      mset (of_queue q (acked s)) + mset (of_queue q (lost s))) = image_mset msg_id (mset (of_queue q (published s))) \<and>
    (\<forall>(q, m) \<in> set (lost s). 2 \<le> pub_count (msg_id m) s) \<and>
    (distinct (map (msg_id \<circ> snd) (published s)) \<longrightarrow> lost s = [])"
proof -
  have inv: "broker_inv s" by (rule broker_reach_inv [OF assms])
  then have twice: "\<forall>(q, m) \<in> set (lost s). 2 \<le> pub_count (msg_id m) s" by (simp add: broker_inv_def)
  have "pub_count i s \<le> 1" if "distinct (map (msg_id \<circ> snd) (published s))" for i
  proof -
    have "distinct (map (msg_id \<circ> snd) (filter (\<lambda>x. msg_id (snd x) = i) (published s)))"
      by (rule distinct_map_filter [OF that])
    then have "card (set (map (msg_id \<circ> snd) (filter (\<lambda>x. msg_id (snd x) = i) (published s)))) = pub_count i s"
      by (simp only: distinct_card pub_count_def length_map)
    moreover have "set (map (msg_id \<circ> snd) (filter (\<lambda>x. msg_id (snd x) = i) (published s))) \<subseteq> {i}" by auto
    then have "card (set (map (msg_id \<circ> snd) (filter (\<lambda>x. msg_id (snd x) = i) (published s)))) \<le> card {i}"
      by (intro card_mono) simp_all
    ultimately show ?thesis by simp
  qed
  then have "distinct (map (msg_id \<circ> snd) (published s)) \<longrightarrow> lost s = []"
    using twice by (metis (no_types, lifting) case_prodD last_in_set not_less_eq_eq numeral_2_eq_2 One_nat_def prod.collapse)
  then show ?thesis using inv twice by (simp add: broker_inv_def everywhere_def)
qed

definition demo_message :: message where
  "demo_message = \<lparr>msg_id = ''m1'', queue = [], idempotency_key = ''k'', attempts = 0, msg_value = ''v'',
     dead_letter_reason = [], first_failed_at = 0\<rparr>"

definition demo_sys :: broker_sys where
  "demo_sys = broker_init 3 1 \<lparr>the_broker := publish ''q'' demo_message (new_broker 3 1),
     published := [(''q'', queued ''q'' demo_message)]\<rparr>"

lemma demo_publish: "broker_reach (broker_init 3 1) demo_sys"
  using broker_reach.step [OF broker_reach.start broker_step.publishes [of "broker_init 3 1" "''q''" demo_message]]
  by (simp add: broker_init_def demo_sys_def)

theorem broker_conserves_witness:
  "image_mset msg_id (live ''q'' (publish ''q'' demo_message (new_broker 3 1))) = {#''m1''#}"
  using broker_conserves [OF demo_publish, of "''q''"]
  by (simp add: demo_sys_def demo_message_def broker_init_def publish_def Let_def new_broker_def of_queue_def)

text \<open>C9: a message that is the only one published with its ID is delivered with the attempt numbers \<open>n\<close>,
  \<open>n + 1\<close> and so on without gap or repeat, in every interleaving, where \<open>n\<close> is the \<^verbatim>\<open>Attempts\<close> it was
  queued with: what the publisher set, or 1 if that was zero.  No number is above \<^verbatim>\<open>maxAttempts\<close>, but
  for the first delivery of a message that was published with more.\<close>

theorem broker_deliveries:
  assumes "broker_reach (broker_init n d) s" "(q, m) \<in> set (published s)" "pub_count (msg_id m) s = 1"
  shows "map (\<lambda>x. sint (attempts x)) (filter (\<lambda>x. msg_id x = msg_id m) (deliveries s)) =
      map (\<lambda>k. sint (attempts m) + int k) [0..<tries (msg_id m) s] \<and>
    sint (attempts m) + int (tries (msg_id m) s) \<le> max (sint (attempts m)) (sint n) + 1"
proof -
  have "id_inv (msg_id m) (sint (attempts m)) s"
    using broker_reach_tries [OF assms(1)] assms(2,3) by (auto simp: tries_inv_def)
  then show ?thesis using reach_max_attempts [OF assms(1)] by (simp add: id_inv_def attempt_cap_def)
qed

text \<open>A message that fails once and is delivered again.\<close>

definition demo_twice :: broker_sys where
  "demo_twice =
     (let (m1, b1) = next_msg 0 [] ''q'' (the_broker demo_sys);
          b2 = the (settle ''q'' (the m1) (Some (Plain ''down'')) 5 6 b1);
          (m2, b3) = next_msg 9 (inflight b2) ''q'' b2
      in demo_sys\<lparr>the_broker := b3, held := [(''q'', the m2)], deliveries := [the m1, the m2]\<rparr>)"

lemma demo_twice: "broker_reach (broker_init 3 1) demo_twice"
proof -
  let ?m1 = "queued ''q'' demo_message"
  let ?b1 = "(new_broker 3 1)\<lparr>ready := (\<lambda>_. [])(''q'' := [])\<rparr>"
  let ?m2 = "?m1\<lparr>attempts := 2, dead_letter_reason := ''down'', first_failed_at := 5\<rparr>"
  let ?b2 = "?b1\<lparr>inflight := [(''m1'', \<lparr>msg = ?m2, visible_at = 7\<rparr>)]\<rparr>"
  let ?b3 = "?b2\<lparr>inflight := [], ready := (ready ?b2)(''q'' := [])\<rparr>"
  have n1: "next_msg 0 [] ''q'' (the_broker demo_sys) = (Some ?m1, ?b1)"
    by (simp add: next_msg_def promote_def demo_sys_def publish_def new_broker_def demo_message_def queued_def Let_def)
  have s1: "settle ''q'' ?m1 (Some (Plain ''down'')) 5 6 ?b1 = Some ?b2"
    by (simp add: settle_def redeliver_def stamp_def new_broker_def demo_message_def queued_def ins_def del_def Let_def)
  have n2: "next_msg 9 (inflight ?b2) ''q'' ?b2 = (Some ?m2, ?b3)"
    by (simp add: next_msg_def promote_def new_broker_def demo_message_def queued_def del_def Let_def)
  let ?s1 = "demo_sys\<lparr>the_broker := ?b1, held := [(''q'', ?m1)], deliveries := [?m1]\<rparr>"
  let ?s2 = "?s1\<lparr>the_broker := ?b2, held := []\<rparr>"
  have "broker_step demo_sys ?s1"
    using broker_step.takes [of "[]" demo_sys 0 "''q''" ?m1 ?b1] n1
    by (simp add: demo_sys_def broker_init_def publish_def new_broker_def Let_def)
  moreover have "broker_step ?s1 ?s2"
    using broker_step.settles [of "''q''" ?m1 ?s1 "Some (Plain ''down'')" 5 6 ?b2] s1
    by (simp add: demo_sys_def broker_init_def replaced_def new_broker_def demo_message_def)
  moreover have "broker_step ?s2 demo_twice"
    using broker_step.takes [of "inflight ?b2" ?s2 9 "''q''" ?m2 ?b3] n2
    by (simp add: demo_twice_def n1 s1 Let_def)
  ultimately show ?thesis using demo_publish by (meson broker_reach.step)
qed

theorem broker_deliveries_witness:
  "map (\<lambda>x. sint (attempts x)) (deliveries demo_twice) = [1, 2]"
proof -
  have "(''q'', queued ''q'' demo_message) \<in> set (published demo_twice)"
    "pub_count (msg_id (queued ''q'' demo_message)) demo_twice = 1"
    "sint (attempts (queued ''q'' demo_message)) = 1" "tries (msg_id (queued ''q'' demo_message)) demo_twice = 2"
    "filter (\<lambda>x. msg_id x = msg_id (queued ''q'' demo_message)) (deliveries demo_twice) = deliveries demo_twice"
    by code_simp+
  with broker_deliveries [OF demo_twice, of "''q''" "queued ''q'' demo_message"] show ?thesis
    by (simp add: upt_rec)
qed

text \<open>C8: \<^verbatim>\<open>Consume\<close> returns for every handler that publishes to its own queue within a budget, none at all
  being the budget zero, whatever the clock, the context and the map order do: as many rounds as the
  queue's messages have attempts left, and one more each, plus the budget are enough.  No other consumer
  acts during the call (\<open>broker_step\<close> is about several of them).  It ends in a state
  the atomic steps reach with nothing left in its hands, unless it panics in the shift of \<^verbatim>\<open>redeliver\<close>;
  that takes a message published to the queue with negative \<^verbatim>\<open>Attempts\<close>.\<close>

theorem consume_returns:
  assumes "broker_reach (broker_init n d) s" "lawful env" "bounded n q env budget"
    and "work q (the_broker s) + budget w < k"
  shows "\<exists>res b' w' s' sent. consume env q k (the_broker s) w = Some (res, b', w') \<and>
    broker_reach (broker_init n d) s' \<and> the_broker s' = b' \<and> published s' = published s @ sent \<and>
    (if res = Shift_panic
     then (\<exists>m. held s' = (q, m) # held s) \<and> (\<exists>p \<in> set (of_queue q (published s')). sint (attempts p) < 0)
     else held s' = held s)"
proof -
  have "broker_ok (the_broker s)" using broker_reach_inv [OF assms(1)] by (simp add: broker_inv_def)
  moreover have "bounded (max_attempts (the_broker s)) q env budget"
    using assms(3) reach_max_attempts [OF assms(1)] by simp
  ultimately obtain res b' w' where run: "consume env q k (the_broker s) w = Some (res, b', w')"
    using consume_returns_ok [OF assms(2), of "the_broker s" q budget w k] assms(4) by (metis prod_cases3)
  from consume_reach [OF assms(2,1) run] obtain s' sent where
    s': "broker_reach (broker_init n d) s'" "the_broker s' = b'" "published s' = published s @ sent"
      "if res = Shift_panic then \<exists>m. held s' = (q, m) # held s \<and> sint (attempts m) < 1 else held s' = held s"
    by blast
  have "\<exists>p \<in> set (of_queue q (published s')). sint (attempts p) < 0"
    if "held s' = (q, m) # held s" "sint (attempts m) < 1" for m
    by (rule held_negative [OF s'(1) _ that(2)]) (simp add: that(1))
  then show ?thesis using run s' by (auto split: if_splits)
qed

text \<open>A handler that fails every time and publishes once more when it first runs.\<close>

definition republishing :: "(nat \<times> int) consumer" where
  "republishing = \<lparr>ctx_err = (\<lambda>w. (None, w)),
     process = (\<lambda>m (n, t). (Returned (Some (Plain ''down'')), if n = 0 then [] else [(''q'', demo_message)], n - 1, t)),
     clock_now = (\<lambda>(n, t). (t, n, t + 1)), map_order = (\<lambda>xs w. (rev xs, w))\<rparr>"

theorem consume_returns_witness:
  "\<exists>res b' w'. consume republishing ''q'' 7 (publish ''q'' demo_message (new_broker 3 1)) (1, 5) = Some (res, b', w')"
proof -
  have "work ''q'' (the_broker demo_sys) = 3"
    by (simp add: demo_sys_def work_def live_def parked_in_def publish_def Let_def new_broker_def demo_message_def)
  moreover have "lawful republishing" by (simp add: lawful_def republishing_def)
  moreover have "publish_work 3 ''q'' [(''q'', demo_message)] = 3" by code_simp
  then have "bounded 3 ''q'' republishing (\<lambda>(n, t). 3 * n)"
    by (auto simp: bounded_def republishing_def publish_work_def [of _ _ "[]"] of_queue_def [of _ "[]"])
  ultimately show ?thesis
    using consume_returns [OF demo_publish, of republishing "''q''" "\<lambda>(n, t). 3 * n" "(1, 5)" 7]
    by (auto simp: demo_sys_def)
qed

text \<open>Without a budget it does not return: a handler that publishes the message again, and succeeds,
  keeps the loop running for ever.\<close>

lemma publisher_never_drains:
  "consume \<lparr>ctx_err = (\<lambda>w. (None, w)), process = (\<lambda>m w. (Returned None, [(''q'', demo_message)], w)),
     clock_now = (\<lambda>w. (5, w)), map_order = (\<lambda>xs w. (xs, w))\<rparr> ''q'' k
     (publish ''q'' demo_message (new_broker 3 1)) () = None"
proof -
  let ?b = "publish ''q'' demo_message (new_broker 3 1)"
  have b: "publish ''q'' demo_message (snd (next_msg 5 [] ''q'' ?b)) = ?b" "inflight ?b = []"
    "\<exists>m. fst (next_msg 5 [] ''q'' ?b) = Some m"
    by (simp_all add: publish_def next_msg_def promote_def new_broker_def Let_def)
  then obtain m b1 where "next_msg 5 [] ''q'' ?b = (Some m, b1)" "publish ''q'' demo_message b1 = ?b"
    by (metis prod.collapse)
  then show ?thesis
    using b(2) by (induction k) (simp_all add: handle_def publish_all_def settle_now_def)
qed

text \<open>What becomes of a handled message: success removes it for good; a terminal error, or any error on
  the last attempt, dead-letters it with that error's text and the time of its first failure; any other
  error parks it, one attempt up, until the backoff, doubled per attempt, after the clock reading.\<close>

theorem settle_policy:
  assumes "1 \<le> sint (attempts m)" "0 \<le> sint (backoff b)"
    and "sint (backoff b) * 2 ^ nat (sint (attempts m) - 1) < 2 ^ 63"
  shows "settle q m None t1 t2 b = Some b \<and>
    (\<forall>e. settle q m (Some e) t1 t2 b = Some
      (let m' = m\<lparr>first_failed_at := if first_failed_at m = 0 then t1 else first_failed_at m\<rparr>
       in if is_terminal e
          then b\<lparr>dlq := (dlq b)(q := dlq b q @ [m'\<lparr>dead_letter_reason := err_text e\<rparr>])\<rparr>
          else if sint (max_attempts b) \<le> sint (attempts m)
          then b\<lparr>dlq := (dlq b)(q := dlq b q @ [m'\<lparr>dead_letter_reason :=
            ''max attempts ('' @ int_text (sint (max_attempts b)) @ '') reached: '' @ err_text e\<rparr>])\<rparr>
          else b\<lparr>inflight := ins (msg_id m)
            \<lparr>msg = m'\<lparr>queue := q, attempts := attempts m + 1, dead_letter_reason := err_text e\<rparr>,
             visible_at = t2 + sint (backoff b) * 2 ^ nat (sint (attempts m) - 1)\<rparr> (inflight b)\<rparr>))"
proof -
  have a: "sint (attempts m - 1) = sint (attempts m) - 1"
    using assms(1) sint64_bounds [of "attempts m"] by (subst sint64_sub) simp_all
  have "sint (push_bit (nat (sint (attempts m) - 1)) (backoff b)) =
      sint (backoff b) * 2 ^ nat (sint (attempts m) - 1)"
    using assms by (intro sint_push_bit)
  then show ?thesis
    using assms(1) a
    by (cases m) (simp add: settle_def dead_def redeliver_def stamp_def exhausted_def Let_def)
qed

theorem settle_policy_witness:
  "settle ''q'' (demo_message\<lparr>attempts := 2\<rparr>) (Some (Wrapped ''h'' (Plain ''down''))) 7 8 (new_broker 3 10) =
     Some (new_broker 3 10 \<lparr>inflight := [(''m1'', \<lparr>msg = demo_message\<lparr>queue := ''q'', attempts := 3,
       dead_letter_reason := ''h: down'', first_failed_at := 7\<rparr>, visible_at = 28\<rparr>)]\<rparr>)"
proof -
  have "sint (attempts (demo_message\<lparr>attempts := 2\<rparr>)) = 2" "sint (backoff (new_broker 3 10)) = 10"
    by (simp_all add: new_broker_def)
  with settle_policy [of "demo_message\<lparr>attempts := 2\<rparr>" "new_broker 3 10" "''q''" 7 8] show ?thesis
    by (simp add: Let_def new_broker_def demo_message_def ins_def del_def)
qed

text \<open>Two messages with one ID: the second parks over the first, and one of them is gone.\<close>

lemma duplicate_id_lost:
  "let b = publish ''q'' demo_message (publish ''q'' demo_message (new_broker 3 1));
       env = \<lparr>ctx_err = (\<lambda>w. (None, w)), process = (\<lambda>m w. (Returned (Some (Plain ''down'')), [], w)),
              clock_now = (\<lambda>w. (5, w)), map_order = (\<lambda>xs w. (xs, w))\<rparr>
   in case consume env ''q'' 4 b () of
        None \<Rightarrow> False
      | Some (res, b', w) \<Rightarrow> res = Drained \<and> length (ready b ''q'') = 2 \<and>
          inflight_count b' = 1 \<and> ready b' ''q'' = [] \<and> dead_list ''q'' b' = []"
  by code_simp

end
