(* ===== verification/Broker_Drain.thy ===== *)
theory Broker_Drain
  imports Broker
begin

text \<open>
  What a caller gets by calling \<^verbatim>\<open>Consume\<close> of \<^verbatim>\<open>17-messaging/examples/messaging/broker.go\<close> again and again, as its
  comment asks: each time once the backoffs have elapsed, until nothing of the queue is left.  Between
  the calls nothing else acts on the broker, and the handler publishes nothing to the queue.
\<close>

subsection \<open>Calling Consume again\<close>





subsection \<open>One call ages every message\<close>









lemma settle_ok: "settle q m r t1 t2 b = Some b1 \<Longrightarrow> broker_ok b \<Longrightarrow> broker_ok b1"
  by (rule settle_work)





subsection \<open>Rounds\<close>









subsection \<open>Properties\<close>





end
