(* ===== verification/Text.thy ===== *)
theory Text
  imports Prelude
begin

text \<open>
  The parts of Go's \<^verbatim>\<open>strings\<close> package the components use, on strings as lists of bytes in UTF-8:
  \<^verbatim>\<open>TrimSpace\<close> with every Unicode space, \<^verbatim>\<open>HasPrefix\<close>, \<^verbatim>\<open>TrimPrefix\<close>, and \<^verbatim>\<open>ToUpper\<close>, whose
  case table beyond ASCII is a parameter.
\<close>

subsection \<open>Spaces\<close>

text \<open>The UTF-8 sequences of the characters \<^verbatim>\<open>unicode.IsSpace\<close> accepts.\<close>

definition spaces :: "string list" where
  "spaces = map (map char_of)
     ([[9], [10], [11], [12], [13], [32], [194, 133], [194, 160], [225, 154, 128]] @
      map (\<lambda>b. [226, 128, b]) [128, 129, 130, 131, 132, 133, 134, 135, 136, 137, 138, 168, 169, 175] @
      [[226, 129, 159], [227, 128, 128 :: nat]])"

lemma spaces_nonempty: "[] \<notin> set spaces"
  by (simp add: spaces_def)

definition has_prefix :: "string \<Rightarrow> string \<Rightarrow> bool" where
  "has_prefix s p \<longleftrightarrow> take (length p) s = p"

definition trim_prefix :: "string \<Rightarrow> string \<Rightarrow> string" where
  "trim_prefix s p = (if has_prefix s p then drop (length p) s else s)"

definition leading :: "string list \<Rightarrow> string \<Rightarrow> string option" where
  "leading ps s = find (has_prefix s) ps"

lemma leading_Some: "leading ps s = Some p \<Longrightarrow> p \<in> set ps \<and> has_prefix s p"
  by (auto simp: leading_def find_Some_iff)

lemma leading_space_shorter:
  assumes "leading spaces s = Some p"
  shows "length (drop (length p) s) < length s"
proof -
  have "p \<noteq> []" "has_prefix s p" using leading_Some [OF assms] spaces_nonempty by metis+
  then show ?thesis by (cases "s = []") (auto simp: has_prefix_def)
qed

function strip_left :: "string \<Rightarrow> string" where
  "strip_left s = (case leading spaces s of None \<Rightarrow> s | Some p \<Rightarrow> strip_left (drop (length p) s))"
  by pat_completeness auto
termination
  by (relation "measure length") (auto dest: leading_space_shorter)

declare strip_left.simps [simp del]

text \<open>From the right the same, on the reversed bytes.\<close>

definition trailing :: "string \<Rightarrow> string option" where
  "trailing s = leading (map rev spaces) (rev s)"

lemma trailing_shorter:
  assumes "trailing s = Some p"
  shows "length (take (length s - length p) s) < length s"
proof -
  have "p \<in> set (map rev spaces)" "has_prefix (rev s) p"
    using leading_Some [OF assms [unfolded trailing_def]] by blast+
  moreover from this(1) have "p \<noteq> []" using spaces_nonempty by auto
  ultimately show ?thesis by (cases "s = []") (auto simp: has_prefix_def)
qed

function strip_right :: "string \<Rightarrow> string" where
  "strip_right s = (case trailing s of None \<Rightarrow> s | Some p \<Rightarrow> strip_right (take (length s - length p) s))"
  by pat_completeness auto
termination
  by (relation "measure length") (auto dest: trailing_shorter)

declare strip_right.simps [simp del]

definition trim_space :: "string \<Rightarrow> string" where
  "trim_space s = strip_right (strip_left s)"

lemma strip_left_id: "leading spaces s = None \<Longrightarrow> strip_left s = s"
  by (subst strip_left.simps) simp

lemma strip_right_id: "trailing s = None \<Longrightarrow> strip_right s = s"
  by (subst strip_right.simps) simp

lemma strip_left_no_space: "leading spaces (strip_left s) = None"
proof (induction s rule: strip_left.induct)
  case (1 s)
  then show ?case by (cases "leading spaces s") (subst strip_left.simps; simp)+
qed

subsection \<open>Case\<close>

definition is_ascii :: "string \<Rightarrow> bool" where
  "is_ascii s \<longleftrightarrow> list_all (\<lambda>c. (of_char c :: nat) < 128) s"

definition upper_char :: "char \<Rightarrow> char" where
  "upper_char c = (if (97 :: nat) \<le> of_char c \<and> (of_char c :: nat) \<le> 122
     then char_of (of_char c - 32 :: nat) else c)"

definition to_upper :: "(string \<Rightarrow> string) \<Rightarrow> string \<Rightarrow> string" where
  "to_upper unicode_upper s = (if is_ascii s then map upper_char s else unicode_upper s)"

definition lower_char :: "char \<Rightarrow> char" where
  "lower_char c = (if (65 :: nat) \<le> of_char c \<and> (of_char c :: nat) \<le> 90
     then char_of (of_char c + 32 :: nat) else c)"

definition to_lower :: "(string \<Rightarrow> string) \<Rightarrow> string \<Rightarrow> string" where
  "to_lower unicode_lower s = (if is_ascii s then map lower_char s else unicode_lower s)"

subsection \<open>Trimming blanks\<close>

definition blanks :: "nat \<Rightarrow> string" where
  "blanks n = replicate n (CHR '' '')"

text \<open>A byte that begins and ends no space.\<close>

definition solid :: "char \<Rightarrow> bool" where
  "solid c \<longleftrightarrow> (33 :: nat) \<le> of_char c \<and> (of_char c :: nat) < 128"

lemma spaces_ends:
  assumes "p \<in> set spaces"
  shows "\<not> solid (hd p)" "\<not> solid (last p)" "p \<noteq> []"
proof -
  have "list_all (\<lambda>p. \<not> solid (hd p) \<and> \<not> solid (last p) \<and> p \<noteq> []) spaces"
    by (simp add: spaces_def solid_def)
  then show "\<not> solid (hd p)" "\<not> solid (last p)" "p \<noteq> []" using assms by (simp_all add: list_all_iff)
qed

lemma has_prefix_hd: "has_prefix (c # s) p \<Longrightarrow> p \<noteq> [] \<Longrightarrow> hd p = c"
  by (cases p) (auto simp: has_prefix_def)

lemma leading_solid:
  assumes "solid c"
  shows "leading spaces (c # s) = None"
  unfolding leading_def find_None_iff
  using spaces_ends(1,3) has_prefix_hd [of c s] assms by metis

lemma trailing_solid:
  assumes "solid c"
  shows "trailing (s @ [c]) = None"
proof -
  have "\<not> has_prefix (c # rev s) (rev p)" if "p \<in> set spaces" for p
    using spaces_ends [OF that] has_prefix_hd [of c "rev s" "rev p"] assms by (auto simp: hd_rev)
  then show ?thesis by (auto simp: trailing_def leading_def find_None_iff)
qed

lemma find_unique:
  assumes "y \<in> set xs" "P y" and unique: "\<forall>x \<in> set xs. P x \<longrightarrow> x = y"
  shows "find P xs = Some y"
proof (cases "find P xs")
  case None
  then show ?thesis using assms(1,2) by (simp only: find_None_iff) blast
next
  case (Some z)
  then have "z \<in> set xs" "P z" by (auto simp: find_Some_iff)
  with unique have "z = y" by blast
  with Some show ?thesis by (simp only:)
qed

lemma blank_code: "(of_char (CHR '' '') :: nat) = 32"
  by simp

lemma blank_char: "[char_of (32 :: nat)] = '' ''"
proof -
  have "char_of (32 :: nat) = CHR '' ''" by (simp only: blank_code [symmetric] char_of_char)
  then show ?thesis by (rule arg_cong [where f = "\<lambda>c. [c]"])
qed

lemma blank_in_spaces: "'' '' \<in> set spaces"
proof -
  have "spaces ! 5 = [char_of (32 :: nat)]" "5 < length spaces" by (simp_all add: spaces_def)
  then have "[char_of (32 :: nat)] \<in> set spaces" by (metis nth_mem)
  then show ?thesis by (simp only: blank_char)
qed

lemma spaces_blank_length:
  "list_all (\<lambda>p. (of_char (hd p) :: nat) = 32 \<or> (of_char (last p) :: nat) = 32 \<longrightarrow> length p = 1) spaces"
  by (simp add: spaces_def)

lemma blank_length:
  assumes "p \<in> set spaces" "(of_char (hd p) :: nat) = 32 \<or> (of_char (last p) :: nat) = 32"
  shows "length p = 1"
  using bspec [OF spaces_blank_length [unfolded list_all_iff] assms(1)] assms(2) by (rule mp)

lemma blank_only: "\<forall>p \<in> set spaces. hd p = CHR '' '' \<or> last p = CHR '' '' \<longrightarrow> p = '' ''"
proof (intro ballI impI)
  fix p assume p: "p \<in> set spaces" "hd p = CHR '' '' \<or> last p = CHR '' ''"
  have "(of_char (hd p) :: nat) = 32 \<or> (of_char (last p) :: nat) = 32"
    using p(2) by (elim disjE) (simp_all only: blank_code simp_thms)
  from blank_length [OF p(1) this] obtain c where "p = [c]" by (cases p) auto
  then show "p = '' ''" using p(2) by simp
qed

lemma leading_blank: "leading spaces (CHR '' '' # s) = Some '' ''"
  unfolding leading_def
proof (rule find_unique)
  show "\<forall>p \<in> set spaces. has_prefix (CHR '' '' # s) p \<longrightarrow> p = '' ''"
    using has_prefix_hd spaces_ends(3) blank_only by metis
qed (simp_all add: blank_in_spaces has_prefix_def)

lemma trailing_blank: "trailing (s @ '' '') = Some '' ''"
  unfolding trailing_def leading_def
proof (rule find_unique)
  show "\<forall>p \<in> set (map rev spaces). has_prefix (rev (s @ '' '')) p \<longrightarrow> p = '' ''"
  proof (intro ballI impI)
    fix p assume "p \<in> set (map rev spaces)" "has_prefix (rev (s @ '' '')) p"
    then obtain q where q: "p = rev q" "q \<in> set spaces" "has_prefix (CHR '' '' # rev s) (rev q)" by auto
    then have "last q = CHR '' ''" using has_prefix_hd spaces_ends(3) by (metis hd_rev rev_is_Nil_conv)
    then show "p = '' ''" using q blank_only by auto
  qed
  show "'' '' \<in> set (map rev spaces)" using blank_in_spaces by force
qed (simp add: has_prefix_def)

lemma strip_left_blanks: "strip_left (blanks n @ s) = strip_left s"
proof (induction n)
  case 0
  then show ?case by (simp add: blanks_def)
next
  case (Suc n)
  have "strip_left (blanks (Suc n) @ s) = strip_left (blanks n @ s)"
    by (subst strip_left.simps) (simp add: blanks_def leading_blank)
  with Suc show ?case by simp
qed

lemma strip_right_blank: "strip_right (s @ '' '') = strip_right s"
  by (subst strip_right.simps) (simp add: trailing_blank)

lemma strip_right_blanks: "strip_right (s @ blanks n) = strip_right s"
proof (induction n)
  case 0
  then show ?case by (simp add: blanks_def)
next
  case (Suc n)
  have "s @ blanks (Suc n) = (s @ blanks n) @ '' ''" by (simp add: blanks_def replicate_append_same)
  with Suc show ?case by (simp only: strip_right_blank)
qed

lemma trim_blanks:
  assumes "s \<noteq> []" "solid (hd s)" "solid (last s)"
  shows "trim_space (blanks m @ s @ blanks n) = s"
proof -
  obtain c t where c: "s @ blanks n = c # t" "solid c" using assms(1,2) by (cases s) auto
  have "strip_left (blanks m @ s @ blanks n) = s @ blanks n"
    using strip_left_id [OF leading_solid [OF c(2)], of t] by (simp add: strip_left_blanks c(1))
  moreover have "strip_right s = s"
    using strip_right_id [OF trailing_solid [OF assms(3)], of "butlast s"] assms(1) by simp
  ultimately show ?thesis by (simp add: trim_space_def strip_right_blanks)
qed

subsection \<open>Split\<close>

text \<open>\<^verbatim>\<open>strings.Split\<close> with a one-byte separator.\<close>

fun split_on :: "char \<Rightarrow> string \<Rightarrow> string list" where
  "split_on d [] = [[]]"
| "split_on d (c # s) =
     (if c = d then [] # split_on d s
      else (case split_on d s of [] \<Rightarrow> [[c]] | w # ws \<Rightarrow> (c # w) # ws))"

fun join_on :: "char \<Rightarrow> string list \<Rightarrow> string" where
  "join_on d [] = []"
| "join_on d [w] = w"
| "join_on d (w # ws) = w @ d # join_on d ws"

lemma split_on_none: "d \<notin> set s \<Longrightarrow> split_on d s = [s]"
  by (induction s) auto

lemma split_on_append: "d \<notin> set s \<Longrightarrow> split_on d (s @ d # t) = s # split_on d t"
  by (induction s) auto

lemma split_on_Nil [simp]: "split_on d s \<noteq> []"
  by (induction s) (auto split: list.splits)

lemma join_split: "join_on d (split_on d s) = s"
proof (induction s)
  case Nil
  then show ?case by simp
next
  case (Cons c s)
  obtain w ws where "split_on d s = w # ws" by (cases "split_on d s") auto
  then show ?case using Cons by (cases ws) auto
qed

lemma split_on_words: "w \<in> set (split_on d s) \<Longrightarrow> d \<notin> set w"
  by (induction s arbitrary: w) (auto split: list.splits if_splits)

lemma split_on_three:
  "split_on d s = [x, y, z] \<longleftrightarrow> s = x @ d # y @ d # z \<and> d \<notin> set x \<union> set y \<union> set z"
proof
  assume h: "split_on d s = [x, y, z]"
  have "s = join_on d [x, y, z]" using join_split [of d s] h by simp
  then show "s = x @ d # y @ d # z \<and> d \<notin> set x \<union> set y \<union> set z"
    using split_on_words [of _ d s] h by auto
next
  assume "s = x @ d # y @ d # z \<and> d \<notin> set x \<union> set y \<union> set z"
  then show "split_on d s = [x, y, z]" by (simp add: split_on_append split_on_none)
qed

subsection \<open>Payment names\<close>

text \<open>\<^verbatim>\<open>%04d\<close>: at least four characters, padded with zeros after the sign.\<close>

definition pay_name :: "int64 \<Rightarrow> string" where
  "pay_name n =
     (let i = sint n; d = nat_text (nat \<bar>i\<bar>); sign = (if i < 0 then ''-'' else [])
      in ''pay_'' @ sign @ replicate (4 - length d - length sign) (CHR ''0'') @ d)"

lemma digits_value_zeros: "digits_value (replicate k (CHR ''0'') @ s) = digits_value s"
proof -
  have "foldl (\<lambda>n c. 10 * n + digit_value c) 0 (replicate k (CHR ''0'')) = 0"
    by (induction k) (simp_all add: digit_value_def)
  then show ?thesis by (simp add: digits_value_def)
qed

lemma pay_name_value: "k < 2 ^ 63 \<Longrightarrow> digits_value (drop 4 (pay_name (of_nat k))) = k"
  by (simp add: pay_name_def Let_def sint64_of_nat digits_value_zeros)

lemma has_prefix_append [simp]: "has_prefix (p @ s) p"
  by (simp add: has_prefix_def)

lemma trim_prefix_append [simp]: "trim_prefix (p @ s) p = s"
  by (simp add: trim_prefix_def)

end
