(* ===== verification/Payments.thy ===== *)
theory Payments
  imports Text
begin

text \<open>
  The domain core of the payments service, \<^verbatim>\<open>internal/payments/service.go\<close> and \<^verbatim>\<open>memory.go\<close> under
  \<^verbatim>\<open>14-backend-development/examples/service\<close>: \<^verbatim>\<open>Service\<close> over the consumer-side interface
  \<^verbatim>\<open>PaymentStore\<close>, and \<^verbatim>\<open>MemoryStore\<close>.  The locale \<open>payment_store\<close> states what the service may
  assume of a store, as operations on the list of payments in the order they were made; the
  interpretation \<open>ms\<close> shows that \<^verbatim>\<open>MemoryStore\<close> meets it.  Counters are the list of events emitted,
  empty when no metrics are attached.
\<close>

subsection \<open>Domain\<close>

datatype status = Charged | Canceled

datatype pay_error =
    Not_found | Insufficient_funds | Forbidden string | Not_cancelable status
  | Validation "string list" | Other string

record payment =
  pay_id :: string
  customer_id :: string
  amount_minor :: int64
  currency :: string
  status :: status
  created_at :: instant

record charge_input =
  in_customer :: string
  in_amount :: int64
  in_currency :: string

definition validate :: "(string \<Rightarrow> string) \<Rightarrow> charge_input \<Rightarrow> string list" where
  "validate uu i =
     (if trim_space (in_customer i) = [] then [''customer_id is required''] else []) @
     (if sint (in_amount i) \<le> 0 then [''amount_minor must be positive''] else []) @
     (if length (in_currency i) \<noteq> 3 \<or> to_upper uu (in_currency i) \<noteq> in_currency i
      then [''currency must be a 3-letter uppercase code''] else [])"

subsection \<open>The store interface and the service\<close>

record 's store_ops =
  st_charge :: "payment \<Rightarrow> 's \<Rightarrow> (pay_error + payment) \<times> 's"
  st_by_id :: "string \<Rightarrow> 's \<Rightarrow> (pay_error + payment) \<times> 's"
  st_cancel :: "string \<Rightarrow> 's \<Rightarrow> pay_error option \<times> 's"
  st_by_customer :: "string \<Rightarrow> int64 \<Rightarrow> 's \<Rightarrow> (pay_error + payment list) \<times> 's"

datatype event = Emit_charged string int64 | Emit_failed string

record 's service =
  store :: "'s store_ops"
  metrics :: bool
  upper :: "string \<Rightarrow> string"

definition emit :: "'s service \<Rightarrow> event \<Rightarrow> event list" where
  "emit svc e = (if metrics svc then [e] else [])"

definition svc_charge ::
  "'s service \<Rightarrow> instant \<Rightarrow> charge_input \<Rightarrow> 's \<Rightarrow> ((pay_error + payment) \<times> event list) \<times> 's" where
  "svc_charge svc now i s =
     (if validate (upper svc) i \<noteq> []
      then ((Inl (Validation (validate (upper svc) i)), emit svc (Emit_failed ''validation'')), s)
      else let (r, s1) = st_charge (store svc)
                 \<lparr>pay_id = [], customer_id = in_customer i, amount_minor = in_amount i,
                  currency = in_currency i, status = Charged, created_at = now\<rparr> s
           in case r of
                Inl e \<Rightarrow> ((Inl e, emit svc (Emit_failed ''store'')), s1)
              | Inr p \<Rightarrow> ((Inr p, emit svc (Emit_charged (currency p) (amount_minor p))), s1))"

definition svc_cancel ::
  "'s service \<Rightarrow> string \<Rightarrow> string \<Rightarrow> 's \<Rightarrow> (pay_error option \<times> event list) \<times> 's" where
  "svc_cancel svc actor pid s =
     (case st_by_id (store svc) pid s of
        (Inl e, s1) \<Rightarrow> ((Some e, emit svc (Emit_failed ''not_found'')), s1)
      | (Inr p, s1) \<Rightarrow>
          if customer_id p \<noteq> actor then ((Some (Forbidden pid), []), s1)
          else if status p \<noteq> Charged then ((Some (Not_cancelable (status p)), []), s1)
          else (case st_cancel (store svc) pid s1 of
                  (Some e, s2) \<Rightarrow> ((Some e, []), s2)
                | (None, s2) \<Rightarrow> ((None, []), s2)))"

definition svc_by_customer ::
  "'s service \<Rightarrow> string \<Rightarrow> int64 \<Rightarrow> 's \<Rightarrow> (pay_error + payment list) \<times> 's" where
  "svc_by_customer svc cid limit s =
     st_by_customer (store svc) cid (if sint limit \<le> 0 \<or> sint limit > 100 then 100 else limit) s"

subsection \<open>MemoryStore\<close>

record memory_store =
  seq :: int64
  payments :: "string \<rightharpoonup> payment"
  order :: "string list"

definition new_memory_store :: memory_store where
  "new_memory_store = \<lparr>seq = 0, payments = Map.empty, order = []\<rparr>"

definition mem_charge :: "payment \<Rightarrow> memory_store \<Rightarrow> (pay_error + payment) \<times> memory_store" where
  "mem_charge p m =
     (let n = seq m + 1; p1 = p\<lparr>pay_id := pay_name n\<rparr>
      in (Inr p1, m\<lparr>seq := n, payments := (payments m)(pay_id p1 \<mapsto> p1), order := order m @ [pay_id p1]\<rparr>))"

definition mem_by_id :: "string \<Rightarrow> memory_store \<Rightarrow> (pay_error + payment) \<times> memory_store" where
  "mem_by_id i m = (case payments m i of None \<Rightarrow> Inl Not_found | Some p \<Rightarrow> Inr p, m)"

definition mem_cancel :: "string \<Rightarrow> memory_store \<Rightarrow> pay_error option \<times> memory_store" where
  "mem_cancel i m =
     (case payments m i of
        None \<Rightarrow> (Some Not_found, m)
      | Some p \<Rightarrow> (None, m\<lparr>payments := (payments m)(i \<mapsto> p\<lparr>status := Canceled\<rparr>)\<rparr>))"

text \<open>The loop of \<^verbatim>\<open>ByCustomer\<close>, over the IDs from the newest; a missing ID reads as the zero payment.\<close>

definition zero_payment :: payment where
  "zero_payment = \<lparr>pay_id = [], customer_id = [], amount_minor = 0, currency = [], status = Charged, created_at = 0\<rparr>"

fun collect :: "(string \<rightharpoonup> payment) \<Rightarrow> string \<Rightarrow> int64 \<Rightarrow> string list \<Rightarrow> payment list \<Rightarrow> payment list" where
  "collect m cid limit [] out = out"
| "collect m cid limit (i # is) out =
     (if int (length out) < sint limit
      then let p = (case m i of Some p \<Rightarrow> p | None \<Rightarrow> zero_payment)
           in collect m cid limit is (if customer_id p = cid then out @ [p] else out)
      else out)"

definition mem_by_customer ::
  "string \<Rightarrow> int64 \<Rightarrow> memory_store \<Rightarrow> (pay_error + payment list) \<times> memory_store" where
  "mem_by_customer cid limit m = (Inr (collect (payments m) cid limit (rev (order m)) []), m)"

definition memory_ops :: "memory_store store_ops" where
  "memory_ops = \<lparr>st_charge = mem_charge, st_by_id = mem_by_id, st_cancel = mem_cancel,
     st_by_customer = mem_by_customer\<rparr>"

subsection \<open>What a store promises\<close>

text \<open>\<open>view\<close> is the list of payments, oldest first; \<open>ok\<close> the store's invariant.\<close>

definition cancel_in :: "string \<Rightarrow> payment list \<Rightarrow> payment list" where
  "cancel_in i ps = map (\<lambda>p. if pay_id p = i then p\<lparr>status := Canceled\<rparr> else p) ps"

definition find_id :: "string \<Rightarrow> payment list \<Rightarrow> payment option" where
  "find_id i ps = find (\<lambda>p. pay_id p = i) ps"

lemma take_min_length: "take (min (length xs) n) xs = take n xs"
  by (simp add: min_def)

locale payment_store =
  fixes ops :: "'s store_ops"
    and view :: "'s \<Rightarrow> payment list"
    and ok :: "'s \<Rightarrow> bool"
  assumes charge_law: "ok s \<Longrightarrow> length (view s) < 2 ^ 62 \<Longrightarrow> \<exists>i s'.
      st_charge ops p s = (Inr (p\<lparr>pay_id := i\<rparr>), s') \<and> ok s' \<and> view s' = view s @ [p\<lparr>pay_id := i\<rparr>] \<and>
      i \<notin> pay_id ` set (view s)"
    and by_id_law: "ok s \<Longrightarrow> st_by_id ops i s =
      (case find_id i (view s) of None \<Rightarrow> Inl Not_found | Some p \<Rightarrow> Inr p, s)"
    and cancel_law: "ok s \<Longrightarrow> find_id i (view s) = Some p \<Longrightarrow> \<exists>s'.
      st_cancel ops i s = (None, s') \<and> ok s' \<and> view s' = cancel_in i (view s)"
    and by_customer_law: "ok s \<Longrightarrow> st_by_customer ops c n s =
      (Inr (take (nat (sint n)) (filter (\<lambda>p. customer_id p = c) (rev (view s)))), s)"
begin

lemma charge_valid:
  assumes "ok s" "length (view s) < 2 ^ 62" "validate (upper svc) i = []" "store svc = ops"
  shows "\<exists>p s'. svc_charge svc now i s = ((Inr p, emit svc (Emit_charged (in_currency i) (in_amount i))), s') \<and>
    ok s' \<and> view s' = view s @ [p] \<and> pay_id p \<notin> pay_id ` set (view s) \<and> status p = Charged \<and>
    customer_id p = in_customer i \<and> amount_minor p = in_amount i \<and> currency p = in_currency i \<and> created_at p = now"
proof -
  let ?p = "\<lparr>pay_id = [], customer_id = in_customer i, amount_minor = in_amount i,
    currency = in_currency i, status = Charged, created_at = now\<rparr>"
  obtain k s' where "st_charge ops ?p s = (Inr (?p\<lparr>pay_id := k\<rparr>), s')" "ok s'"
    "view s' = view s @ [?p\<lparr>pay_id := k\<rparr>]" "k \<notin> pay_id ` set (view s)"
    using charge_law [OF assms(1,2), of ?p] by blast
  then show ?thesis
    using assms(3,4) by (intro exI [of _ "?p\<lparr>pay_id := k\<rparr>"] exI [of _ s']) (simp add: svc_charge_def)
qed

lemma cancel_own:
  assumes "ok s" "find_id i (view s) = Some p" "customer_id p = c" "status p = Charged" "store svc = ops"
  shows "\<exists>s'. svc_cancel svc c i s = ((None, []), s') \<and> ok s' \<and> view s' = cancel_in i (view s)"
  using cancel_law [OF assms(1,2)] by_id_law [OF assms(1), of i] assms(2-5)
  by (auto simp: svc_cancel_def)

lemma cancel_refused:
  assumes "ok s" "store svc = ops" "\<nexists>p. find_id i (view s) = Some p \<and> customer_id p = c \<and> status p = Charged"
  shows "\<exists>e es. svc_cancel svc c i s = ((Some e, es), s) \<and>
    (case find_id i (view s) of
       None \<Rightarrow> e = Not_found
     | Some p \<Rightarrow> e = (if customer_id p \<noteq> c then Forbidden i else Not_cancelable (status p)))"
  using by_id_law [OF assms(1), of i] assms(2,3)
  by (cases "find_id i (view s)") (auto simp: svc_cancel_def)

lemma by_customer_bounded:
  assumes "ok s" "store svc = ops"
  shows "\<exists>ps. svc_by_customer svc c n s = (Inr ps, s) \<and> length ps \<le> 100 \<and>
    ps = take (length ps) (filter (\<lambda>p. customer_id p = c) (rev (view s)))"
  using by_customer_law [OF assms(1)] assms(2) by (auto simp: svc_by_customer_def take_min_length)

end

subsection \<open>MemoryStore keeps the promise\<close>

definition mem_view :: "memory_store \<Rightarrow> payment list" where
  "mem_view m = map (\<lambda>i. the (payments m i)) (order m)"

definition mem_ok :: "memory_store \<Rightarrow> bool" where
  [inv_defs]: "mem_ok m \<longleftrightarrow>
     seq m = of_nat (length (order m)) \<and>
     order m = map (\<lambda>k. pay_name (of_nat (Suc k))) [0..<length (order m)] \<and>
     dom (payments m) = set (order m) \<and> (\<forall>i p. payments m i = Some p \<longrightarrow> pay_id p = i)"

lemma pay_name_fresh:
  assumes "mem_ok m" "length (order m) < 2 ^ 62"
  shows "pay_name (seq m + 1) \<notin> set (order m)"
proof
  let ?n = "length (order m)"
  have seq: "seq m + 1 = of_nat (Suc ?n)" using assms(1) by (simp add: mem_ok_def)
  assume "pay_name (seq m + 1) \<in> set (order m)"
  moreover have "set (order m) = (\<lambda>k. pay_name (of_nat (Suc k))) ` {0..<?n}"
    using assms(1) unfolding mem_ok_def by (metis set_map set_upt)
  ultimately obtain k where k: "k < ?n" "pay_name (of_nat (Suc ?n)) = pay_name (of_nat (Suc k))"
    unfolding seq by auto
  then have "Suc ?n = Suc k"
    using assms(2) pay_name_value [of "Suc ?n"] pay_name_value [of "Suc k"] by simp
  then show False using k(1) by simp
qed

lemma mem_ok_dest:
  assumes "mem_ok m"
  shows "seq m = of_nat (length (order m))" "dom (payments m) = set (order m)"
    "payments m i = Some p \<Longrightarrow> pay_id p = i" "i \<in> set (order m) \<Longrightarrow> \<exists>p. payments m i = Some p \<and> pay_id p = i"
proof -
  show seq: "seq m = of_nat (length (order m))" and dom: "dom (payments m) = set (order m)"
    and ids: "payments m i = Some p \<Longrightarrow> pay_id p = i" for i p
    using assms unfolding mem_ok_def by blast+
  show "i \<in> set (order m) \<Longrightarrow> \<exists>p. payments m i = Some p \<and> pay_id p = i"
    using dom ids by blast
qed

lemma mem_view_ids: "mem_ok m \<Longrightarrow> pay_id ` set (mem_view m) = set (order m)"
  using mem_ok_dest(4) [of m] by (force simp: mem_view_def image_iff)

lemma mem_find:
  assumes "mem_ok m"
  shows "find_id i (mem_view m) = payments m i"
proof -
  have "find_id i (map (\<lambda>i. the (payments m i)) xs) = (if i \<in> set xs then payments m i else None)"
    if "set xs \<subseteq> set (order m)" for xs
    using that
  proof (induction xs)
    case Nil
    then show ?case by (simp add: find_id_def)
  next
    case (Cons x xs)
    then obtain p where "payments m x = Some p" "pay_id p = x" using mem_ok_dest(4) [OF assms, of x] by auto
    with Cons show ?case by (auto simp: find_id_def)
  qed
  from this [of "order m"] show ?thesis
    using mem_ok_dest(2) [OF assms] domIff [of i "payments m"] by (auto simp: mem_view_def)
qed

lemma mem_charge_ok:
  assumes "mem_ok m" "length (order m) < 2 ^ 62" "mem_charge p m = (r, m')"
  shows "r = Inr (p\<lparr>pay_id := pay_name (seq m + 1)\<rparr>)" "mem_ok m'"
    "mem_view m' = mem_view m @ [p\<lparr>pay_id := pay_name (seq m + 1)\<rparr>]"
proof -
  let ?i = "pay_name (seq m + 1)"
  have m': "m' = m\<lparr>seq := seq m + 1, payments := (payments m)(?i \<mapsto> p\<lparr>pay_id := ?i\<rparr>), order := order m @ [?i]\<rparr>"
    and r: "r = Inr (p\<lparr>pay_id := ?i\<rparr>)"
    using assms(3) by (simp_all add: mem_charge_def Let_def)
  show "r = Inr (p\<lparr>pay_id := ?i\<rparr>)" by (fact r)
  have ord: "order m = map (\<lambda>k. pay_name (of_nat (Suc k))) [0..<length (order m)]"
    and seq: "seq m = of_nat (length (order m))" and dom: "dom (payments m) = set (order m)"
    using assms(1) unfolding mem_ok_def by blast+
  let ?f = "\<lambda>k. pay_name (of_nat (Suc k))"
  have i: "?i = ?f (length (order m))" by (simp add: seq add.commute)
  have "order m @ [?f (length (order m))] = map ?f [0..<length (order m)] @ [?f (length (order m))]"
    by (simp only: append_same_eq) (rule ord)
  then have "order m' = map ?f [0..<length (order m')]" by (simp add: m' i)
  moreover have "seq m' = of_nat (length (order m'))" by (simp add: m' seq)
  moreover have "dom (payments m') = set (order m')" by (simp add: m' dom)
  moreover have "\<forall>i q. payments m' i = Some q \<longrightarrow> pay_id q = i"
    using mem_ok_dest(3) [OF assms(1)] by (simp add: m')
  ultimately show "mem_ok m'" unfolding mem_ok_def by blast
  show "mem_view m' = mem_view m @ [p\<lparr>pay_id := ?i\<rparr>]"
    using pay_name_fresh [OF assms(1,2)] by (auto simp: mem_view_def m')
qed

lemma mem_cancel_ok:
  assumes "mem_ok m" "payments m i = Some p"
  shows "\<exists>m'. mem_cancel i m = (None, m') \<and> mem_ok m' \<and> mem_view m' = cancel_in i (mem_view m)"
proof -
  let ?m = "m\<lparr>payments := (payments m)(i \<mapsto> p\<lparr>status := Canceled\<rparr>)\<rparr>"
  have "pay_id p = i" "i \<in> set (order m)" using assms mem_ok_dest by blast+
  have "mem_ok ?m"
    using assms(1) \<open>pay_id p = i\<close> \<open>i \<in> set (order m)\<close> unfolding mem_ok_def by (simp add: insert_absorb)
  moreover have "mem_view ?m = cancel_in i (mem_view m)"
    using assms(2) mem_ok_dest(4) [OF assms(1)] \<open>pay_id p = i\<close>
    by (fastforce simp: mem_view_def cancel_in_def)
  ultimately show ?thesis using assms(2) by (simp add: mem_cancel_def)
qed

lemma collect_spec:
  assumes "\<forall>i \<in> set is. m i \<noteq> None" "int (length out) \<le> max 0 (sint limit)"
  shows "collect m cid limit is out =
    out @ take (nat (sint limit) - length out) (filter (\<lambda>p. customer_id p = cid) (map (\<lambda>i. the (m i)) is))"
  using assms
proof (induction "is" arbitrary: out)
  case Nil
  then show ?case by simp
next
  case (Cons i "is")
  then obtain p where "m i = Some p" by auto
  with Cons show ?case by (auto simp: Let_def Suc_diff_Suc take_Suc_conv_app_nth split: nat_diff_split)
qed

interpretation ms: payment_store memory_ops mem_view mem_ok
proof unfold_locales
  fix s :: memory_store and p
  assume ok: "mem_ok s" and "length (mem_view s) < 2 ^ 62"
  then have len: "length (order s) < 2 ^ 62" by (simp add: mem_view_def)
  obtain r s' where run: "mem_charge p s = (r, s')" by fastforce
  show "\<exists>i s'. st_charge memory_ops p s = (Inr (p\<lparr>pay_id := i\<rparr>), s') \<and> mem_ok s' \<and>
      mem_view s' = mem_view s @ [p\<lparr>pay_id := i\<rparr>] \<and> i \<notin> pay_id ` set (mem_view s)"
    using mem_charge_ok [OF ok len run] run pay_name_fresh [OF ok len] mem_view_ids [OF ok]
    by (auto simp: memory_ops_def)
next
  fix s :: memory_store and i
  assume "mem_ok s"
  then show "st_by_id memory_ops i s = (case find_id i (mem_view s) of None \<Rightarrow> Inl Not_found | Some p \<Rightarrow> Inr p, s)"
    by (simp add: memory_ops_def mem_by_id_def mem_find)
next
  fix s :: memory_store and i p
  assume "mem_ok s" "find_id i (mem_view s) = Some p"
  then show "\<exists>s'. st_cancel memory_ops i s = (None, s') \<and> mem_ok s' \<and> mem_view s' = cancel_in i (mem_view s)"
    using mem_cancel_ok [of s i p] by (simp add: memory_ops_def mem_find)
next
  fix s :: memory_store and c n
  assume "mem_ok s"
  then have "\<forall>i \<in> set (rev (order s)). payments s i \<noteq> None" using mem_ok_dest(4) by force
  from collect_spec [OF this, of "[]" n c]
  show "st_by_customer memory_ops c n s =
      (Inr (take (nat (sint n)) (filter (\<lambda>p. customer_id p = c) (rev (mem_view s)))), s)"
    by (simp add: memory_ops_def mem_by_customer_def mem_view_def rev_map)
qed

lemma mem_ok_new: "mem_ok new_memory_store" "mem_view new_memory_store = []"
  by (simp_all add: mem_ok_def mem_view_def new_memory_store_def)

end
