(* ===== verification/Payments_Concurrent.thy ===== *)
theory Payments_Concurrent
  imports Payments
begin

text \<open>
  The payments service of \<^verbatim>\<open>14-backend-development/examples/service\<close> under concurrent requests: every
  handler's goroutine takes the store's lock once per store call, so \<^verbatim>\<open>Charge\<close> is one step and \<^verbatim>\<open>Cancel\<close> two,
  its check and its write.
\<close>

subsection \<open>Requests in flight\<close>

datatype session =
    To_charge instant charge_input | Charge_done "pay_error + payment"
  | To_cancel string string | Cancelling string string | Cancel_done string string "pay_error option"

record 's shop =
  repo :: 's
  sessions :: "session list"

definition advance :: "nat \<Rightarrow> session \<Rightarrow> 's \<Rightarrow> 's shop \<Rightarrow> 's shop" where
  "advance k x s t = t\<lparr>repo := s, sessions := (sessions t)[k := x]\<rparr>"

text \<open>\<^verbatim>\<open>Cancel\<close> up to its decision.\<close>

definition look_up :: "'s service \<Rightarrow> string \<Rightarrow> string \<Rightarrow> 's \<Rightarrow> session \<times> 's" where
  "look_up svc actor pid s =
     (case st_by_id (store svc) pid s of
        (Inl e, s1) \<Rightarrow> (Cancel_done actor pid (Some e), s1)
      | (Inr p, s1) \<Rightarrow>
          (if customer_id p \<noteq> actor then Cancel_done actor pid (Some (Forbidden pid))
           else if status p \<noteq> Charged then Cancel_done actor pid (Some (Not_cancelable (status p)))
           else Cancelling actor pid, s1))"

definition write_cancel :: "'s service \<Rightarrow> string \<Rightarrow> string \<Rightarrow> 's \<Rightarrow> session \<times> 's" where
  "write_cancel svc actor pid s =
     (case st_cancel (store svc) pid s of (r, s1) \<Rightarrow> (Cancel_done actor pid r, s1))"

inductive shop_step :: "'s service \<Rightarrow> 's shop \<Rightarrow> 's shop \<Rightarrow> bool" for svc where
  ask_charge: "shop_step svc t (t\<lparr>sessions := sessions t @ [To_charge now i]\<rparr>)"
| ask_cancel: "shop_step svc t (t\<lparr>sessions := sessions t @ [To_cancel a i]\<rparr>)"
| charge: "k < length (sessions t) \<Longrightarrow> sessions t ! k = To_charge now i \<Longrightarrow>
    svc_charge svc now i (repo t) = ((r, es), s) \<Longrightarrow> shop_step svc t (advance k (Charge_done r) s t)"
| look: "k < length (sessions t) \<Longrightarrow> sessions t ! k = To_cancel a i \<Longrightarrow>
    look_up svc a i (repo t) = (x, s) \<Longrightarrow> shop_step svc t (advance k x s t)"
| cancel: "k < length (sessions t) \<Longrightarrow> sessions t ! k = Cancelling a i \<Longrightarrow>
    write_cancel svc a i (repo t) = (x, s) \<Longrightarrow> shop_step svc t (advance k x s t)"

text \<open>Without interruption the two steps are \<^verbatim>\<open>Cancel\<close>.\<close>

lemma cancel_uninterrupted:
  "(case look_up svc a i s of
      (Cancelling a1 i1, s1) \<Rightarrow> write_cancel svc a1 i1 s1
    | (x, s1) \<Rightarrow> (x, s1)) =
   (Cancel_done a i (fst (fst (svc_cancel svc a i s))), snd (svc_cancel svc a i s))"
  by (auto simp: look_up_def write_cancel_def svc_cancel_def split: sum.split prod.split option.split)

subsection \<open>What requests can rely on\<close>

lemma find_id_append: "find_id i (v @ w) = (case find_id i v of None \<Rightarrow> find_id i w | Some p \<Rightarrow> Some p)"
  by (induction v) (simp_all add: find_id_def)

lemma find_id_cancel:
  "find_id i (cancel_in j v) = map_option (\<lambda>p. if pay_id p = j then p\<lparr>status := Canceled\<rparr> else p) (find_id i v)"
  by (induction v) (simp_all add: find_id_def cancel_in_def)

lemma find_id_Some: "find_id i v = Some p \<Longrightarrow> p \<in> set v \<and> pay_id p = i"
  by (induction v) (auto simp: find_id_def split: if_splits)

lemma find_id_in: "p \<in> set v \<Longrightarrow> distinct (map pay_id v) \<Longrightarrow> find_id (pay_id p) v = Some p"
  by (induction v) (auto simp: find_id_def rev_image_eqI)

lemma cancel_in_ids: "map pay_id (cancel_in i v) = map pay_id v" "length (cancel_in i v) = length v"
  by (simp_all add: cancel_in_def)

text \<open>Payments are kept; only a status may become canceled.\<close>

definition keeps :: "payment list \<Rightarrow> payment list \<Rightarrow> bool" where
  "keeps v w \<longleftrightarrow>
     (\<forall>i p. find_id i v = Some p \<longrightarrow> (\<exists>q. find_id i w = Some q \<and> (q = p \<or> q = p\<lparr>status := Canceled\<rparr>)))"

lemma keepsD:
  assumes "keeps v w" "find_id i v = Some p"
  shows "\<exists>q. find_id i w = Some q \<and> customer_id q = customer_id p \<and> amount_minor q = amount_minor p \<and>
    currency q = currency p \<and> (status p = Canceled \<longrightarrow> status q = Canceled)"
proof -
  obtain q where "find_id i w = Some q" "q = p \<or> q = p\<lparr>status := Canceled\<rparr>" using assms unfolding keeps_def by blast
  then show ?thesis by auto
qed

lemma keeps_refl: "keeps v v"
  by (simp add: keeps_def)

lemma keeps_charge: "keeps v (v @ [p])"
  by (simp add: keeps_def find_id_append)

lemma keeps_cancel: "keeps v (cancel_in i v)"
  by (auto simp: keeps_def find_id_cancel)

fun session_ok :: "payment list \<Rightarrow> session \<Rightarrow> bool" where
  "session_ok v (Cancelling a i) \<longleftrightarrow> (\<exists>p. find_id i v = Some p \<and> customer_id p = a)"
| "session_ok v (Cancel_done a i None) \<longleftrightarrow> (\<exists>p. find_id i v = Some p \<and> customer_id p = a \<and> status p = Canceled)"
| "session_ok v (Cancel_done a i (Some e)) \<longleftrightarrow>
     e = Not_found \<or>
     e = Forbidden i \<and> (\<exists>p. find_id i v = Some p \<and> customer_id p \<noteq> a) \<or>
     e = Not_cancelable Canceled \<and> (\<exists>p. find_id i v = Some p \<and> customer_id p = a \<and> status p = Canceled)"
| "session_ok v (Charge_done (Inr p)) \<longleftrightarrow>
     (\<exists>q. find_id (pay_id p) v = Some q \<and> customer_id q = customer_id p \<and> amount_minor q = amount_minor p \<and> currency q = currency p)"
| "session_ok v x \<longleftrightarrow> True"

lemma session_ok_kept:
  assumes "keeps v w" "session_ok v x"
  shows "session_ok w x"
  using assms(2) by (cases "(v, x)" rule: session_ok.cases) (use keepsD [OF assms(1)] in \<open>fastforce+\<close>)

fun waiting :: "session \<Rightarrow> nat" where
  "waiting (To_charge now i) = 1"
| "waiting x = 0"

context payment_store
begin

definition shop_inv :: "'s shop \<Rightarrow> bool" where
  "shop_inv t \<longleftrightarrow>
     ok (repo t) \<and> distinct (map pay_id (view (repo t))) \<and>
     length (view (repo t)) + sum_list (map waiting (sessions t)) \<le> length (sessions t) \<and>
     (\<forall>x \<in> set (sessions t). session_ok (view (repo t)) x) \<and>
     (\<forall>p \<in> set (view (repo t)). status p = Canceled \<longrightarrow>
        Cancel_done (customer_id p) (pay_id p) None \<in> set (sessions t))"

lemma shop_advance_inv:
  assumes inv: "shop_inv t" and k: "k < length (sessions t)" "\<And>a i. sessions t ! k \<noteq> Cancel_done a i None"
    and s: "ok s" "distinct (map pay_id (view s))" "keeps (view (repo t)) (view s)"
    and x: "session_ok (view s) x" "length (view s) + waiting x \<le> length (view (repo t)) + waiting (sessions t ! k)"
    and c: "\<And>p. p \<in> set (view s) \<Longrightarrow> status p = Canceled \<Longrightarrow> x \<noteq> Cancel_done (customer_id p) (pay_id p) None \<Longrightarrow>
      Cancel_done (customer_id p) (pay_id p) None \<in> set (sessions t)"
  shows "shop_inv (advance k x s t)"
proof -
  have "length (view s) + sum_list (map waiting ((sessions t)[k := x])) \<le> length (sessions t)"
    using inv x(2) sum_list_map_update [OF k(1), of waiting x] by (simp add: shop_inv_def)
  moreover have "\<forall>y \<in> set ((sessions t)[k := x]). session_ok (view s) y"
    using inv x(1) session_ok_kept [OF s(3)] set_update_subset_insert [of "sessions t" k x]
    by (auto simp: shop_inv_def)
  moreover have "Cancel_done (customer_id p) (pay_id p) None \<in> set ((sessions t)[k := x])"
    if p: "p \<in> set (view s)" "status p = Canceled" for p
  proof (cases "x = Cancel_done (customer_id p) (pay_id p) None")
    case True
    then show ?thesis using k(1) set_update_memI by fastforce
  next
    case False
    then obtain j where "j < length (sessions t)" "sessions t ! j = Cancel_done (customer_id p) (pay_id p) None"
      using c p by (metis in_set_conv_nth)
    moreover from this have "j \<noteq> k" using k(2) by auto
    ultimately show ?thesis by (metis in_set_conv_nth length_list_update nth_list_update_neq)
  qed
  ultimately show ?thesis using s(1,2) by (simp add: shop_inv_def advance_def)
qed

lemma shop_look_inv:
  assumes inv: "shop_inv t" and svc: "store svc = ops"
    and k: "k < length (sessions t)" "sessions t ! k = To_cancel a i" and look: "look_up svc a i (repo t) = (x, s)"
  shows "shop_inv (advance k x s t)"
proof -
  have ok: "ok (repo t)" using inv by (simp add: shop_inv_def)
  have by_id: "st_by_id ops i (repo t) = (case find_id i (view (repo t)) of None \<Rightarrow> Inl Not_found | Some p \<Rightarrow> Inr p, repo t)"
    using by_id_law [OF ok] .
  have "s = repo t \<and> session_ok (view (repo t)) x \<and> waiting x = 0 \<and> (\<forall>b j. x \<noteq> Cancel_done b j None)"
  proof (cases "find_id i (view (repo t))")
    case None
    then show ?thesis using look by_id svc by (auto simp: look_up_def)
  next
    case (Some p)
    then have "look_up svc a i (repo t) =
        (if customer_id p \<noteq> a then Cancel_done a i (Some (Forbidden i))
         else if status p \<noteq> Charged then Cancel_done a i (Some (Not_cancelable (status p))) else Cancelling a i, repo t)"
      using by_id svc by (simp add: look_up_def)
    then show ?thesis using look Some by (cases "status p") (auto split: if_splits)
  qed
  then have s: "s = repo t" and x: "session_ok (view (repo t)) x" "waiting x = 0" "\<And>b j. x \<noteq> Cancel_done b j None"
    by blast+
  show ?thesis
    using inv x k(2) unfolding s
    by (intro shop_advance_inv [OF inv k(1)]) (auto simp: shop_inv_def keeps_refl)
qed

lemma shop_cancel_inv:
  assumes inv: "shop_inv t" and svc: "store svc = ops"
    and k: "k < length (sessions t)" "sessions t ! k = Cancelling a i" and run: "write_cancel svc a i (repo t) = (x, s)"
  shows "shop_inv (advance k x s t)"
proof -
  have ok: "ok (repo t)" using inv by (simp add: shop_inv_def)
  have "session_ok (view (repo t)) (Cancelling a i)" using inv k by (metis nth_mem shop_inv_def)
  then obtain p where p: "find_id i (view (repo t)) = Some p" "customer_id p = a" by auto
  then obtain s1 where "st_cancel ops i (repo t) = (None, s1)" "ok s1" "view s1 = cancel_in i (view (repo t))"
    using cancel_law [OF ok] by blast
  then have s: "x = Cancel_done a i None" "ok s" "view s = cancel_in i (view (repo t))"
    using run svc by (simp_all add: write_cancel_def)
  have "Cancel_done (customer_id q) (pay_id q) None \<in> set (sessions t)"
    if q: "q \<in> set (view s)" "status q = Canceled" "x \<noteq> Cancel_done (customer_id q) (pay_id q) None" for q
  proof -
    obtain q0 where q0: "q0 \<in> set (view (repo t))" "q = (if pay_id q0 = i then q0\<lparr>status := Canceled\<rparr> else q0)"
      using q(1) s(3) by (auto simp: cancel_in_def)
    have "pay_id q0 \<noteq> i"
    proof
      assume "pay_id q0 = i"
      then have "find_id i (view (repo t)) = Some q0" using q0(1) inv find_id_in by (fastforce simp: shop_inv_def)
      then show False using p q0(2) q(3) s(1) find_id_Some by fastforce
    qed
    then show ?thesis using q0 q(2) inv by (simp add: shop_inv_def)
  qed
  moreover have "session_ok (view s) x" using p by (auto simp: s find_id_cancel dest: find_id_Some)
  ultimately show ?thesis
    using inv s k(2) by (intro shop_advance_inv [OF inv k(1)]) (auto simp: shop_inv_def keeps_cancel cancel_in_ids)
qed

lemma shop_charge_inv:
  assumes inv: "shop_inv t" and svc: "store svc = ops" and room: "length (sessions t) < 2 ^ 62"
    and k: "k < length (sessions t)" "sessions t ! k = To_charge now i" and run: "svc_charge svc now i (repo t) = ((r, es), s)"
  shows "shop_inv (advance k (Charge_done r) s t)"
proof (cases "validate (upper svc) i = []")
  case True
  have ok: "ok (repo t)" and len: "length (view (repo t)) < 2 ^ 62" using inv room by (auto simp: shop_inv_def)
  from charge_valid [OF ok len True svc, of now] run obtain p where
    p: "r = Inr p" "ok s" "view s = view (repo t) @ [p]" "pay_id p \<notin> pay_id ` set (view (repo t))" "status p = Charged"
    by auto
  have "session_ok (view s) (Charge_done r)"
    using find_id_in [of p "view s"] inv p by (auto simp: shop_inv_def)
  then show ?thesis
    using inv p k(2) by (intro shop_advance_inv [OF inv k(1)]) (auto simp: shop_inv_def keeps_charge)
next
  case False
  then have "s = repo t" "\<exists>e. r = Inl e" using run by (auto simp: svc_charge_def)
  then show ?thesis using inv k(2)
    by (intro shop_advance_inv [OF inv k(1)]) (auto simp: shop_inv_def keeps_refl)
qed

lemma shop_step_inv:
  assumes "shop_step svc t u" "store svc = ops" "length (sessions t) < 2 ^ 62" "shop_inv t"
  shows "shop_inv u"
  using assms
proof (induction rule: shop_step.induct)
  case (charge k t now i r es s)
  then show ?case by (rule_tac shop_charge_inv)
next
  case (look k t a i x s)
  then show ?case by (rule_tac shop_look_inv)
next
  case (cancel k t a i x s)
  then show ?case by (rule_tac shop_cancel_inv)
qed (auto simp: shop_inv_def)

lemma sessions_grow: "(shop_step svc)\<^sup>*\<^sup>* t u \<Longrightarrow> length (sessions t) \<le> length (sessions u)"
proof (induction rule: rtranclp_induct)
  case (step u v)
  from step(2) have "length (sessions u) \<le> length (sessions v)" by (induction rule: shop_step.induct) (simp_all add: advance_def)
  with step(3) show ?case by simp
qed simp

lemma shop_run_inv:
  assumes "(shop_step svc)\<^sup>*\<^sup>* t u" "store svc = ops" "shop_inv t"
  shows "length (sessions u) < 2 ^ 62 \<Longrightarrow> shop_inv u"
  using assms(1)
proof (induction rule: rtranclp_induct)
  case (step u v)
  have "length (sessions u) < 2 ^ 62" using sessions_grow [OF r_into_rtranclp, of svc u v, OF step(2)] step(4) by simp
  with step show ?case using shop_step_inv [OF step(2) assms(2)] by blast
qed (use assms(3) in simp)

end

subsection \<open>Properties\<close>

text \<open>C13: ownership holds under concurrent requests.  However the store calls of charges and cancels
  interleave, a payment is canceled exactly when a cancel by its own customer has answered success, a
  successful cancel is of a payment of the actor's, what a successful charge returned is still there with
  its customer and amount, and no two payments share an identifier.\<close>

theorem cancel_owned:
  assumes "store svc = memory_ops" "(shop_step svc)\<^sup>*\<^sup>* \<lparr>repo = new_memory_store, sessions = []\<rparr> t"
    and "length (sessions t) < 2 ^ 62"
  shows "distinct (map pay_id (mem_view (repo t))) \<and>
    (\<forall>p \<in> set (mem_view (repo t)).
       status p = Canceled \<longleftrightarrow> Cancel_done (customer_id p) (pay_id p) None \<in> set (sessions t)) \<and>
    (\<forall>a i. Cancel_done a i None \<in> set (sessions t) \<longrightarrow>
       (\<exists>p \<in> set (mem_view (repo t)). pay_id p = i \<and> customer_id p = a)) \<and>
    (\<forall>p. Charge_done (Inr p) \<in> set (sessions t) \<longrightarrow>
       (\<exists>q \<in> set (mem_view (repo t)). pay_id q = pay_id p \<and> customer_id q = customer_id p \<and>
          amount_minor q = amount_minor p \<and> currency q = currency p))"
proof -
  have "ms.shop_inv \<lparr>repo = new_memory_store, sessions = []\<rparr>" by (simp add: ms.shop_inv_def mem_ok_new)
  from ms.shop_run_inv [OF assms(2,1) this assms(3)] have inv: "ms.shop_inv t" .
  let ?v = "mem_view (repo t)"
  have dist: "distinct (map pay_id ?v)" using inv by (simp add: ms.shop_inv_def)
  have own: "\<exists>p. find_id i ?v = Some p \<and> customer_id p = a \<and> status p = Canceled"
    if "Cancel_done a i None \<in> set (sessions t)" for a i
    using that inv by (fastforce simp: ms.shop_inv_def)
  have made: "\<exists>q. find_id (pay_id p) ?v = Some q \<and> customer_id q = customer_id p \<and> amount_minor q = amount_minor p \<and>
      currency q = currency p" if "Charge_done (Inr p) \<in> set (sessions t)" for p
    using that inv by (fastforce simp: ms.shop_inv_def)
  have "status p = Canceled \<longleftrightarrow> Cancel_done (customer_id p) (pay_id p) None \<in> set (sessions t)" if "p \<in> set ?v" for p
    using own [of "customer_id p" "pay_id p"] find_id_in [OF that dist] that inv by (auto simp: ms.shop_inv_def)
  then show ?thesis using dist own made find_id_Some by blast
qed

text \<open>One payment made, and canceled by two requests that both looked it up first.\<close>

definition shop_service :: "memory_store service" where
  "shop_service = \<lparr>store = memory_ops, metrics = False, upper = id\<rparr>"

definition order_usd :: charge_input where
  "order_usd = \<lparr>in_customer = ''c'', in_amount = 5, in_currency = ''USD''\<rparr>"

definition first_payment :: payment where
  "first_payment = \<lparr>pay_id = pay_name 1, customer_id = ''c'', amount_minor = 5, currency = ''USD'', status = Charged, created_at = 7\<rparr>"

lemma order_usd_valid: "validate (upper shop_service) order_usd = []"
proof -
  have "trim_space ''c'' = ''c''" using trim_blanks [of "''c''" 0 0] by (simp add: solid_def blanks_def)
  then show ?thesis by (simp add: validate_def order_usd_def to_upper_def is_ascii_def upper_char_def)
qed

lemma double_cancel_run:
  "\<exists>t. (shop_step shop_service)\<^sup>*\<^sup>* \<lparr>repo = new_memory_store, sessions = []\<rparr> t \<and>
     mem_view (repo t) = [first_payment\<lparr>status := Canceled\<rparr>] \<and>
     sessions t = [Charge_done (Inr first_payment), Cancel_done ''c'' (pay_name 1) None, Cancel_done ''c'' (pay_name 1) None]"
proof -
  let ?i = "pay_name 1"
  let ?m = "\<lparr>seq = 1, payments = [?i \<mapsto> first_payment], order = [?i]\<rparr>"
  let ?n = "\<lparr>seq = 1, payments = [?i \<mapsto> first_payment\<lparr>status := Canceled\<rparr>], order = [?i]\<rparr>"
  let ?s = "\<lambda>m xs. \<lparr>repo = m, sessions = xs\<rparr>"
  let ?step = "shop_step shop_service"
  have store: "store shop_service = memory_ops" by (simp add: shop_service_def)
  have made: "svc_charge shop_service 7 order_usd new_memory_store = ((Inr first_payment, []), ?m)"
    using order_usd_valid
    by (simp add: svc_charge_def store memory_ops_def mem_charge_def new_memory_store_def order_usd_def first_payment_def
        Let_def emit_def) (simp add: shop_service_def)
  have 1: "?step (?s new_memory_store []) (?s new_memory_store [To_charge 7 order_usd])"
    using shop_step.ask_charge [of shop_service "?s new_memory_store []" 7 order_usd] by simp
  have 2: "?step (?s new_memory_store [To_charge 7 order_usd]) (?s ?m [Charge_done (Inr first_payment)])"
    using shop_step.charge [of 0 "?s new_memory_store [To_charge 7 order_usd]" 7 order_usd shop_service "Inr first_payment" "[]" ?m] made
    by (simp add: advance_def)
  let ?d = "Charge_done (Inr first_payment)" and ?a = "To_cancel ''c'' ?i" and ?b = "Cancelling ''c'' ?i" and ?c = "Cancel_done ''c'' ?i None"
  have look: "look_up shop_service ''c'' ?i ?m = (?b, ?m)"
    by (simp add: look_up_def store memory_ops_def mem_by_id_def first_payment_def)
  have cut: "write_cancel shop_service ''c'' ?i ?m = (?c, ?n)" "write_cancel shop_service ''c'' ?i ?n = (?c, ?n)"
    by (simp_all add: write_cancel_def store memory_ops_def mem_cancel_def)
  have 3: "?step (?s ?m [?d]) (?s ?m [?d, ?a])" "?step (?s ?m [?d, ?a]) (?s ?m [?d, ?a, ?a])"
    using shop_step.ask_cancel [of shop_service "?s ?m [?d]" "''c''" ?i]
      shop_step.ask_cancel [of shop_service "?s ?m [?d, ?a]" "''c''" ?i] by simp_all
  have 4: "?step (?s ?m [?d, ?a, ?a]) (?s ?m [?d, ?b, ?a])" "?step (?s ?m [?d, ?b, ?a]) (?s ?m [?d, ?b, ?b])"
    using shop_step.look [of 1 "?s ?m [?d, ?a, ?a]" "''c''" ?i shop_service ?b ?m]
      shop_step.look [of 2 "?s ?m [?d, ?b, ?a]" "''c''" ?i shop_service ?b ?m] look by (simp_all add: advance_def numeral_2_eq_2)
  have 5: "?step (?s ?m [?d, ?b, ?b]) (?s ?n [?d, ?c, ?b])" "?step (?s ?n [?d, ?c, ?b]) (?s ?n [?d, ?c, ?c])"
    using shop_step.cancel [of 1 "?s ?m [?d, ?b, ?b]" "''c''" ?i shop_service ?c ?n]
      shop_step.cancel [of 2 "?s ?n [?d, ?c, ?b]" "''c''" ?i shop_service ?c ?n] cut by (simp_all add: advance_def numeral_2_eq_2)
  from 1 2 3 4 5 have "?step\<^sup>*\<^sup>* (?s new_memory_store []) (?s ?n [?d, ?c, ?c])"
    by (meson converse_rtranclp_into_rtranclp rtranclp.rtrancl_refl)
  then show ?thesis by (intro exI [of _ "?s ?n [?d, ?c, ?c]"]) (simp add: mem_view_def)
qed

theorem cancel_owned_witness:
  "status (first_payment\<lparr>status := Canceled\<rparr>) = Canceled \<longleftrightarrow>
     Cancel_done ''c'' (pay_name 1) None \<in> set [Charge_done (Inr first_payment), Cancel_done ''c'' (pay_name 1) None]"
proof -
  obtain t where t: "(shop_step shop_service)\<^sup>*\<^sup>* \<lparr>repo = new_memory_store, sessions = []\<rparr> t"
    "mem_view (repo t) = [first_payment\<lparr>status := Canceled\<rparr>]"
    "sessions t = [Charge_done (Inr first_payment), Cancel_done ''c'' (pay_name 1) None, Cancel_done ''c'' (pay_name 1) None]"
    using double_cancel_run by blast
  from conjunct1 [OF conjunct2 [OF cancel_owned [OF _ t(1)]]] show ?thesis
    unfolding t(2,3) by (simp add: shop_service_def first_payment_def)
qed

text \<open>The check and the write of \<^verbatim>\<open>Cancel\<close> are two lock sections: both of two concurrent cancels succeed, where the
  second of two in a row is refused as not cancelable.\<close>

lemma double_cancel:
  "\<exists>t. (shop_step shop_service)\<^sup>*\<^sup>* \<lparr>repo = new_memory_store, sessions = []\<rparr> t \<and>
     length (filter (\<lambda>x. x = Cancel_done ''c'' (pay_name 1) None) (sessions t)) = 2"
  using double_cancel_run by fastforce

end
