(* ===== verification/Middleware.thy ===== *)
theory Middleware
  imports Text
begin

text \<open>
  The HTTP platform of the payments service: \<^verbatim>\<open>internal/platform/httpmw\<close> (\<^verbatim>\<open>Chain\<close>, \<^verbatim>\<open>Recover\<close>,
  \<^verbatim>\<open>ScopedLogger\<close> and the \<^verbatim>\<open>statusWriter\<close>), \<^verbatim>\<open>httpjson\<close> (\<^verbatim>\<open>Write\<close>, \<^verbatim>\<open>WriteError\<close>) and
  \<^verbatim>\<open>obshttp\<close> (\<^verbatim>\<open>Instrument\<close>, \<^verbatim>\<open>RoutePattern\<close>), all under
  \<^verbatim>\<open>14-backend-development/examples/service\<close>.  A handler turns a request and a state into the
  sequence of calls it makes on its \<^verbatim>\<open>ResponseWriter\<close>, the panic it ends with, if any, and the new
  state; \<open>wire_status\<close> is the status \<^verbatim>\<open>net/http\<close> sends for such a sequence.
\<close>

subsection \<open>Requests, writers and handlers\<close>

record request =
  req_method :: string
  req_path :: string
  req_pattern :: string
  req_authorization :: string
  req_body :: string

datatype wop = Set_header string string | Write_header int | Write_body string

type_synonym 's handler = "request \<Rightarrow> 's \<Rightarrow> (wop list \<times> string option) \<times> 's"

text \<open>\<^verbatim>\<open>net/http\<close> sends a \<^verbatim>\<open>1xx\<close> status other than 101 at once and keeps waiting for the final one.\<close>

definition informational :: "int \<Rightarrow> bool" where
  "informational code \<longleftrightarrow> 100 \<le> code \<and> code \<le> 199 \<and> code \<noteq> 101"

fun wire_status :: "wop list \<Rightarrow> int" where
  "wire_status [] = 200"
| "wire_status (Set_header k v # ops) = wire_status ops"
| "wire_status (Write_header code # ops) = (if informational code then wire_status ops else code)"
| "wire_status (Write_body b # ops) = 200"

text \<open>The field \<^verbatim>\<open>statusWriter.status\<close> after the calls; \<open>0\<close> while nothing was written.\<close>

fun status_writer :: "int \<Rightarrow> wop list \<Rightarrow> int" where
  "status_writer st [] = st"
| "status_writer st (Set_header k v # ops) = status_writer st ops"
| "status_writer st (Write_header code # ops) = status_writer (if st = 0 then code else st) ops"
| "status_writer st (Write_body b # ops) = status_writer (if st = 0 then 200 else st) ops"

definition http_error :: "string \<Rightarrow> int \<Rightarrow> wop list" where
  "http_error txt code =
     [Set_header ''Content-Type'' ''text/plain; charset=utf-8'', Set_header ''X-Content-Type-Options'' ''nosniff'',
      Write_header code, Write_body (txt @ [char_of (10 :: nat)])]"

subsection \<open>httpmw\<close>

definition chain :: "'s handler \<Rightarrow> ('s handler \<Rightarrow> 's handler) list \<Rightarrow> 's handler" where
  "chain h mws = foldl (\<lambda>h i. (mws ! i) h) h (rev [0..<length mws])"

definition recover :: "'s handler \<Rightarrow> 's handler" where
  "recover h r s =
     (case h r s of
        ((ops, None), s1) \<Rightarrow> ((ops, None), s1)
      | ((ops, Some p), s1) \<Rightarrow>
          ((ops @ (if status_writer 0 ops = 0 then http_error ''internal error'' 500 else []), None), s1))"

definition scoped_logger :: "string \<Rightarrow> 's handler \<Rightarrow> 's handler" where
  "scoped_logger rid h r s =
     (case h r s of ((ops, p), s1) \<Rightarrow> ((Set_header ''X-Request-ID'' rid # ops, p), s1))"

subsection \<open>httpjson\<close>

definition json_write :: "int \<Rightarrow> string \<Rightarrow> wop list" where
  "json_write code encoded =
     [Set_header ''Content-Type'' ''application/json; charset=utf-8'', Write_header code, Write_body encoded]"

definition write_error :: "('e \<Rightarrow> (string \<times> int) option) option \<Rightarrow> 'e \<Rightarrow> wop list" where
  "write_error mapper e =
     (case mapper of
        None \<Rightarrow> http_error ''internal error'' 500
      | Some f \<Rightarrow>
          (case f e of
             None \<Rightarrow> http_error ''internal error'' 500
           | Some (txt, status) \<Rightarrow> http_error txt status))"

subsection \<open>obshttp\<close>

text \<open>One entry per instrumented request: method, route, status text, and whether it counts as an error.\<close>

type_synonym red_entry = "string \<times> string \<times> string \<times> bool"

definition route_pattern :: "request \<Rightarrow> string" where
  "route_pattern r =
     (if req_pattern r \<noteq> [] then req_pattern r
      else if length (filter (\<lambda>c. c = CHR ''/'') (req_path r)) \<le> 2 \<and> \<not> list_ex is_digit (req_path r)
      then req_path r else ''unmatched'')"

text \<open>The second \<^verbatim>\<open>statusWriter\<close>: a flag instead of a zero status, and \<^verbatim>\<open>code\<close> reads zero as 200.\<close>

fun obs_writer :: "int \<times> bool \<Rightarrow> wop list \<Rightarrow> int \<times> bool" where
  "obs_writer sw [] = sw"
| "obs_writer sw (Set_header k v # ops) = obs_writer sw ops"
| "obs_writer sw (Write_header code # ops) = obs_writer (if snd sw then sw else (code, True)) ops"
| "obs_writer sw (Write_body b # ops) = obs_writer (if snd sw then sw else (200, True)) ops"

definition obs_code :: "int \<times> bool \<Rightarrow> int" where
  "obs_code sw = (if fst sw = 0 then 200 else fst sw)"

definition instrument :: "'s handler \<Rightarrow> ('s \<times> red_entry list) handler" where
  "instrument h r s =
     (let route = route_pattern r
      in case h r (fst s) of
           ((ops, Some p), s1) \<Rightarrow> ((ops, Some p), (s1, snd s))
         | ((ops, None), s1) \<Rightarrow>
             let code = obs_code (obs_writer (0, False) ops)
             in ((ops, None), (s1, snd s @ [(req_method r, route, int_text code, code \<ge> 500)])))"

subsection \<open>Lemmas\<close>

definition final_ops :: "wop list \<Rightarrow> bool" where
  "final_ops ops \<longleftrightarrow> list_all (\<lambda>op. case op of Write_header c \<Rightarrow> \<not> informational c \<and> c \<noteq> 0 | _ \<Rightarrow> True) ops"

lemma status_writer_set [simp]: "st \<noteq> 0 \<Longrightarrow> status_writer st ops = st"
  by (induction st ops rule: status_writer.induct) auto

lemma status_writer_wire:
  "final_ops ops \<Longrightarrow> wire_status ops = (if status_writer 0 ops = 0 then 200 else status_writer 0 ops)"
  by (induction ops rule: wire_status.induct) (auto simp: final_ops_def)

lemma wire_status_uncommitted:
  "final_ops ops \<Longrightarrow> status_writer 0 ops = 0 \<Longrightarrow> wire_status (ops @ qs) = wire_status qs"
  by (induction ops rule: wire_status.induct) (auto simp: final_ops_def)

lemma wire_status_committed:
  "final_ops ops \<Longrightarrow> status_writer 0 ops \<noteq> 0 \<Longrightarrow> wire_status (ops @ qs) = status_writer 0 ops"
  by (induction ops rule: wire_status.induct) (auto simp: final_ops_def)

lemma wire_http_error [simp]: "\<not> informational c \<Longrightarrow> wire_status (http_error m c) = c"
  by (simp add: http_error_def)

lemma obs_writer_status:
  "obs_writer (0, False) ops = (status_writer 0 ops, status_writer 0 ops \<noteq> 0)" if "final_ops ops"
proof -
  have set: "obs_writer (c, True) ops = (c, True)" for c ops
    by (induction "(c, True)" ops rule: obs_writer.induct) auto
  show ?thesis
    using that by (induction "0 :: int" ops rule: status_writer.induct) (auto simp: set final_ops_def)
qed

lemma chain_Nil: "chain h [] = h"
  by (simp add: chain_def)

lemma chain_foldr: "chain h mws = foldr (\<lambda>m h. m h) mws h"
proof (induction mws arbitrary: h rule: rev_induct)
  case Nil
  then show ?case by (simp add: chain_def)
next
  case (snoc m mws)
  have "foldl (\<lambda>h i. ((mws @ [m]) ! i) h) x (rev [0..<length mws]) = chain x mws" for x
    unfolding chain_def by (rule foldl_cong) (auto simp: nth_append)
  then show ?case using snoc by (simp add: chain_def)
qed

subsection \<open>Properties\<close>

text \<open>What a handler has written: nothing yet, or first something other than an informational status.\<close>

fun unwritten :: "wop list \<Rightarrow> bool" where
  "unwritten [] = True"
| "unwritten (Set_header k v # ops) = unwritten ops"
| "unwritten (_ # ops) = False"

fun starts_final :: "wop list \<Rightarrow> bool" where
  "starts_final [] = True"
| "starts_final (Set_header k v # ops) = starts_final ops"
| "starts_final (Write_header c # ops) = (\<not> informational c)"
| "starts_final (Write_body b # ops) = True"

text \<open>\<^verbatim>\<open>net/http\<close> panics in \<^verbatim>\<open>WriteHeader\<close> on any other code.\<close>

definition valid_codes :: "wop list \<Rightarrow> bool" where
  "valid_codes ops \<longleftrightarrow> (\<forall>c. Write_header c \<in> set ops \<longrightarrow> 100 \<le> c \<and> c \<le> 999)"

lemma valid_codes_Cons: "valid_codes (op # ops) \<Longrightarrow> valid_codes ops"
  by (simp add: valid_codes_def)

lemma status_writer_unwritten: "valid_codes ops \<Longrightarrow> status_writer 0 ops = 0 \<longleftrightarrow> unwritten ops"
  by (induction ops rule: unwritten.induct) (auto simp: valid_codes_def)

lemma obs_writer_written: "obs_writer (c, True) ops = (c, True)"
  by (induction "(c, True)" ops rule: obs_writer.induct) auto

lemma obs_code_wire: "valid_codes ops \<Longrightarrow> starts_final ops \<Longrightarrow> obs_code (obs_writer (0, False) ops) = wire_status ops"
  by (induction ops rule: starts_final.induct)
     (auto simp: obs_writer_written obs_code_def valid_codes_def)

lemma obs_code_informational:
  "valid_codes ops \<Longrightarrow> \<not> starts_final ops \<Longrightarrow> informational (obs_code (obs_writer (0, False) ops))"
  by (induction ops rule: starts_final.induct)
     (auto simp: obs_writer_written obs_code_def valid_codes_def)

lemma unwritten_append:
  "unwritten ops \<Longrightarrow> wire_status (ops @ qs) = wire_status qs \<and> starts_final (ops @ qs) = starts_final qs \<and> starts_final ops"
  by (induction ops rule: unwritten.induct) auto

text \<open>C19: for every handler whose status codes \<^verbatim>\<open>net/http\<close> takes, \<^verbatim>\<open>Recover\<close> lets no panic through,
  leaves a handler that returns as it is, answers 500 when it panics having written nothing, and adds
  nothing to what a panicking handler has written.  The metrics record the status the client gets,
  unless the handler's first write is an informational status: then they record that one, and a panic
  before any final status reaches the client as an empty 200.\<close>

theorem recover_safe:
  assumes "h r s = ((ops, p), s1)" "valid_codes ops"
  shows "\<exists>ops' c. recover h r s = ((ops', None), s1) \<and>
    (p = None \<longrightarrow> ops' = ops) \<and>
    (p \<noteq> None \<longrightarrow> (if unwritten ops then wire_status ops' = 500 else ops' = ops)) \<and>
    snd (instrument (recover h) r (s, es)) = (s1, es @ [(req_method r, route_pattern r, int_text c, c \<ge> 500)]) \<and>
    (if starts_final ops then c = wire_status ops' else informational c) \<and>
    (p \<noteq> None \<and> \<not> unwritten ops \<and> (\<forall>op \<in> set ops. \<not> starts_final [op] \<or> unwritten [op]) \<longrightarrow> wire_status ops' = 200)"
proof -
  let ?ops = "if p = None then ops else ops @ (if unwritten ops then http_error ''internal error'' 500 else [])"
  let ?c = "obs_code (obs_writer (0, False) ?ops)"
  have rec: "recover h r s = ((?ops, None), s1)"
    using assms by (cases p) (simp_all add: recover_def status_writer_unwritten)
  have valid: "valid_codes ?ops" using assms(2) by (auto simp: valid_codes_def http_error_def)
  have err: "starts_final (http_error ''internal error'' 500)" "wire_status (http_error ''internal error'' 500) = 500"
    by (simp_all add: http_error_def informational_def)
  have starts: "starts_final ?ops = starts_final ops"
    using unwritten_append [of ops "http_error ''internal error'' 500"] err by simp
  have "snd (instrument (recover h) r (s, es)) = (s1, es @ [(req_method r, route_pattern r, int_text ?c, ?c \<ge> 500)])"
    using rec by (simp add: instrument_def Let_def)
  moreover have "if starts_final ops then ?c = wire_status ?ops else informational ?c"
    using obs_code_wire [OF valid] obs_code_informational [OF valid] starts by presburger
  moreover have "(\<forall>op \<in> set ops. \<not> starts_final [op] \<or> unwritten [op]) \<Longrightarrow> wire_status ops = 200"
    by (induction ops rule: wire_status.induct) auto
  ultimately show ?thesis
    using rec unwritten_append [of ops "http_error ''internal error'' 500"] err(2)
    by (intro exI [of _ ?ops] exI [of _ ?c]) auto
qed

theorem recover_safe_witness:
  "wire_status (fst (fst (recover (\<lambda>r s. (([Set_header ''a'' ''b''], Some ''boom''), s))
     \<lparr>req_method = ''GET'', req_path = ''/'', req_pattern = [], req_authorization = [], req_body = []\<rparr> ()))) = 500"
proof -
  let ?h = "\<lambda>(r :: request) s. (([Set_header ''a'' ''b''], Some ''boom''), s)"
  let ?r = "\<lparr>req_method = ''GET'', req_path = ''/'', req_pattern = [], req_authorization = [], req_body = []\<rparr>"
  from recover_safe [of ?h ?r "()" "[Set_header ''a'' ''b'']" "Some ''boom''" "()" "[]"] show ?thesis
    by (auto simp: valid_codes_def)
qed

text \<open>With an informational status first, a panic reaches the client as 200: the writer takes 103 for
  the committed status.\<close>

lemma early_hints_panic:
  "wire_status (fst (fst (recover (\<lambda>r s. (([Write_header 103], Some ''boom''), s)) r ()))) = 200"
  by (simp add: recover_def informational_def)

end
