(* ===== verification/Payments_Http.thy ===== *)
theory Payments_Http
  imports Payments Middleware
begin

text \<open>
  The transport of the payments service, \<^verbatim>\<open>internal/payments/http.go\<close> and the wiring of
  \<^verbatim>\<open>main.go\<close> under \<^verbatim>\<open>14-backend-development/examples/service\<close>: authentication, the policy table of
  \<^verbatim>\<open>Routes\<close>, the handlers and the single error mapping, over the model of the service and of the
  middleware.  JSON decoding and encoding are the fields \<open>decode\<close> and \<open>encode\<close>; \<open>decode\<close> fails on what
  \<^verbatim>\<open>httpjson.Decode\<close> rejects (malformed, unknown fields, too large).  Paths are clean, as
  \<^verbatim>\<open>ServeMux\<close> redirects any other before a handler runs.
\<close>

subsection \<open>Identity\<close>

record identity =
  subject :: string
  kind :: string

definition customer_of :: "identity \<Rightarrow> string" where
  "customer_of i = trim_prefix (subject i) ''user:''"

definition token_identity :: "string \<Rightarrow> identity option" where
  "token_identity auth =
     (if \<not> has_prefix auth ''Bearer '' then None
      else let token = trim_prefix auth ''Bearer ''
           in if token = ''admin-token'' then Some \<lparr>subject = ''admin:root'', kind = ''admin''\<rparr>
              else if has_prefix token ''user:'' then Some \<lparr>subject = token, kind = ''user''\<rparr>
              else None)"

text \<open>Inner handlers see the identity of the request's context.\<close>

type_synonym 's inner = "identity option \<Rightarrow> 's handler"

definition authenticate :: "'s inner \<Rightarrow> 's handler" where
  "authenticate h r s =
     (case token_identity (req_authorization r) of
        None \<Rightarrow> ((Set_header ''WWW-Authenticate'' ''Bearer realm=\"api\"'' # http_error ''unauthorized'' 401, None), s)
      | Some i \<Rightarrow> h (Some i) r s)"

definition require_kind :: "string \<Rightarrow> 's inner \<Rightarrow> 's inner" where
  "require_kind k h ident r s =
     (if (case ident of None \<Rightarrow> True | Some i \<Rightarrow> kind i \<noteq> k) then ((http_error ''forbidden'' 403, None), s)
      else h ident r s)"

subsection \<open>Handlers\<close>

text \<open>What a client sees of a payment.\<close>

record payment_response =
  resp_id :: string
  resp_customer :: string
  resp_amount :: int64
  resp_currency :: string
  resp_status :: string

fun status_text :: "status \<Rightarrow> string" where
  "status_text Charged = ''charged''"
| "status_text Canceled = ''canceled''"

definition to_response :: "payment \<Rightarrow> payment_response" where
  "to_response p = \<lparr>resp_id = pay_id p, resp_customer = customer_id p, resp_amount = amount_minor p,
     resp_currency = currency p, resp_status = status_text (status p)\<rparr>"

record 's api =
  service :: "'s service"
  decode :: "string \<Rightarrow> charge_input option"
  encode :: "payment_response \<Rightarrow> string"
  wall_clock :: instant

fun join_lines :: "string list \<Rightarrow> string" where
  "join_lines [] = []"
| "join_lines [x] = x"
| "join_lines (x # xs) = x @ char_of (10 :: nat) # join_lines xs"

fun map_error :: "pay_error \<Rightarrow> (string \<times> int) option" where
  "map_error Not_found = Some (''payment not found'', 404)"
| "map_error (Forbidden i) = Some (''payment not found'', 404)"
| "map_error Insufficient_funds = Some (''insufficient funds'', 422)"
| "map_error (Not_cancelable st) = Some (''payment not cancelable'', 409)"
| "map_error (Validation es) = Some (join_lines es, 422)"
| "map_error (Other m) = None"

definition create :: "'s api \<Rightarrow> ('s \<times> event list) inner" where
  "create a ident r st =
     (case decode a (req_body r) of
        None \<Rightarrow> ((http_error ''invalid request body'' 400, None), st)
      | Some i \<Rightarrow>
          (case svc_charge (service a) (wall_clock a) i (fst st) of
             ((Inl e, ev), s1) \<Rightarrow> ((write_error (Some map_error) e, None), (s1, snd st @ ev))
           | ((Inr p, ev), s1) \<Rightarrow>
               ((Set_header ''Location'' (''/payments/'' @ pay_id p) # json_write 201 (encode a (to_response p)), None),
                (s1, snd st @ ev))))"

definition cancel :: "'s api \<Rightarrow> string \<Rightarrow> ('s \<times> event list) inner" where
  "cancel a pid ident r st =
     (case ident of
        None \<Rightarrow> ((http_error ''unauthorized'' 401, None), st)
      | Some i \<Rightarrow>
          (case svc_cancel (service a) (customer_of i) pid (fst st) of
             ((Some e, ev), s1) \<Rightarrow> ((write_error (Some map_error) e, None), (s1, snd st @ ev))
           | ((None, ev), s1) \<Rightarrow> (([Write_header 204], None), (s1, snd st @ ev))))"

subsection \<open>Routes\<close>

datatype route = Health | Create | Cancel string | Unrouted

definition route_of :: "string \<Rightarrow> route" where
  "route_of path =
     (let segs = tl (split_on (CHR ''/'') path)
      in if segs = [''livez''] \<or> segs = [''readyz''] then Health
         else if segs = [''payments''] then Create
         else if length segs = 3 \<and> segs ! 0 = ''payments'' \<and> segs ! 1 \<noteq> [] \<and> segs ! 2 = ''cancel'' then Cancel (segs ! 1)
         else Unrouted)"

definition not_allowed :: "string \<Rightarrow> wop list" where
  "not_allowed methods = Set_header ''Allow'' methods # http_error ''Method Not Allowed'' 405"

definition mux :: "'s api \<Rightarrow> ('s \<times> event list) inner" where
  "mux a ident r st =
     (case route_of (req_path r) of
        Health \<Rightarrow>
          if req_method r = ''GET'' \<or> req_method r = ''HEAD''
          then (([Write_header 200, Write_body (''ok'' @ [char_of (10 :: nat)])], None), st)
          else ((not_allowed ''GET, HEAD'', None), st)
      | Create \<Rightarrow>
          if req_method r = ''POST'' then require_kind ''user'' (create a) ident r st
          else ((not_allowed ''POST'', None), st)
      | Cancel pid \<Rightarrow>
          if req_method r = ''POST'' then require_kind ''user'' (cancel a pid) ident r st
          else ((not_allowed ''POST'', None), st)
      | Unrouted \<Rightarrow> ((http_error ''404 page not found'' 404, None), st))"

definition routes :: "'s api \<Rightarrow> string \<Rightarrow> ('s \<times> event list) handler" where
  "routes a rid = chain (authenticate (mux a)) [recover, scoped_logger rid]"

text \<open>
  \<^verbatim>\<open>main\<close> mounts the instrumented routes under the pattern \<^verbatim>\<open>/\<close> of an outer mux, next to
  \<^verbatim>\<open>GET /metrics\<close>; the outer mux writes its pattern into the request it passes on.
\<close>

definition main_mux ::
  "(('s \<times> event list) \<times> red_entry list) handler \<Rightarrow> 's api \<Rightarrow> string \<Rightarrow>
   (('s \<times> event list) \<times> red_entry list) handler" where
  "main_mux promhttp a rid r st =
     (if req_path r = ''/metrics'' \<and> (req_method r = ''GET'' \<or> req_method r = ''HEAD'')
      then promhttp (r\<lparr>req_pattern := ''GET /metrics''\<rparr>) st
      else instrument (routes a rid) (r\<lparr>req_pattern := ''/''\<rparr>) st)"

datatype store_kind = Memory | Postgres

text \<open>\<^verbatim>\<open>openStore\<close>: the Postgres branch is an error in this example.\<close>

definition open_store :: "store_kind \<Rightarrow> string + memory_store" where
  "open_store k =
     (case k of
        Postgres \<Rightarrow> Inl ''postgres store: wire sqldb.Open + bank.NewPostgresStore here (see 13-databases)''
      | Memory \<Rightarrow> Inr new_memory_store)"

definition memory_service :: "(string \<Rightarrow> string) \<Rightarrow> memory_store service" where
  "memory_service uu = \<lparr>store = memory_ops, metrics = True, upper = uu\<rparr>"

subsection \<open>Lemmas\<close>

text \<open>\<^verbatim>\<open>Recover\<close> is the outermost of the two wrappers.\<close>

lemma routes_chain: "routes a rid = recover (scoped_logger rid (authenticate (mux a)))"
  by (simp add: routes_def chain_foldr)

lemma create_returns: "snd (fst (create a ident r st)) = None"
  by (auto simp: create_def split: option.splits prod.splits sum.splits)

lemma cancel_returns: "snd (fst (cancel a pid ident r st)) = None"
  by (auto simp: cancel_def split: option.splits prod.splits)

lemma mux_returns: "snd (fst (mux a ident r st)) = None"
  by (auto simp: mux_def require_kind_def create_returns cancel_returns split: route.splits)

lemma authenticate_returns: "snd (fst (authenticate (mux a) r st)) = None"
  by (auto simp: authenticate_def mux_returns split: option.splits)

lemma routes_inner:
  assumes "authenticate (mux a) r st = ((ops, None), st')"
  shows "routes a rid r st = ((Set_header ''X-Request-ID'' rid # ops, None), st')"
  using assms by (simp add: routes_chain recover_def scoped_logger_def)

lemma token_user: "token_identity (''Bearer user:'' @ c) = Some \<lparr>subject = ''user:'' @ c, kind = ''user''\<rparr>"
  by (simp add: token_identity_def has_prefix_def trim_prefix_def)

lemma customer_user [simp]: "customer_of \<lparr>subject = ''user:'' @ c, kind = k\<rparr> = c"
  by (simp add: customer_of_def trim_prefix_def has_prefix_def)

lemma route_cancel:
  assumes "CHR ''/'' \<notin> set i" "i \<noteq> []"
  shows "route_of (''/payments/'' @ i @ ''/cancel'') = Cancel i"
proof -
  have "split_on (CHR ''/'') (''payments'' @ CHR ''/'' # i @ CHR ''/'' # ''cancel'') = [''payments'', i, ''cancel'']"
    using assms(1) by (subst split_on_append, simp, subst split_on_append) simp_all
  then show ?thesis using assms(2) by (simp add: route_of_def)
qed

lemma routes_no_panic: "snd (fst (routes a rid r st)) = None"
  using authenticate_returns [of a r st]
  by (cases "authenticate (mux a) r st") (auto simp: routes_chain recover_def scoped_logger_def)

text \<open>What the handlers answer over \<^verbatim>\<open>MemoryStore\<close>.\<close>

lemma cancel_memory:
  assumes "mem_ok m" "store (service a) = memory_ops" "customer_of i = c"
  shows "\<exists>ops m' ev'. cancel a pid (Some i) r (m, ev) = ((ops, None), (m', ev')) \<and>
    (if \<exists>p. find_id pid (mem_view m) = Some p \<and> customer_id p = c \<and> status p = Charged
     then ops = [Write_header 204] \<and> mem_ok m' \<and> mem_view m' = cancel_in pid (mem_view m)
     else m' = m \<and> ops = (if \<exists>p. find_id pid (mem_view m) = Some p \<and> customer_id p = c
       then http_error ''payment not cancelable'' 409 else http_error ''payment not found'' 404))"
proof (cases "\<exists>p. find_id pid (mem_view m) = Some p \<and> customer_id p = c \<and> status p = Charged")
  case True
  then obtain p where "find_id pid (mem_view m) = Some p" "customer_id p = c" "status p = Charged" by blast
  from ms.cancel_own [OF assms(1) this assms(2)] show ?thesis
    using True assms(3) by (auto simp: cancel_def)
next
  case False
  from ms.cancel_refused [OF assms(1,2) this] obtain e es
    where run: "svc_cancel (service a) c pid m = ((Some e, es), m)"
      and e: "case find_id pid (mem_view m) of None \<Rightarrow> e = Not_found
        | Some p \<Rightarrow> e = (if customer_id p \<noteq> c then Forbidden pid else Not_cancelable (status p))" by blast
  then show ?thesis
    using False assms(3)
    by (cases "find_id pid (mem_view m)") (auto simp: cancel_def write_error_def split: if_splits)
qed

subsection \<open>Properties\<close>

text \<open>C15: the global gate: a request without a valid bearer token gets 401 with \<^verbatim>\<open>WWW-Authenticate\<close>, an
  administrator gets 403 on both payment routes, and neither reaches the store or the counters; no
  request makes the routes panic.\<close>

theorem auth_gate:
  shows "snd (fst (routes a rid r st)) = None \<and>
    (token_identity (req_authorization r) = None \<longrightarrow>
       snd (routes a rid r st) = st \<and> wire_status (fst (fst (routes a rid r st))) = 401 \<and>
       Set_header ''WWW-Authenticate'' ''Bearer realm=\"api\"'' \<in> set (fst (fst (routes a rid r st)))) \<and>
    (req_authorization r = ''Bearer admin-token'' \<and> req_method r = ''POST'' \<and>
       (route_of (req_path r) = Create \<or> (\<exists>i. route_of (req_path r) = Cancel i)) \<longrightarrow>
       snd (routes a rid r st) = st \<and> wire_status (fst (fst (routes a rid r st))) = 403)"
proof (intro conjI impI; (elim conjE)?)
  show "snd (fst (routes a rid r st)) = None" by (rule routes_no_panic)
next
  assume n: "token_identity (req_authorization r) = None"
  have "authenticate (mux a) r st =
      ((Set_header ''WWW-Authenticate'' ''Bearer realm=\"api\"'' # http_error ''unauthorized'' 401, None), st)"
    by (simp add: authenticate_def n)
  note run = routes_inner [OF this, of rid]
  show "snd (routes a rid r st) = st" by (simp add: run)
  show "wire_status (fst (fst (routes a rid r st))) = 401" by (simp add: run informational_def)
  show "Set_header ''WWW-Authenticate'' ''Bearer realm=\"api\"'' \<in> set (fst (fst (routes a rid r st)))"
    by (simp add: run)
next
  assume h: "req_authorization r = ''Bearer admin-token''" "req_method r = ''POST''"
    "route_of (req_path r) = Create \<or> (\<exists>i. route_of (req_path r) = Cancel i)"
  have "token_identity (req_authorization r) = Some \<lparr>subject = ''admin:root'', kind = ''admin''\<rparr>"
    by (simp add: h(1) token_identity_def has_prefix_def trim_prefix_def)
  then have "authenticate (mux a) r st = ((http_error ''forbidden'' 403, None), st)"
    using h(2,3) by (auto simp: authenticate_def mux_def require_kind_def)
  note run = routes_inner [OF this, of rid]
  show "snd (routes a rid r st) = st" by (simp add: run)
  show "wire_status (fst (fst (routes a rid r st))) = 403" by (simp add: run informational_def)
qed

text \<open>A request a user sends.\<close>

definition user_post :: "string \<Rightarrow> string \<Rightarrow> string \<Rightarrow> request" where
  "user_post c path body = \<lparr>req_method = ''POST'', req_path = path, req_pattern = [],
     req_authorization = ''Bearer user:'' @ c, req_body = body\<rparr>"

text \<open>C14: only the owner cancels, and existence is not disclosed: a user's cancel request changes the store
  exactly when that user owns a charged payment with that ID, which is then the only one cancelled (204);
  a second cancel is 409; and for an unknown payment and another customer's payment the responses are
  the same 404, byte for byte.\<close>

theorem cancel_isolated:
  assumes "mem_ok m" "CHR ''/'' \<notin> set i" "i \<noteq> []" "store (service a) = memory_ops"
  shows "\<exists>ops m' ev'. routes a rid (user_post c (''/payments/'' @ i @ ''/cancel'') body) (m, ev) =
      ((Set_header ''X-Request-ID'' rid # ops, None), (m', ev')) \<and>
    (if \<exists>p. find_id i (mem_view m) = Some p \<and> customer_id p = c \<and> status p = Charged
     then ops = [Write_header 204] \<and> mem_ok m' \<and> mem_view m' = cancel_in i (mem_view m)
     else m' = m \<and> ops = (if \<exists>p. find_id i (mem_view m) = Some p \<and> customer_id p = c
       then http_error ''payment not cancelable'' 409 else http_error ''payment not found'' 404))"
proof -
  let ?r = "user_post c (''/payments/'' @ i @ ''/cancel'') body"
  let ?i = "\<lparr>subject = ''user:'' @ c, kind = ''user''\<rparr>"
  have "authenticate (mux a) ?r (m, ev) = cancel a i (Some ?i) ?r (m, ev)"
    using route_cancel [OF assms(2,3)] token_user [of c]
    by (simp add: authenticate_def user_post_def mux_def require_kind_def)
  moreover obtain ops m' ev' where run: "cancel a i (Some ?i) ?r (m, ev) = ((ops, None), (m', ev'))"
    and eff: "if \<exists>p. find_id i (mem_view m) = Some p \<and> customer_id p = c \<and> status p = Charged
     then ops = [Write_header 204] \<and> mem_ok m' \<and> mem_view m' = cancel_in i (mem_view m)
     else m' = m \<and> ops = (if \<exists>p. find_id i (mem_view m) = Some p \<and> customer_id p = c
       then http_error ''payment not cancelable'' 409 else http_error ''payment not found'' 404)"
    using cancel_memory [OF assms(1,4) customer_user [of c "''user''"], of i ?r ev] by blast
  ultimately have "routes a rid ?r (m, ev) = ((Set_header ''X-Request-ID'' rid # ops, None), (m', ev'))"
    by (intro routes_inner) simp
  with eff show ?thesis by blast
qed

definition demo_api :: "memory_store api" where
  "demo_api = \<lparr>service = memory_service (\<lambda>s. s),
     decode = (\<lambda>b. if b = ''x'' then Some \<lparr>in_customer = ''cus_1'', in_amount = 500, in_currency = ''USD''\<rparr> else None),
     encode = resp_id, wall_clock = 7\<rparr>"

definition demo_store :: memory_store where
  "demo_store = snd (mem_charge \<lparr>pay_id = [], customer_id = ''cus_1'', amount_minor = 500, currency = ''USD'',
     status = Charged, created_at = 7\<rparr> new_memory_store)"

lemma demo_store: "mem_ok demo_store" "find_id ''pay_0001'' (mem_view demo_store) = Some \<lparr>pay_id = ''pay_0001'',
    customer_id = ''cus_1'', amount_minor = 500, currency = ''USD'', status = Charged, created_at = 7\<rparr>"
proof -
  have n: "pay_name 1 = ''pay_0001''" by code_simp
  show ok: "mem_ok demo_store"
    unfolding demo_store_def
    by (rule mem_charge_ok(2) [OF mem_ok_new(1) _ prod.collapse [symmetric]]) (simp add: new_memory_store_def)
  show "find_id ''pay_0001'' (mem_view demo_store) = Some \<lparr>pay_id = ''pay_0001'',
    customer_id = ''cus_1'', amount_minor = 500, currency = ''USD'', status = Charged, created_at = 7\<rparr>"
    unfolding mem_find [OF ok] by (simp add: demo_store_def mem_charge_def new_memory_store_def Let_def n)
qed

theorem cancel_isolated_witness:
  "fst (fst (routes demo_api ''r1'' (user_post ''cus_2'' (''/payments/pay_0001/cancel'') []) (demo_store, []))) =
     Set_header ''X-Request-ID'' ''r1'' # http_error ''payment not found'' 404"
proof -
  have "store (service demo_api) = memory_ops" by (simp add: demo_api_def memory_service_def)
  from cancel_isolated [OF demo_store(1) _ _ this, of "''pay_0001''" "''r1''" "''cus_2''" "[]" "[]"]
  show ?thesis by (auto simp: demo_store(2))
qed

theorem auth_gate_witness:
  "wire_status (fst (fst (routes demo_api ''r1'' \<lparr>req_method = ''POST'', req_path = ''/payments'', req_pattern = [],
     req_authorization = ''Basic x'', req_body = []\<rparr> (demo_store, [])))) = 401"
proof -
  let ?r = "\<lparr>req_method = ''POST'', req_path = ''/payments'', req_pattern = [],
     req_authorization = ''Basic x'', req_body = []\<rparr>"
  have "token_identity (req_authorization ?r) = None" by (simp add: token_identity_def has_prefix_def)
  with auth_gate [of demo_api "''r1''" ?r "(demo_store, [])"] show ?thesis by blast
qed

text \<open>Creating a payment: a body that does not decode is 400 and an invalid charge 422, both without a
  trace in the store; a valid one is 201 and appends one charged payment with a fresh ID, named in
  \<^verbatim>\<open>Location\<close>.  The payment belongs to the customer the body names, not to the authenticated one.\<close>

theorem create_effects:
  assumes "mem_ok m" "length (mem_view m) < 2 ^ 62" "store (service a) = memory_ops"
    and "run = routes a rid (user_post c ''/payments'' body) (m, ev)"
  shows "(decode a body = None \<longrightarrow> wire_status (fst (fst run)) = 400 \<and> snd run = (m, ev)) \<and>
    (\<forall>i. decode a body = Some i \<and> validate (upper (service a)) i \<noteq> [] \<longrightarrow>
       wire_status (fst (fst run)) = 422 \<and> fst (snd run) = m) \<and>
    (\<forall>i. decode a body = Some i \<and> validate (upper (service a)) i = [] \<longrightarrow>
       (\<exists>p m' ev'. run = ((Set_header ''X-Request-ID'' rid # Set_header ''Location'' (''/payments/'' @ pay_id p) #
            json_write 201 (encode a (to_response p)), None), (m', ev')) \<and>
          mem_ok m' \<and> mem_view m' = mem_view m @ [p] \<and> pay_id p \<notin> pay_id ` set (mem_view m) \<and>
          status p = Charged \<and> customer_id p = in_customer i \<and> amount_minor p = in_amount i))"
proof -
  let ?r = "user_post c ''/payments'' body"
  let ?i = "\<lparr>subject = ''user:'' @ c, kind = ''user''\<rparr>"
  have "route_of ''/payments'' = Create" by code_simp
  then have auth: "authenticate (mux a) ?r (m, ev) = create a (Some ?i) ?r (m, ev)"
    using token_user [of c] by (simp add: authenticate_def user_post_def mux_def require_kind_def)
  have body: "req_body ?r = body" by (simp add: user_post_def)
  have inner: "create a (Some ?i) ?r (m, ev) = ((ops, None), st') \<Longrightarrow>
      run = ((Set_header ''X-Request-ID'' rid # ops, None), st')" for ops st'
    unfolding assms(4) by (rule routes_inner) (simp add: auth)
  show ?thesis
  proof (intro conjI impI allI; (elim conjE)?)
    assume n: "decode a body = None"
    then have "create a (Some ?i) ?r (m, ev) = ((http_error ''invalid request body'' 400, None), (m, ev))"
      by (simp add: create_def body)
    from inner [OF this] show "wire_status (fst (fst run)) = 400" "snd run = (m, ev)"
      by (simp_all add: informational_def)
  next
    fix i assume i: "decode a body = Some i" "validate (upper (service a)) i \<noteq> []"
    then have "create a (Some ?i) ?r (m, ev) = ((http_error (join_lines (validate (upper (service a)) i)) 422, None),
        (m, ev @ emit (service a) (Emit_failed ''validation'')))"
      by (simp add: create_def body svc_charge_def write_error_def)
    from inner [OF this] show "wire_status (fst (fst run)) = 422" "fst (snd run) = m"
      by (simp_all add: informational_def)
  next
    fix i assume i: "decode a body = Some i" "validate (upper (service a)) i = []"
    from ms.charge_valid [where now = "wall_clock a", OF assms(1,2) i(2) assms(3)] obtain p m' where
      ch: "svc_charge (service a) (wall_clock a) i m = ((Inr p, emit (service a) (Emit_charged (in_currency i) (in_amount i))), m')"
      and p: "mem_ok m'" "mem_view m' = mem_view m @ [p]" "pay_id p \<notin> pay_id ` set (mem_view m)"
        "status p = Charged" "customer_id p = in_customer i" "amount_minor p = in_amount i" by blast
    then have "create a (Some ?i) ?r (m, ev) = ((Set_header ''Location'' (''/payments/'' @ pay_id p) #
        json_write 201 (encode a (to_response p)), None), (m', ev @ emit (service a) (Emit_charged (in_currency i) (in_amount i))))"
      using i(1) by (simp add: create_def body)
    from inner [OF this] p show "\<exists>p m' ev'. run = ((Set_header ''X-Request-ID'' rid # Set_header ''Location'' (''/payments/'' @ pay_id p) #
            json_write 201 (encode a (to_response p)), None), (m', ev')) \<and>
          mem_ok m' \<and> mem_view m' = mem_view m @ [p] \<and> pay_id p \<notin> pay_id ` set (mem_view m) \<and>
          status p = Charged \<and> customer_id p = in_customer i \<and> amount_minor p = in_amount i"
      by blast
  qed
qed

theorem create_effects_witness:
  "wire_status (fst (fst (routes demo_api ''r1'' (user_post ''cus_2'' ''/payments'' ''?'') (demo_store, [])))) = 400"
proof -
  have s: "store (service demo_api) = memory_ops" by (simp add: demo_api_def memory_service_def)
  have l: "length (mem_view demo_store) < 2 ^ 62"
    by (simp add: mem_view_def demo_store_def mem_charge_def new_memory_store_def Let_def)
  from create_effects [OF demo_store(1) l s refl, of "''?''"] show ?thesis
    by (simp add: demo_api_def)
qed

text \<open>Through \<^verbatim>\<open>main\<close>'s outer mux every request is counted under the route \<^verbatim>\<open>/\<close>.\<close>

lemma main_route_label:
  assumes "main_mux promhttp a rid r (st, es) = ((ops, None), (st', es'))" "req_path r \<noteq> ''/metrics''"
  shows "\<exists>st e. es' = es @ [(req_method r, ''/'', st, e)]"
  using assms by (auto simp: main_mux_def instrument_def route_pattern_def Let_def split: prod.splits option.splits)

end
