(* ===== verification/Config.thy ===== *)
theory Config
  imports Text
begin

text \<open>
  The configuration loader of the payments service,
  \<^verbatim>\<open>14-backend-development/examples/service/internal/config/config.go\<close>.  The environment is a
  function from names to values.  \<^verbatim>\<open>time.ParseDuration\<close> and \<^verbatim>\<open>Duration.String\<close>, whose fractions go
  through floating point, are the parameters \<open>parse\<close> and \<open>show_dur\<close>; \<open>quoted\<close> is \<^verbatim>\<open>%q\<close>.
\<close>

record config =
  addr :: string
  store_kind :: string
  database_url :: string
  shutdown_grace :: int64
  request_timeout :: int64
  pool_max_open :: int
  log_level :: string

definition secret_text :: "string \<Rightarrow> string" where
  "secret_text s = (if s = [] then [] else ''[REDACTED]'')"

definition env_or :: "(string \<Rightarrow> string) \<Rightarrow> string \<Rightarrow> string \<Rightarrow> string" where
  "env_or get key def_value = (if get key \<noteq> [] then get key else def_value)"

definition must_duration ::
  "(string \<Rightarrow> int64 option) \<Rightarrow> (int64 \<Rightarrow> string) \<Rightarrow> (string \<Rightarrow> string) \<Rightarrow> (string \<Rightarrow> string) \<Rightarrow> string \<Rightarrow> int64 \<Rightarrow>
   int64 \<times> string list" where
  "must_duration parse show_dur quoted get key def_value =
     (if get key = [] then (def_value, [])
      else case parse (get key) of
             None \<Rightarrow> (def_value, [key @ '': '' @ quoted (get key) @ '' is not a duration (try '' @ quoted (show_dur def_value) @ '')''] )
           | Some d \<Rightarrow> (d, []))"

text \<open>
  \<^verbatim>\<open>fmt.Sscanf(raw, "%d", &v)\<close> into an \<^verbatim>\<open>int32\<close>: spaces (a newline is an error), an optional sign, the
  longest run of digits, which has to fit; whatever follows is not looked at.
\<close>

function skip_blanks :: "string \<Rightarrow> string" where
  "skip_blanks s = (case leading (removeAll [char_of (10 :: nat)] spaces) s of
     None \<Rightarrow> s | Some p \<Rightarrow> skip_blanks (drop (length p) s))"
  by pat_completeness auto
termination
proof (relation "measure length")
  fix s p assume "leading (removeAll [char_of (10 :: nat)] spaces) s = Some p"
  from leading_Some [OF this] have "p \<noteq> []" "has_prefix s p" using spaces_nonempty by auto
  then show "(drop (length p) s, s) \<in> measure length" by (cases "s = []") (auto simp: has_prefix_def)
qed simp

declare skip_blanks.simps [simp del]

definition scan_int32 :: "string \<Rightarrow> int option" where
  "scan_int32 raw =
     (let s = skip_blanks raw;
          neg = (s \<noteq> [] \<and> hd s = CHR ''-'');
          s1 = (if s \<noteq> [] \<and> hd s \<in> {CHR ''-'', CHR ''+''} then tl s else s);
          d = takeWhile is_digit s1;
          i = (if neg then - int (digits_value d) else int (digits_value d))
      in if d = [] \<or> i < - (2 ^ 31) \<or> i \<ge> 2 ^ 31 then None else Some i)"

definition must_int32 :: "(string \<Rightarrow> string) \<Rightarrow> (string \<Rightarrow> string) \<Rightarrow> string \<Rightarrow> int \<Rightarrow> int \<times> string list" where
  "must_int32 quoted get key def_value =
     (if get key = [] then (def_value, [])
      else case scan_int32 (get key) of
             None \<Rightarrow> (def_value, [key @ '': '' @ quoted (get key) @ '' is not an integer''])
           | Some v \<Rightarrow> (v, []))"

definition load ::
  "(string \<Rightarrow> int64 option) \<Rightarrow> (int64 \<Rightarrow> string) \<Rightarrow> (string \<Rightarrow> string) \<Rightarrow> (string \<Rightarrow> string) \<Rightarrow> string list + config" where
  "load parse show_dur quoted environ =
     (let (grace, e1) = must_duration parse show_dur quoted environ ''SHUTDOWN_GRACE'' 25000000000;
          (timeout, e2) = must_duration parse show_dur quoted environ ''REQUEST_TIMEOUT'' 10000000000;
          (pool, e3) = must_int32 quoted environ ''POOL_MAX_OPEN'' 25;
          c = \<lparr>addr = env_or environ ''ADDR'' '':8080'', store_kind = env_or environ ''STORE'' ''memory'',
               database_url = environ ''DATABASE_URL'', shutdown_grace = grace, request_timeout = timeout,
               pool_max_open = pool, log_level = env_or environ ''LOG_LEVEL'' ''info''\<rparr>;
          e4 = (if store_kind c = ''memory'' \<or> store_kind c = ''postgres'' then []
                else [''STORE: '' @ quoted (store_kind c) @ '' is not one of memory|postgres'']);
          e5 = (if store_kind c = ''postgres'' \<and> database_url c = []
                then [''DATABASE_URL is required when STORE=postgres''] else []);
          e6 = (if log_level c \<in> {''debug'', ''info'', ''warn'', ''error''} then []
                else [''LOG_LEVEL: '' @ quoted (log_level c) @ '' is not one of debug|info|warn|error'']);
          e7 = (if sint (request_timeout c) \<le> 0 \<or> sint (request_timeout c) > 60000000000
                then [''REQUEST_TIMEOUT: '' @ show_dur (request_timeout c) @ '' is outside (0, 1m]''] else []);
          errs = e1 @ e2 @ e3 @ e4 @ e5 @ e6 @ e7
      in if errs \<noteq> [] then Inl errs else Inr c)"

definition summary :: "(int64 \<Rightarrow> string) \<Rightarrow> config \<Rightarrow> string" where
  "summary show_dur c =
     ''addr='' @ addr c @ '' store='' @ store_kind c @ '' grace='' @ show_dur (shutdown_grace c) @
     '' timeout='' @ show_dur (request_timeout c) @ '' pool='' @ int_text (pool_max_open c) @
     '' log='' @ log_level c @ '' db='' @ secret_text (database_url c)"

subsection \<open>Lemmas\<close>

lemma must_duration_cases:
  "must_duration parse show_dur quoted get key d = (v, es) \<Longrightarrow>
   es = [] \<and> (get key = [] \<and> v = d \<or> parse (get key) = Some v) \<or>
   es \<noteq> [] \<and> get key \<noteq> [] \<and> parse (get key) = None"
  by (auto simp: must_duration_def split: option.splits if_splits)

lemma must_int32_cases:
  "must_int32 quoted get key d = (v, es) \<Longrightarrow>
   es = [] \<and> (get key = [] \<and> v = d \<or> scan_int32 (get key) = Some v) \<or>
   es \<noteq> [] \<and> get key \<noteq> [] \<and> scan_int32 (get key) = None"
  by (auto simp: must_int32_def split: option.splits if_splits)

lemma scan_int32_bounds: "scan_int32 s = Some v \<Longrightarrow> - (2 ^ 31) \<le> v \<and> v < 2 ^ 31"
  by (auto simp: scan_int32_def Let_def split: if_splits)

text \<open>Trailing text is ignored: \<^verbatim>\<open>POOL_MAX_OPEN=25abc\<close> is accepted as 25, and so is a negative number.\<close>

lemma scan_int32_trailing: "scan_int32 ''25abc'' = Some 25" "scan_int32 ''-5'' = Some (- 5)"
  by code_simp+

subsection \<open>Properties\<close>

lemma load_Inr_iff:
  assumes "must_duration parse show_dur quoted environ ''SHUTDOWN_GRACE'' 25000000000 = (g, e1)"
    and "must_duration parse show_dur quoted environ ''REQUEST_TIMEOUT'' 10000000000 = (d, e2)"
    and "must_int32 quoted environ ''POOL_MAX_OPEN'' 25 = (n, e3)"
  shows "(\<exists>c. load parse show_dur quoted environ = Inr c) \<longleftrightarrow> e1 = [] \<and> e2 = [] \<and> e3 = [] \<and>
      env_or environ ''STORE'' ''memory'' \<in> {''memory'', ''postgres''} \<and>
      \<not> (env_or environ ''STORE'' ''memory'' = ''postgres'' \<and> environ ''DATABASE_URL'' = []) \<and>
      env_or environ ''LOG_LEVEL'' ''info'' \<in> {''debug'', ''info'', ''warn'', ''error''} \<and>
      \<not> (sint d \<le> 0 \<or> sint d > 60000000000)"
proof -
  have pick: "(\<exists>c. (if \<not> P then Inl es else Inr c0) = Inr c) \<longleftrightarrow> P"
    for P and es :: "string list" and c0 :: config by simp
  have unless: "(if P then [] else [s]) = [] \<longleftrightarrow> P" "(if P then [s] else []) = [] \<longleftrightarrow> \<not> P" for P and s :: string
    by simp_all
  show ?thesis
    unfolding load_def assms Let_def prod.case pick append_is_Nil_conv unless config.simps
    by (simp only: insert_iff empty_iff HOL.simp_thms)
qed

text \<open>The loader accepts exactly the environments that follow its rules (a known store, with a database
  URL when it is Postgres, a known log level, a request timeout in (0, 1m], durations and a pool size
  that are absent or parse), and what is logged of a configuration does not depend on the database URL
  beyond its being set.\<close>

theorem load_decides:
  "((\<exists>c. load parse show_dur quoted environ = Inr c) \<longleftrightarrow>
     (environ ''SHUTDOWN_GRACE'' = [] \<or> parse (environ ''SHUTDOWN_GRACE'') \<noteq> None) \<and>
     (environ ''POOL_MAX_OPEN'' = [] \<or> scan_int32 (environ ''POOL_MAX_OPEN'') \<noteq> None) \<and>
     environ ''STORE'' \<in> {[], ''memory'', ''postgres''} \<and>
     \<not> (environ ''STORE'' = ''postgres'' \<and> environ ''DATABASE_URL'' = []) \<and>
     environ ''LOG_LEVEL'' \<in> {[], ''debug'', ''info'', ''warn'', ''error''} \<and>
     (environ ''REQUEST_TIMEOUT'' = [] \<or>
       (\<exists>d. parse (environ ''REQUEST_TIMEOUT'') = Some d \<and> 0 < sint d \<and> sint d \<le> 60000000000))) \<and>
   (s = [] \<longleftrightarrow> s' = []) = (secret_text s = secret_text s') \<and>
   (s = [] \<longleftrightarrow> s' = []) = (summary show_dur (c\<lparr>database_url := s\<rparr>) = summary show_dur (c\<lparr>database_url := s'\<rparr>))"
proof -
  obtain g e1 where g: "must_duration parse show_dur quoted environ ''SHUTDOWN_GRACE'' 25000000000 = (g, e1)" by fastforce
  obtain d e2 where d: "must_duration parse show_dur quoted environ ''REQUEST_TIMEOUT'' 10000000000 = (d, e2)" by fastforce
  obtain n e3 where n: "must_int32 quoted environ ''POOL_MAX_OPEN'' 25 = (n, e3)" by fastforce
  have e1: "e1 = [] \<longleftrightarrow> (environ ''SHUTDOWN_GRACE'' = [] \<or> parse (environ ''SHUTDOWN_GRACE'') \<noteq> None)"
    using must_duration_cases [OF g] g by (auto simp: must_duration_def)
  have e2: "e2 = [] \<and> \<not> (sint d \<le> 0 \<or> sint d > 60000000000) \<longleftrightarrow> (environ ''REQUEST_TIMEOUT'' = [] \<or>
       (\<exists>d. parse (environ ''REQUEST_TIMEOUT'') = Some d \<and> 0 < sint d \<and> sint d \<le> 60000000000))"
    using d by (auto simp: must_duration_def split: if_splits option.splits)
  have e3: "e3 = [] \<longleftrightarrow> (environ ''POOL_MAX_OPEN'' = [] \<or> scan_int32 (environ ''POOL_MAX_OPEN'') \<noteq> None)"
    using must_int32_cases [OF n] n by (auto simp: must_int32_def)
  have st: "env_or environ ''STORE'' ''memory'' \<in> {''memory'', ''postgres''} \<longleftrightarrow> environ ''STORE'' \<in> {[], ''memory'', ''postgres''}"
    "env_or environ ''STORE'' ''memory'' = ''postgres'' \<longleftrightarrow> environ ''STORE'' = ''postgres''"
    by (cases "environ ''STORE'' = []"; simp add: env_or_def)+
  have lv: "env_or environ ''LOG_LEVEL'' ''info'' \<in> {''debug'', ''info'', ''warn'', ''error''} \<longleftrightarrow>
      environ ''LOG_LEVEL'' \<in> {[], ''debug'', ''info'', ''warn'', ''error''}"
    by (cases "environ ''LOG_LEVEL'' = []"; simp add: env_or_def)
  have sec: "(s = [] \<longleftrightarrow> s' = []) = (secret_text s = secret_text s')" by (simp add: secret_text_def)
  have sum: "(s = [] \<longleftrightarrow> s' = []) = (summary show_dur (c\<lparr>database_url := s\<rparr>) = summary show_dur (c\<lparr>database_url := s'\<rparr>))"
    unfolding sec by (simp add: summary_def)
  have "(\<exists>c. load parse show_dur quoted environ = Inr c) \<longleftrightarrow>
     (environ ''SHUTDOWN_GRACE'' = [] \<or> parse (environ ''SHUTDOWN_GRACE'') \<noteq> None) \<and>
     (environ ''POOL_MAX_OPEN'' = [] \<or> scan_int32 (environ ''POOL_MAX_OPEN'') \<noteq> None) \<and>
     environ ''STORE'' \<in> {[], ''memory'', ''postgres''} \<and>
     \<not> (environ ''STORE'' = ''postgres'' \<and> environ ''DATABASE_URL'' = []) \<and>
     environ ''LOG_LEVEL'' \<in> {[], ''debug'', ''info'', ''warn'', ''error''} \<and>
     (environ ''REQUEST_TIMEOUT'' = [] \<or>
       (\<exists>d. parse (environ ''REQUEST_TIMEOUT'') = Some d \<and> 0 < sint d \<and> sint d \<le> 60000000000))"
    unfolding load_Inr_iff [OF g d n] e1 [symmetric] e2 [symmetric] e3 [symmetric] st lv by argo
  with sec sum show ?thesis by argo
qed

theorem load_decides_witness:
  "\<exists>c. load (\<lambda>s. None) (\<lambda>d. ''1s'') (\<lambda>s. s) (\<lambda>k. if k = ''POOL_MAX_OPEN'' then ''25abc'' else []) = Inr c"
proof -
  define e where "e = (\<lambda>k. if k = ''POOL_MAX_OPEN'' then ''25abc'' else ([] :: string))"
  have "e ''POOL_MAX_OPEN'' = ''25abc''" "e ''STORE'' = []" "e ''SHUTDOWN_GRACE'' = []"
    "e ''REQUEST_TIMEOUT'' = []" "e ''LOG_LEVEL'' = []" by (simp_all add: e_def)
  then have "\<exists>c. load (\<lambda>s. None) (\<lambda>d. ''1s'') (\<lambda>s. s) e = Inr c"
    using load_decides [of "\<lambda>s. None" "\<lambda>d. ''1s''" "\<lambda>s. s" e] scan_int32_trailing(1) by simp
  then show ?thesis by (simp only: e_def)
qed

end
