(* ===== verification/Kafka.thy ===== *)
theory Kafka
  imports Prelude
begin

text \<open>
  The order-events processor of \<^verbatim>\<open>18-kafka-with-go/examples\<close>: \<^verbatim>\<open>service.go\<close> (\<^verbatim>\<open>OrderService\<close> over the
  interfaces \<^verbatim>\<open>ClaimStore\<close> and \<^verbatim>\<open>OrderApplier\<close>, \<^verbatim>\<open>MemoryClaims\<close>) and the retry and dead-letter
  loop of \<^verbatim>\<open>consumer.go\<close>.  JSON decoding and the applier are fields of the service; the client
  library behind the consumer appears as the parameters that wait and produce.  The locale
  \<open>claim_store\<close> is what \<^verbatim>\<open>OrderService\<close> relies on, interpreted by \<^verbatim>\<open>MemoryClaims\<close>.  \<open>phase\<close> cuts
  \<^verbatim>\<open>processV1\<close> at its calls on shared state, so that \<open>claim_step\<close> interleaves concurrent deliveries.
\<close>

subsection \<open>Messages and errors\<close>

datatype kerr = Leaf string | Terminal_mark kerr | Wrap string kerr

record kmessage =
  key :: string
  body :: string
  headers :: "string \<rightharpoonup> string"

record order_payload =
  order_id :: string
  account_id :: string
  order_amount :: int64
  order_currency :: string

text \<open>\<^verbatim>\<open>asTerminal\<close> walks the chain.\<close>

fun as_terminal :: "kerr \<Rightarrow> bool" where
  "as_terminal (Terminal_mark e) = True"
| "as_terminal (Leaf s) = False"
| "as_terminal (Wrap s e) = as_terminal e"

definition malformed :: kerr where
  "malformed = Leaf ''malformed message''"

subsection \<open>The order service\<close>

record 's claim_ops =
  claim :: "string \<Rightarrow> 's \<Rightarrow> (kerr + bool) \<times> 's"
  release :: "string \<Rightarrow> 's \<Rightarrow> kerr option \<times> 's"

record ('s, 'a) order_service =
  claims :: "'s claim_ops"
  apply_order :: "order_payload \<Rightarrow> 'a \<Rightarrow> kerr option \<times> 'a"
  parse_envelope :: "string \<Rightarrow> kerr + int64 \<times> string"
  parse_order :: "string \<Rightarrow> kerr + order_payload"

definition process_v1 ::
  "('s, 'a) order_service \<Rightarrow> string \<Rightarrow> string \<Rightarrow> 's \<times> 'a \<Rightarrow> kerr option \<times> ('s \<times> 'a)" where
  "process_v1 svc i payload st =
     (case parse_order svc payload of
        Inl e \<Rightarrow> (Some (Terminal_mark (Wrap ''bad v1 payload'' malformed)), st)
      | Inr ord \<Rightarrow>
          (case claim (claims svc) i (fst st) of
             (Inl e, s1) \<Rightarrow> (Some (Wrap (''claim '' @ i) e), (s1, snd st))
           | (Inr False, s1) \<Rightarrow> (None, (s1, snd st))
           | (Inr True, s1) \<Rightarrow>
               (case apply_order svc ord (snd st) of
                  (None, a1) \<Rightarrow> (None, (s1, a1))
                | (Some e, a1) \<Rightarrow>
                    (case release (claims svc) i s1 of
                       (Some re, s2) \<Rightarrow> (Some (Leaf ''apply failed AND release failed''), (s2, a1))
                     | (None, s2) \<Rightarrow> (Some (Wrap (''apply '' @ order_id ord) e), (s2, a1))))))"

definition process ::
  "('s, 'a) order_service \<Rightarrow> kmessage \<Rightarrow> 's \<times> 'a \<Rightarrow> kerr option \<times> ('s \<times> 'a)" where
  "process svc m st =
     (let i = (case headers m ''idempotency_key'' of None \<Rightarrow> [] | Some i \<Rightarrow> i)
      in if i = [] then (Some (Terminal_mark (Wrap ''missing idempotency_key'' malformed)), st)
         else case parse_envelope svc (body m) of
                Inl e \<Rightarrow> (Some (Terminal_mark (Wrap ''bad envelope'' malformed)), st)
              | Inr (v, payload) \<Rightarrow>
                  if v = 1 then process_v1 svc i payload st
                  else (Some (Terminal_mark (Wrap (''unsupported envelope version '' @ int_text (sint v)) malformed)), st))"

subsection \<open>MemoryClaims\<close>

record memory_claims =
  active :: "string set"

definition new_memory_claims :: memory_claims where
  "new_memory_claims = \<lparr>active = {}\<rparr>"

definition mem_claim :: "string \<Rightarrow> memory_claims \<Rightarrow> (kerr + bool) \<times> memory_claims" where
  "mem_claim i m = (if i \<in> active m then (Inr False, m) else (Inr True, m\<lparr>active := insert i (active m)\<rparr>))"

definition mem_release :: "string \<Rightarrow> memory_claims \<Rightarrow> kerr option \<times> memory_claims" where
  "mem_release i m = (None, m\<lparr>active := active m - {i}\<rparr>)"

definition memory_claim_ops :: "memory_claims claim_ops" where
  "memory_claim_ops = \<lparr>claim = mem_claim, release = mem_release\<rparr>"

subsection \<open>The claim interface\<close>

locale claim_store =
  fixes ops :: "'s claim_ops"
    and taken :: "'s \<Rightarrow> string set"
  assumes claim_law: "\<exists>s'. claim ops i s = (Inr (i \<notin> taken s), s') \<and> taken s' = insert i (taken s)"
    and release_law: "\<exists>s'. release ops i s = (None, s') \<and> taken s' = taken s - {i}"
begin

text \<open>A delivery whose ID is taken answers success and does not reach the applier.\<close>

lemma duplicate:
  assumes "claims svc = ops" "i \<in> taken s" "parse_order svc payload = Inr ord"
  shows "\<exists>s'. process_v1 svc i payload (s, a) = (None, (s', a)) \<and> taken s' = taken s"
  using claim_law [of i s] assms by (auto simp: process_v1_def insert_absorb)

text \<open>The first delivery applies once, and keeps the claim exactly when that succeeded.\<close>

lemma first_delivery:
  assumes "claims svc = ops" "i \<notin> taken s" "parse_order svc payload = Inr ord"
    and "apply_order svc ord a = (r, a')"
  shows "\<exists>s' res. process_v1 svc i payload (s, a) = (res, (s', a')) \<and> (res = None \<longleftrightarrow> r = None) \<and>
    taken s' = (if r = None then insert i (taken s) else taken s)"
proof -
  obtain s1 where c: "claim ops i s = (Inr True, s1)" "taken s1 = insert i (taken s)"
    using claim_law [of i s] assms(2) by auto
  obtain s2 where r: "release ops i s1 = (None, s2)" "taken s2 = taken s1 - {i}"
    using release_law by blast
  show ?thesis
    using assms c r by (cases r) (auto simp: process_v1_def)
qed

end

interpretation mc: claim_store memory_claim_ops active
  by unfold_locales (auto simp: memory_claim_ops_def mem_claim_def mem_release_def)

subsection \<open>Concurrent deliveries\<close>

text \<open>
  One delivery of ID \<open>i\<close> is \<open>Arrived\<close>, then \<open>Claimed\<close>; when its apply failed it is \<open>Failing\<close>
  until it releases; \<open>advance\<close> is the next call on shared state.
\<close>

datatype phase = Arrived | Claimed | Failing kerr | Finished "kerr option"

definition advance ::
  "('s, 'a) order_service \<Rightarrow> string \<Rightarrow> order_payload \<Rightarrow> phase \<Rightarrow> 's \<times> 'a \<Rightarrow> phase \<times> ('s \<times> 'a)" where
  "advance svc i ord p st =
     (case p of
        Arrived \<Rightarrow>
          (case claim (claims svc) i (fst st) of
             (Inl e, s1) \<Rightarrow> (Finished (Some (Wrap (''claim '' @ i) e)), (s1, snd st))
           | (Inr b, s1) \<Rightarrow> (if b then Claimed else Finished None, (s1, snd st)))
      | Claimed \<Rightarrow>
          (case apply_order svc ord (snd st) of
             (None, a1) \<Rightarrow> (Finished None, (fst st, a1))
           | (Some e, a1) \<Rightarrow> (Failing e, (fst st, a1)))
      | Failing e \<Rightarrow>
          (case release (claims svc) i (fst st) of
             (Some re, s2) \<Rightarrow> (Finished (Some (Leaf ''apply failed AND release failed'')), (s2, snd st))
           | (None, s2) \<Rightarrow> (Finished (Some (Wrap (''apply '' @ order_id ord) e)), (s2, snd st)))
      | Finished r \<Rightarrow> (Finished r, st))"

text \<open>\<open>applied\<close> lists the IDs whose apply succeeded; each delivery has an ID and an order.\<close>

record 'a ksys =
  store_state :: memory_claims
  applier_state :: 'a
  phases :: "nat \<Rightarrow> phase"
  applied :: "string list"

inductive claim_step ::
  "(memory_claims, 'a) order_service \<Rightarrow> (nat \<Rightarrow> string \<times> order_payload) \<Rightarrow> 'a ksys \<Rightarrow> 'a ksys \<Rightarrow> bool"
  for svc :: "(memory_claims, 'a) order_service" and jobs where
  move: "advance svc (fst (jobs d)) (snd (jobs d)) (phases s d) (store_state s, applier_state s) = (p, (cs, a)) \<Longrightarrow>
    claim_step svc jobs s (s\<lparr>store_state := cs, applier_state := a, phases := (phases s)(d := p),
      applied := (if phases s d = Claimed \<and> p = Finished None then applied s @ [fst (jobs d)] else applied s)\<rparr>)"

inductive claim_reach ::
  "(memory_claims, 'a) order_service \<Rightarrow> (nat \<Rightarrow> string \<times> order_payload) \<Rightarrow> 'a ksys \<Rightarrow> 'a ksys \<Rightarrow> bool"
  for svc :: "(memory_claims, 'a) order_service" and jobs s0 where
  start: "claim_reach svc jobs s0 s0"
| step: "claim_reach svc jobs s0 s \<Longrightarrow> claim_step svc jobs s t \<Longrightarrow> claim_reach svc jobs s0 t"

definition claim_init :: "'a \<Rightarrow> 'a ksys" where
  "claim_init a = \<lparr>store_state = new_memory_claims, applier_state = a, phases = \<lambda>_. Arrived, applied = []\<rparr>"

definition busy :: "phase \<Rightarrow> bool" where
  "busy p \<longleftrightarrow> p = Claimed \<or> (\<exists>e. p = Failing e)"

definition busy_in :: "'a ksys \<Rightarrow> nat set" where
  "busy_in s = {d. busy (phases s d)}"

definition claim_inv :: "(nat \<Rightarrow> string \<times> order_payload) \<Rightarrow> 'a ksys \<Rightarrow> bool" where
  [inv_defs]: "claim_inv jobs s \<longleftrightarrow> distinct (applied s) \<and> inj_on (fst \<circ> jobs) (busy_in s) \<and>
     active (store_state s) = set (applied s) \<union> (fst \<circ> jobs) ` busy_in s \<and>
     set (applied s) \<inter> (fst \<circ> jobs) ` busy_in s = {}"

subsection \<open>The consumer\<close>

definition backoff_ns :: "nat \<Rightarrow> int" where
  "backoff_ns attempt = (int attempt + 1) * 100 * 1000000"

datatype record_out = Settled "kerr option" | Abandoned

text \<open>\<open>wait\<close> is the select on the timer and the context: did the context win?\<close>

fun attempt_record ::
  "(kmessage \<Rightarrow> 'w \<Rightarrow> kerr option \<times> 'w) \<Rightarrow> (int \<Rightarrow> 'w \<Rightarrow> bool \<times> 'w) \<Rightarrow> kmessage \<Rightarrow>
   nat \<Rightarrow> nat \<Rightarrow> kerr option \<Rightarrow> 'w \<Rightarrow> record_out \<times> 'w" where
  "attempt_record h wait m 0 attempt last_err w = (Settled last_err, w)"
| "attempt_record h wait m (Suc k) attempt last_err w =
     (let (r, w1) = h m w
      in case r of
           None \<Rightarrow> (Settled None, w1)
         | Some e \<Rightarrow>
             if as_terminal e then (Settled (Some e), w1)
             else let (cancelled, w2) = wait (backoff_ns attempt) w1
                  in if cancelled then (Abandoned, w2)
                     else attempt_record h wait m k (Suc attempt) (Some e) w2)"

text \<open>What \<^verbatim>\<open>toDeadLetter\<close> produces: the topic of the group and the headers that keep the identity.\<close>

definition dlq_headers :: "string \<Rightarrow> (string \<times> string) list \<Rightarrow> string \<Rightarrow> (string \<times> string) list" where
  "dlq_headers at hs cause =
     [(''dlq_error'', cause), (''dlq_at'', at), (''dlq_service'', ''order-processor'')] @
     map (\<lambda>(k, v). (''orig_'' @ k, v)) hs"

fun process_partition ::
  "(kmessage \<Rightarrow> 'w \<Rightarrow> kerr option \<times> 'w) \<Rightarrow> (int \<Rightarrow> 'w \<Rightarrow> bool \<times> 'w) \<Rightarrow> (kmessage \<Rightarrow> kerr \<Rightarrow> 'w \<Rightarrow> 'w) \<Rightarrow>
   nat \<Rightarrow> kmessage list \<Rightarrow> 'w \<Rightarrow> 'w" where
  "process_partition h wait to_dlq n [] w = w"
| "process_partition h wait to_dlq n (m # ms) w =
     (case attempt_record h wait m n 0 None w of
        (Abandoned, w1) \<Rightarrow> w1
      | (Settled None, w1) \<Rightarrow> process_partition h wait to_dlq n ms w1
      | (Settled (Some e), w1) \<Rightarrow> process_partition h wait to_dlq n ms (to_dlq m e w1))"

subsection \<open>Lemmas\<close>

text \<open>A delivery on its own, step by step, is \<^verbatim>\<open>processV1\<close>.\<close>

lemma process_is_run:
  assumes "parse_order svc payload = Inr ord"
  shows "\<exists>r st'. process_v1 svc i payload st = (r, st') \<and>
    (\<lambda>(p, st). advance svc i ord p st) ((\<lambda>(p, st). advance svc i ord p st) (advance svc i ord Arrived st)) = (Finished r, st')"
proof -
  obtain c s1 where c: "claim (claims svc) i (fst st) = (c, s1)" by fastforce
  obtain r a1 where r: "apply_order svc ord (snd st) = (r, a1)" by fastforce
  obtain q s2 where q: "release (claims svc) i s1 = (q, s2)" by fastforce
  consider e where "c = Inl e" | "c = Inr False" | "c = Inr True" "r = None"
    | e where "c = Inr True" "r = Some e" by (cases c; cases r) auto
  then show ?thesis
    using assms c r q by cases (simp_all add: process_v1_def advance_def split: option.split)
qed

lemma busy_simps [simp]: "\<not> busy Arrived" "\<not> busy (Finished r)" "busy Claimed" "busy (Failing e)"
  by (simp_all add: busy_def)

lemma claim_inv_init: "claim_inv jobs (claim_init a)"
  by (simp add: claim_inv_def claim_init_def new_memory_claims_def busy_in_def busy_def)

lemma advance_memory:
  assumes "claims svc = memory_claim_ops"
  shows "advance svc i ord Arrived (cs, a) =
      (if i \<in> active cs then (Finished None, (cs, a)) else (Claimed, (cs\<lparr>active := insert i (active cs)\<rparr>, a)))"
    "advance svc i ord (Failing e) (cs, a) =
      (Finished (Some (Wrap (''apply '' @ order_id ord) e)), (cs\<lparr>active := active cs - {i}\<rparr>, a))"
    "advance svc i ord Claimed (cs, a) =
      (case apply_order svc ord a of (None, a1) \<Rightarrow> (Finished None, (cs, a1)) | (Some e, a1) \<Rightarrow> (Failing e, (cs, a1)))"
    "advance svc i ord (Finished r) (cs, a) = (Finished r, (cs, a))"
  using assms by (simp_all add: advance_def memory_claim_ops_def mem_claim_def mem_release_def split: option.split prod.split)

lemma advance_cases:
  assumes ops: "claims svc = memory_claim_ops" and adv: "advance svc i r ph (store, a) = (p, (cs, a'))"
  obtains (dup) "ph = Arrived" "i \<in> active store" "p = Finished None" "cs = store"
    | (win) "ph = Arrived" "i \<notin> active store" "p = Claimed" "cs = store\<lparr>active := insert i (active store)\<rparr>"
    | (ok) "ph = Claimed" "p = Finished None" "cs = store"
    | (bad) e where "ph = Claimed" "p = Failing e" "cs = store"
    | (free) e r' where "ph = Failing e" "p = Finished (Some r')" "cs = store\<lparr>active := active store - {i}\<rparr>"
    | (over) r' where "ph = Finished r'" "p = Finished r'" "cs = store"
  using adv by (cases ph) (auto simp: advance_memory [OF ops] split: if_splits prod.splits option.splits)

lemma claim_step_inv:
  assumes "claims svc = memory_claim_ops" "claim_step svc jobs s t" "claim_inv jobs s"
  shows "claim_inv jobs t"
proof -
  obtain d p cs a where
    adv: "advance svc (fst (jobs d)) (snd (jobs d)) (phases s d) (store_state s, applier_state s) = (p, (cs, a))"
    and t: "t = s\<lparr>store_state := cs, applier_state := a, phases := (phases s)(d := p),
      applied := (if phases s d = Claimed \<and> p = Finished None then applied s @ [fst (jobs d)] else applied s)\<rparr>"
    using assms(2) by cases blast
  note inv = assms(3) [unfolded claim_inv_def]
  let ?i = "fst (jobs d)"
  have set: "busy_in t = (if busy p then insert d (busy_in s) else busy_in s - {d})"
    unfolding t busy_in_def by auto
  have ins: "busy (phases s d) \<Longrightarrow> insert d (busy_in s) = busy_in s"
    and del: "\<not> busy (phases s d) \<Longrightarrow> busy_in s - {d} = busy_in s"
    and mem: "busy (phases s d) \<longleftrightarrow> d \<in> busy_in s" by (auto simp: busy_in_def)
  have drop: "(fst \<circ> jobs) ` (busy_in s - {d}) = (fst \<circ> jobs) ` busy_in s - {?i} \<and> ?i \<in> (fst \<circ> jobs) ` busy_in s"
    if "d \<in> busy_in s"
    using inv that by (subst inj_on_image_set_diff [where C = "busy_in s"]) force+
  from assms(1) adv show ?thesis
  proof (cases rule: advance_cases)
    case win
    then show ?thesis using mem inv by (simp add: claim_inv_def set) (simp add: t)
  next
    case ok
    then show ?thesis
      using inv drop mem by (simp add: claim_inv_def set inj_on_diff del: image_comp) (auto simp: t)
  next
    case free
    then show ?thesis
      using inv drop mem by (simp add: claim_inv_def set inj_on_diff del: image_comp) (auto simp: t)
  next
    case bad
    then show ?thesis using inv ins by (simp add: claim_inv_def set) (simp add: t)
  qed (use inv del in \<open>simp add: claim_inv_def set, simp add: t\<close>)+
qed

lemma claim_reach_inv:
  assumes "claims svc = memory_claim_ops"
  shows "claim_reach svc jobs (claim_init a) s \<Longrightarrow> claim_inv jobs s"
proof (induction rule: claim_reach.induct)
  case start
  then show ?case by (rule claim_inv_init)
next
  case (step s t)
  then show ?case using claim_step_inv [OF assms] by blast
qed

lemma attempt_record_calls:
  assumes "\<And>m w. calls (snd (h m w)) = Suc (calls w)" "\<And>d w. fst (wait d w) = False \<and> calls (snd (wait d w)) = calls w"
  shows "attempt_record h wait m n k l w = (r, w1) \<Longrightarrow> (n = 0 \<longrightarrow> (case l of None \<Rightarrow> True | Some e \<Rightarrow> \<not> as_terminal e)) \<Longrightarrow>
    (\<exists>x. r = Settled x) \<and> calls w1 \<le> calls w + n \<and>
    (\<forall>e. r = Settled (Some e) \<and> \<not> as_terminal e \<longrightarrow> calls w1 = calls w + n)"
proof (induction n arbitrary: k l w)
  case 0
  then show ?case by auto
next
  case (Suc n)
  obtain x w2 where h: "h m w = (x, w2)" by fastforce
  then have c: "calls w2 = Suc (calls w)" using assms(1) [of m w] by simp
  obtain b w3 where wt: "wait (backoff_ns k) w2 = (b, w3)" by fastforce
  then have "b = False" "calls w3 = calls w2" using assms(2) [of "backoff_ns k" w2] by simp_all
  note w = this
  show ?case
  proof (cases "\<exists>e. x = Some e \<and> \<not> as_terminal e")
    case True
    then obtain e where e: "x = Some e" "\<not> as_terminal e" by blast
    then have "attempt_record h wait m n (Suc k) (Some e) w3 = (r, w1)"
      using Suc.prems(1) h wt w(1) by simp
    from Suc.IH [OF this] e c w(2) show ?thesis by simp
  next
    case False
    then show ?thesis using Suc.prems(1) h c by (cases x) auto
  qed
qed

text \<open>What every call keeps, the loops over a record and a partition keep.\<close>

lemma attempt_record_keeps:
  assumes "\<And>m w. P w \<Longrightarrow> P (snd (h m w))" "\<And>d w. P w \<Longrightarrow> P (snd (wait d w))"
  shows "P w \<Longrightarrow> P (snd (attempt_record h wait m n k l w))"
proof (induction n arbitrary: k l w)
  case (Suc n)
  obtain r w1 where h: "h m w = (r, w1)" by fastforce
  then have w1: "P w1" using assms(1) [OF Suc.prems, of m] by simp
  show ?case
  proof (cases "\<exists>e. r = Some e \<and> \<not> as_terminal e")
    case True
    obtain c w2 where wt: "wait (backoff_ns k) w1 = (c, w2)" by fastforce
    then have "P w2" using assms(2) [OF w1, of "backoff_ns k"] by simp
    then show ?thesis using True h wt Suc.IH by auto
  next
    case False
    then show ?thesis using h w1 by (cases r) auto
  qed
qed simp

lemma process_partition_keeps:
  assumes "\<And>m w. P w \<Longrightarrow> P (snd (h m w))" "\<And>d w. P w \<Longrightarrow> P (snd (wait d w))" "\<And>m e w. P w \<Longrightarrow> P (to_dlq m e w)"
  shows "P w \<Longrightarrow> P (process_partition h wait to_dlq n ms w)"
proof (induction ms arbitrary: w)
  case (Cons m ms)
  obtain r w1 where at: "attempt_record h wait m n 0 None w = (r, w1)" by fastforce
  have "P (snd (attempt_record h wait m n 0 None w))" using assms(1,2) Cons.prems by (rule attempt_record_keeps)
  then have "P w1" by (simp add: at)
  then show ?case using at assms(3) Cons.IH by (auto split: record_out.split option.split)
qed simp

lemma process_partition_fold:
  assumes "\<And>m w. \<exists>x. fst (attempt_record h wait m n 0 None w) = Settled x"
  shows "process_partition h wait to_dlq n ms w =
    fold (\<lambda>m w. case attempt_record h wait m n 0 None w of
      (Settled (Some e), w1) \<Rightarrow> to_dlq m e w1 | (_, w1) \<Rightarrow> w1) ms w"
proof (induction ms arbitrary: w)
  case Nil
  then show ?case by simp
next
  case (Cons m ms)
  obtain x w1 where "attempt_record h wait m n 0 None w = (Settled x, w1)"
    using assms [of m w] by (cases "attempt_record h wait m n 0 None w") auto
  then show ?case using Cons by (cases x) simp_all
qed

subsection \<open>Properties\<close>

text \<open>No order is applied twice: however deliveries of the same and of different IDs interleave, at most
  one delivery of an ID is ever between its claim and its outcome, every ID's apply succeeds at most
  once, and an ID stays claimed exactly when it was applied or is being worked on, so a failed apply can
  be retried.\<close>

theorem applied_once:
  assumes "claims svc = memory_claim_ops" "claim_reach svc jobs (claim_init a) s"
  shows "distinct (applied s) \<and>
    (\<forall>d d'. busy (phases s d) \<and> busy (phases s d') \<and> fst (jobs d) = fst (jobs d') \<longrightarrow> d = d') \<and>
    (\<forall>i. i \<in> active (store_state s) \<longleftrightarrow>
       (i \<in> set (applied s)) \<noteq> (\<exists>d. busy (phases s d) \<and> fst (jobs d) = i))"
proof -
  have inv: "claim_inv jobs s" by (rule claim_reach_inv [OF assms])
  then have "i \<in> active (store_state s) \<longleftrightarrow>
      (i \<in> set (applied s)) \<noteq> (\<exists>d. busy (phases s d) \<and> fst (jobs d) = i)" for i
    by (auto simp: claim_inv_def busy_in_def)
  then show ?thesis using inv by (auto simp: claim_inv_def busy_in_def inj_on_def)
qed

definition demo_service :: "(memory_claims, nat) order_service" where
  "demo_service = \<lparr>claims = memory_claim_ops, apply_order = (\<lambda>ord n. (if n = 0 then Some (Leaf ''down'') else None, Suc n)),
     parse_envelope = (\<lambda>b. Inr (1, b)),
     parse_order = (\<lambda>b. Inr \<lparr>order_id = b, account_id = ''a'', order_amount = 5, order_currency = ''EUR''\<rparr>)\<rparr>"

theorem applied_once_witness:
  "distinct (applied (claim_init (0 :: nat) \<lparr>store_state := \<lparr>active = {''k''}\<rparr>, phases := (\<lambda>_. Arrived)(0 := Claimed)\<rparr>))"
proof -
  let ?o = "\<lparr>order_id = ''o'', account_id = ''a'', order_amount = 5, order_currency = ''EUR''\<rparr>"
  let ?jobs = "\<lambda>d :: nat. (''k'', ?o)"
  let ?s = "claim_init (0 :: nat) \<lparr>store_state := \<lparr>active = {''k''}\<rparr>, phases := (\<lambda>_. Arrived)(0 := Claimed)\<rparr>"
  have ops: "claims demo_service = memory_claim_ops" by (simp add: demo_service_def)
  have "advance demo_service ''k'' ?o Arrived (new_memory_claims, 0) = (Claimed, (\<lparr>active = {''k''}\<rparr>, 0))"
    by (simp only: advance_memory [OF ops]) (simp add: new_memory_claims_def)
  then have "advance demo_service (fst (?jobs 0)) (snd (?jobs 0)) (phases (claim_init 0) 0)
      (store_state (claim_init 0), applier_state (claim_init 0)) = (Claimed, (\<lparr>active = {''k''}\<rparr>, 0))"
    by (simp only: claim_init_def ksys.simps fst_conv snd_conv)
  from claim_step.move [of demo_service ?jobs, OF this]
  have "claim_step demo_service ?jobs (claim_init 0) ?s" by (simp add: claim_init_def)
  with ops show ?thesis
    using applied_once [OF ops claim_reach.step [OF claim_reach.start]] by blast
qed

text \<open>What \<^verbatim>\<open>Process\<close> answers over \<^verbatim>\<open>MemoryClaims\<close>: a message without key, with a bad envelope, another
  version or a bad payload is terminal and touches neither claims nor applier; a duplicate succeeds
  without applying; a first delivery applies once, keeps its claim when that succeeds and frees it, with
  a retryable error, when it fails.\<close>

theorem process_outcomes:
  assumes "claims svc = memory_claim_ops" "headers m ''idempotency_key'' = Some i" "i \<noteq> []"
    and "parse_envelope svc (body m) = Inr (1, payload)" "parse_order svc payload = Inr ord"
    and "apply_order svc ord a = (r, a')" "\<not> as_terminal (case r of Some e \<Rightarrow> e | None \<Rightarrow> Leaf [])"
  shows "(i \<in> active cs \<longrightarrow> (\<exists>cs'. process svc m (cs, a) = (None, (cs', a)) \<and> active cs' = active cs)) \<and>
    (i \<notin> active cs \<longrightarrow> (\<exists>cs' res. process svc m (cs, a) = (res, (cs', a')) \<and>
       (case r of None \<Rightarrow> res = None \<and> active cs' = insert i (active cs)
        | Some e \<Rightarrow> res = Some (Wrap (''apply '' @ order_id ord) e) \<and> \<not> as_terminal (Wrap (''apply '' @ order_id ord) e) \<and>
            active cs' = active cs))) \<and>
    (\<forall>m' st. headers m' ''idempotency_key'' = None \<or>
       (\<exists>v p. headers m' ''idempotency_key'' = Some i \<and> parse_envelope svc (body m') = Inr (v, p) \<and> v \<noteq> 1) \<longrightarrow>
       (\<exists>e. process svc m' st = (Some e, st) \<and> as_terminal e))"
proof (intro conjI impI allI)
  assume "i \<in> active cs"
  then show "\<exists>cs'. process svc m (cs, a) = (None, (cs', a)) \<and> active cs' = active cs"
    using mc.duplicate [OF assms(1) _ assms(5)] assms(2-4) by (simp add: process_def)
next
  assume i: "i \<notin> active cs"
  have "process svc m (cs, a) = process_v1 svc i payload (cs, a)" using assms(2-4) by (simp add: process_def)
  then show "\<exists>cs' res. process svc m (cs, a) = (res, (cs', a')) \<and>
       (case r of None \<Rightarrow> res = None \<and> active cs' = insert i (active cs)
        | Some e \<Rightarrow> res = Some (Wrap (''apply '' @ order_id ord) e) \<and> \<not> as_terminal (Wrap (''apply '' @ order_id ord) e) \<and>
            active cs' = active cs)"
    using i assms(1,5-7)
    by (cases r) (simp_all add: process_v1_def memory_claim_ops_def mem_claim_def mem_release_def)
next
  fix m' :: kmessage and st
  assume "headers m' ''idempotency_key'' = None \<or>
       (\<exists>v p. headers m' ''idempotency_key'' = Some i \<and> parse_envelope svc (body m') = Inr (v, p) \<and> v \<noteq> 1)"
  then show "\<exists>e. process svc m' st = (Some e, st) \<and> as_terminal e"
    using assms(3) by (auto simp: process_def)
qed

theorem process_outcomes_witness:
  "\<exists>cs' res. process demo_service \<lparr>key = ''k'', body = ''b'', headers = [''idempotency_key'' \<mapsto> ''i1'']\<rparr>
     (\<lparr>active = {}\<rparr>, 0) = (res, (cs', 1)) \<and> res = Some (Wrap ''apply b'' (Leaf ''down'')) \<and> active cs' = {}"
proof -
  let ?m = "\<lparr>key = ''k'', body = ''b'', headers = [''idempotency_key'' \<mapsto> ''i1'']\<rparr>"
  let ?o = "\<lparr>order_id = ''b'', account_id = ''a'', order_amount = 5, order_currency = ''EUR''\<rparr>"
  from process_outcomes [of demo_service ?m "''i1''" "''b''" ?o 0 "Some (Leaf ''down'')" 1 "\<lparr>active = {}\<rparr>"]
  show ?thesis by (simp add: demo_service_def)
qed

text \<open>The consumer settles every record of a partition, in order, while the context lives: each one is
  processed or goes to the dead-letter topic with its last error, a terminal error at once and any other
  only after \<^verbatim>\<open>maxAttempts\<close> calls, and no record is skipped or retried further.\<close>

theorem partition_settles:
  assumes "\<And>m w. calls (snd (h m w)) = Suc (calls w)" "\<And>d w. fst (wait d w) = False \<and> calls (snd (wait d w)) = calls w"
  shows "process_partition h wait to_dlq n ms w =
      fold (\<lambda>m w. case attempt_record h wait m n 0 None w of
        (Settled (Some e), w1) \<Rightarrow> to_dlq m e w1 | (_, w1) \<Rightarrow> w1) ms w \<and>
    (\<forall>m w r w1. attempt_record h wait m n 0 None w = (r, w1) \<longrightarrow> (\<exists>x. r = Settled x) \<and>
       calls w1 \<le> calls w + n \<and> (\<forall>e. r = Settled (Some e) \<and> \<not> as_terminal e \<longrightarrow> calls w1 = calls w + n))"
proof -
  have rec: "attempt_record h wait m n 0 None w = (r, w1) \<Longrightarrow> (\<exists>x. r = Settled x) \<and> calls w1 \<le> calls w + n \<and>
      (\<forall>e. r = Settled (Some e) \<and> \<not> as_terminal e \<longrightarrow> calls w1 = calls w + n)" for m w r w1
    using attempt_record_calls [where calls = calls, OF assms] by simp
  have "\<exists>x. fst (attempt_record h wait m n 0 None w) = Settled x" for m w
    by (rule conjunct1 [OF rec]) (rule prod.collapse [symmetric])
  then show ?thesis
    by (intro conjI process_partition_fold allI impI) (auto dest: rec)
qed

theorem partition_settles_witness:
  "\<exists>x. fst (attempt_record (\<lambda>m w. (Some malformed, Suc w)) (\<lambda>d w. (False, w))
     \<lparr>key = [], body = [], headers = Map.empty\<rparr> 3 0 None (4 :: nat)) = Settled x"
proof -
  let ?h = "\<lambda>(m :: kmessage) (w :: nat). (Some malformed, Suc w)" and ?wait = "\<lambda>(d :: int) (w :: nat). (False, w)"
  have "\<And>m w. snd (?h m w) = Suc w" and "\<And>d w. fst (?wait d w) = False \<and> snd (?wait d w) = w" by simp_all
  from conjunct2 [OF partition_settles [where calls = "\<lambda>w. w", OF this]]
  have "\<forall>m w r w1. attempt_record ?h ?wait m 3 0 None w = (r, w1) \<longrightarrow> (\<exists>x. r = Settled x) \<and>
       w1 \<le> w + 3 \<and> (\<forall>e. r = Settled (Some e) \<and> \<not> as_terminal e \<longrightarrow> w1 = w + 3)" .
  then show ?thesis using prod.collapse by metis
qed

end
