(* ===== verification/Secure.thy ===== *)
theory Secure
  imports Text
begin

text \<open>
  The security examples of \<^verbatim>\<open>21-security/examples/secure/secure.go\<close>: the bearer-token verifier
  \<^verbatim>\<open>Ed25519Verifier\<close> and the allowlisted \<^verbatim>\<open>Fetcher\<close>.  Raw-URL base64 is modelled; the JSON decoding of
  claims, the signature check \<^verbatim>\<open>ed25519.Verify\<close>, \<^verbatim>\<open>url.Parse\<close>, the resolver and the servers are
  parameters; \<open>client_do\<close> is what \<^verbatim>\<open>http.Client.Do\<close> makes of redirects.  Addresses are lists of 4 or
  16 byte values.
\<close>

subsection \<open>Base64\<close>

definition b64_value :: "char \<Rightarrow> nat option" where
  "b64_value ch =
     (let c = of_char ch :: nat
      in if 65 \<le> c \<and> c \<le> 90 then Some (c - 65)
         else if 97 \<le> c \<and> c \<le> 122 then Some (c - 71)
         else if 48 \<le> c \<and> c \<le> 57 then Some (c + 4)
         else if c = 45 then Some 62
         else if c = 95 then Some 63
         else None)"

fun b64_bytes :: "nat list \<Rightarrow> nat list option" where
  "b64_bytes [] = Some []"
| "b64_bytes [a] = None"
| "b64_bytes [a, b] = Some [4 * a + b div 16]"
| "b64_bytes [a, b, c] = Some [4 * a + b div 16, 16 * (b mod 16) + c div 4]"
| "b64_bytes (a # b # c # d # r) =
     map_option (\<lambda>bs. (4 * a + b div 16) # (16 * (b mod 16) + c div 4) # (64 * (c mod 4) + d) # bs) (b64_bytes r)"

text \<open>Line breaks are skipped, and the unused low bits of the last digit are not checked.\<close>

definition raw_url_decode :: "string \<Rightarrow> string option" where
  "raw_url_decode s =
     (case those (map b64_value (filter (\<lambda>c. c \<noteq> char_of (10 :: nat) \<and> c \<noteq> char_of (13 :: nat)) s)) of
        None \<Rightarrow> None
      | Some vs \<Rightarrow> map_option (map char_of) (b64_bytes vs))"

subsection \<open>The verifier\<close>

record claims =
  claim_subject :: string
  claim_issuer :: string
  claim_audience :: string
  expires_at :: instant

record 'k verifier =
  verify_key :: 'k
  issuer :: string
  audience :: string

text \<open>The clock of a verifier, which \<^verbatim>\<open>WithNow\<close> replaces, is the instant \<open>verify\<close> gets.\<close>

definition new_verifier :: "'k \<Rightarrow> string \<Rightarrow> string \<Rightarrow> 'k verifier" where
  "new_verifier key iss aud = \<lparr>verify_key = key, issuer = iss, audience = aud\<rparr>"

definition verify ::
  "(string \<Rightarrow> claims option) \<Rightarrow> ('k \<Rightarrow> string \<Rightarrow> string \<Rightarrow> bool) \<Rightarrow> 'k verifier \<Rightarrow> instant \<Rightarrow> string \<Rightarrow> string option" where
  "verify unmarshal ed_verify v now auth =
     (if \<not> has_prefix auth ''Bearer '' then None
      else case split_on (CHR ''.'') (drop (length ''Bearer '') auth) of
             [header, body, sig_part] \<Rightarrow>
               (case raw_url_decode body of
                  None \<Rightarrow> None
                | Some payload \<Rightarrow>
                    (case unmarshal payload of
                       None \<Rightarrow> None
                     | Some c \<Rightarrow>
                         if \<not> now < expires_at c then None
                         else if claim_issuer c \<noteq> issuer v \<or> claim_audience c \<noteq> audience v then None
                         else (case raw_url_decode sig_part of
                                 None \<Rightarrow> None
                               | Some sig \<Rightarrow>
                                   if \<not> ed_verify (verify_key v) (header @ ''.'' @ body) sig then None
                                   else if claim_subject c = [] then None
                                   else Some (claim_subject c))))
           | _ \<Rightarrow> None)"

subsection \<open>The fetcher\<close>

type_synonym ip = "nat list"

definition to4 :: "ip \<Rightarrow> ip option" where
  "to4 ip =
     (if length ip = 4 then Some ip
      else if length ip = 16 \<and> take 12 ip = replicate 10 0 @ [255, 255] then Some (drop 12 ip)
      else None)"

definition ip_equal :: "ip \<Rightarrow> ip \<Rightarrow> bool" where
  "ip_equal x y \<longleftrightarrow> x = y \<or> (case (to4 x, to4 y) of (Some a, Some b) \<Rightarrow> a = b | _ \<Rightarrow> False)"

definition is_loopback :: "ip \<Rightarrow> bool" where
  "is_loopback ip \<longleftrightarrow>
     (case to4 ip of Some v \<Rightarrow> v ! 0 = 127 | None \<Rightarrow> ip_equal ip (replicate 15 0 @ [1]))"

definition is_private :: "ip \<Rightarrow> bool" where
  "is_private ip \<longleftrightarrow>
     (case to4 ip of
        Some v \<Rightarrow> v ! 0 = 10 \<or> (v ! 0 = 172 \<and> v ! 1 div 16 = 1) \<or> (v ! 0 = 192 \<and> v ! 1 = 168)
      | None \<Rightarrow> length ip = 16 \<and> ip ! 0 div 2 = 126)"

definition is_link_local :: "ip \<Rightarrow> bool" where
  "is_link_local ip \<longleftrightarrow>
     (case to4 ip of
        Some v \<Rightarrow> v ! 0 = 169 \<and> v ! 1 = 254
      | None \<Rightarrow> length ip = 16 \<and> ip ! 0 = 254 \<and> ip ! 1 div 64 = 2)"

definition is_unspecified :: "ip \<Rightarrow> bool" where
  "is_unspecified ip \<longleftrightarrow> ip_equal ip [0, 0, 0, 0] \<or> ip_equal ip (replicate 16 0)"

record url =
  scheme :: string
  hostname :: string
  url_text :: string

text \<open>
  \<^verbatim>\<open>http.Client\<close>.  A server answers a request, given the ones before it, or fails (\<open>None\<close>, a timeout
  included); \<open>redirect_to\<close> is the target of a redirecting answer.  \<^verbatim>\<open>CheckRedirect\<close> gets the target and
  the requests so far and answers nil, \<^verbatim>\<open>ErrUseLastResponse\<close> or another error; without it, up to ten
  requests are made.
\<close>

record response =
  resp_status :: int
  resp_body :: string
  redirect_to :: "string option"

datatype redirect_answer = Follow | Use_last_response | Refuse

record client =
  client_timeout :: int
  check_redirect :: "(string \<Rightarrow> string list \<Rightarrow> redirect_answer) option"

definition redirect_policy :: "client \<Rightarrow> string \<Rightarrow> string list \<Rightarrow> redirect_answer" where
  "redirect_policy c target via =
     (case check_redirect c of
        None \<Rightarrow> if length via \<ge> 10 then Refuse else Follow
      | Some f \<Rightarrow> f target via)"

text \<open>The requests made, oldest first, and the response; \<open>None\<close> alone is a redirect still being followed
  when the fuel is gone.\<close>

fun client_do ::
  "nat \<Rightarrow> (string list \<Rightarrow> string \<Rightarrow> response option) \<Rightarrow> client \<Rightarrow> string list \<Rightarrow> string \<Rightarrow>
   (string list \<times> response option) option" where
  "client_do 0 server c via u = None"
| "client_do (Suc n) server c via u =
     (let made = via @ [u]
      in case server via u of
           None \<Rightarrow> Some (made, None)
         | Some r \<Rightarrow>
             (case redirect_to r of
                None \<Rightarrow> Some (made, Some r)
              | Some target \<Rightarrow>
                  (case redirect_policy c target made of
                     Follow \<Rightarrow> client_do n server c made target
                   | Use_last_response \<Rightarrow> Some (made, Some r)
                   | Refuse \<Rightarrow> Some (made, None))))"

record fetcher =
  fetch_client :: client
  allow_hosts :: "string set"

definition new_fetcher :: "(string \<Rightarrow> string) \<Rightarrow> string list \<Rightarrow> fetcher" where
  "new_fetcher ul hosts =
     \<lparr>fetch_client = \<lparr>client_timeout = 10 * 1000000000, check_redirect = Some (\<lambda>_ _. Use_last_response)\<rparr>,
      allow_hosts = set (map (to_lower ul) hosts)\<rparr>"

text \<open>\<open>Blocked\<close> is \<^verbatim>\<open>ErrBlockedURL\<close>, \<open>Answer\<close> what the client returns.\<close>

datatype fetched = Blocked | Answer "response option"

definition fetch ::
  "(string \<Rightarrow> string) \<Rightarrow> (string \<Rightarrow> url option) \<Rightarrow> (string \<Rightarrow> ip list option) \<Rightarrow> (string \<Rightarrow> bool) \<Rightarrow>
   nat \<Rightarrow> (string list \<Rightarrow> string \<Rightarrow> response option) \<Rightarrow> fetcher \<Rightarrow> string \<Rightarrow> (string list \<times> fetched) option" where
  "fetch ul parse lookup request_ok n server f raw =
     (case parse raw of
        None \<Rightarrow> Some ([], Blocked)
      | Some u \<Rightarrow>
          if scheme u \<noteq> ''https'' then Some ([], Blocked)
          else let host = to_lower ul (hostname u)
               in if host \<notin> allow_hosts f then Some ([], Blocked)
                  else case lookup host of
                         None \<Rightarrow> Some ([], Blocked)
                       | Some ips \<Rightarrow>
                           if ips = [] then Some ([], Blocked)
                           else if list_ex (\<lambda>ip. is_loopback ip \<or> is_private ip \<or> is_link_local ip \<or> is_unspecified ip) ips
                                then Some ([], Blocked)
                           else if \<not> request_ok (url_text u) then Some ([], Blocked)
                           else map_option (map_prod id Answer) (client_do n server (fetch_client f) [] (url_text u)))"

subsection \<open>Lemmas\<close>

lemma to4_plain: "to4 [a, b, c, d] = Some [a, b, c, d]"
  by (simp add: to4_def)

lemma to4_zero: "to4 [0, 0, 0, 0] = Some [0, 0, 0, 0]"
  by (rule to4_plain)

lemma to4_mapped: "to4 (replicate 10 0 @ [255, 255, a, b, c, d]) = Some [a, b, c, d]"
  by (simp add: to4_def numeral_nat)

lemma to4_v6:
  assumes "length ip = 16" "ip ! 0 \<noteq> 0"
  shows "to4 ip = None"
proof -
  have "take 12 ip ! 0 = ip ! 0" by simp
  moreover have "(replicate 10 0 @ [255, 255 :: nat]) ! 0 = 0" by (simp add: nth_append)
  ultimately have "take 12 ip \<noteq> replicate 10 0 @ [255, 255]" using assms(2) by metis
  then show ?thesis using assms(1) by (simp add: to4_def)
qed

subsection \<open>Properties\<close>

text \<open>C36: the verifier accepts exactly the properly signed tokens: the header is \<^verbatim>\<open>Bearer\<close> and three
  segments without dots, the claims of the middle one are unexpired, name the pinned issuer and audience
  and a subject, and the decoded third one is a signature of the first two verbatim under the pinned
  key; what it returns is that subject.  Nothing in the first segment matters beyond being signed.\<close>

theorem verify_exact:
  "verify unmarshal ed_verify v now auth = Some subj \<longleftrightarrow>
     (\<exists>h b s payload c sig. auth = ''Bearer '' @ h @ ''.'' @ b @ ''.'' @ s \<and>
        CHR ''.'' \<notin> set h \<union> set b \<union> set s \<and>
        raw_url_decode b = Some payload \<and> unmarshal payload = Some c \<and> now < expires_at c \<and>
        claim_issuer c = issuer v \<and> claim_audience c = audience v \<and>
        raw_url_decode s = Some sig \<and> ed_verify (verify_key v) (h @ ''.'' @ b) sig \<and>
        claim_subject c = subj \<and> subj \<noteq> [])" (is "?L \<longleftrightarrow> ?R")
proof
  assume L: ?L
  let ?tok = "drop (length ''Bearer '') auth"
  have pre: "has_prefix auth ''Bearer ''" using L by (simp add: verify_def split: if_splits)
  then have auth: "auth = ''Bearer '' @ ?tok" by (metis append_take_drop_id has_prefix_def)
  obtain h b s where parts: "split_on (CHR ''.'') ?tok = [h, b, s]"
    using L by (simp add: verify_def split: if_splits list.splits)
  then have "?tok = h @ CHR ''.'' # b @ CHR ''.'' # s" "CHR ''.'' \<notin> set h \<union> set b \<union> set s"
    unfolding split_on_three by blast+
  moreover obtain payload c sig where "raw_url_decode b = Some payload" "unmarshal payload = Some c" "now < expires_at c"
    "claim_issuer c = issuer v" "claim_audience c = audience v" "raw_url_decode s = Some sig"
    "ed_verify (verify_key v) (h @ ''.'' @ b) sig" "claim_subject c = subj" "subj \<noteq> []"
    using L parts by (auto simp: verify_def split: if_splits option.splits)
  ultimately have "auth = ''Bearer '' @ h @ ''.'' @ b @ ''.'' @ s \<and> CHR ''.'' \<notin> set h \<union> set b \<union> set s \<and>
      raw_url_decode b = Some payload \<and> unmarshal payload = Some c \<and> now < expires_at c \<and>
      claim_issuer c = issuer v \<and> claim_audience c = audience v \<and> raw_url_decode s = Some sig \<and>
      ed_verify (verify_key v) (h @ ''.'' @ b) sig \<and> claim_subject c = subj \<and> subj \<noteq> []"
    using auth by simp
  then show ?R by blast
next
  assume ?R
  then obtain h b s payload c sig where r: "auth = ''Bearer '' @ h @ ''.'' @ b @ ''.'' @ s"
    "CHR ''.'' \<notin> set h \<union> set b \<union> set s" "raw_url_decode b = Some payload" "unmarshal payload = Some c"
    "now < expires_at c" "claim_issuer c = issuer v" "claim_audience c = audience v" "raw_url_decode s = Some sig"
    "ed_verify (verify_key v) (h @ ''.'' @ b) sig" "claim_subject c = subj" "subj \<noteq> []" by blast
  have "has_prefix auth ''Bearer ''" by (simp only: r(1) has_prefix_append)
  moreover have "drop (length ''Bearer '') auth = h @ CHR ''.'' # b @ CHR ''.'' # s" by (simp add: r(1))
  then have "split_on (CHR ''.'') (drop (length ''Bearer '') auth) = [h, b, s]"
    using r(2) by (simp only: split_on_three simp_thms)
  ultimately show ?L using r(3-) by (simp add: verify_def)
qed

theorem verify_exact_witness:
  "verify (\<lambda>p. if p = ''hi'' then Some \<lparr>claim_subject = ''u'', claim_issuer = ''i'', claim_audience = ''a'', expires_at = 9\<rparr> else None)
     (\<lambda>k m s. k = (1 :: nat) \<and> m = ''x.aGk'' \<and> s = ''ok'') \<lparr>verify_key = 1, issuer = ''i'', audience = ''a''\<rparr> 5
     ''Bearer x.aGk.b2s'' = Some ''u''"
proof -
  have dec: "raw_url_decode ''aGk'' = Some ''hi''" "raw_url_decode ''b2s'' = Some ''ok''" by code_simp+
  show ?thesis
    unfolding verify_exact
    by (rule exI [of _ "''x''"], rule exI [of _ "''aGk''"], rule exI [of _ "''b2s''"]) (simp add: dec)
qed

text \<open>C37: whatever the servers answer, a call of \<^verbatim>\<open>Fetch\<close> on a fetcher of \<^verbatim>\<open>NewFetcher\<close> returns and makes
  no request at all (\<^verbatim>\<open>ErrBlockedURL\<close>) or exactly one, and hands its answer back even when that is a
  redirect.  The one URL is the parsed argument; it is https, its host is allowed, and the addresses
  that the lookup of \<^verbatim>\<open>Fetch\<close> gives for the host, one at least, are not loopback (\<open>127/8\<close>, \<open>::1\<close>),
  private (\<open>10/8\<close>, \<open>172.16/12\<close>, \<open>192.168/16\<close>, \<open>fc00::/7\<close>), link-local (\<open>169.254/16\<close>, \<open>fe80::/10\<close>) or
  unspecified (\<open>0.0.0.0\<close>, \<open>::\<close>), nor such an IPv4 address dressed as an IPv6 one.\<close>

theorem fetch_public:
  "\<exists>made res. fetch ul parse lookup request_ok (Suc n) server (new_fetcher ul hosts) raw = Some (made, res) \<and>
    (made = [] \<and> res = Blocked \<or>
     (\<exists>u ips. made = [url_text u] \<and> res = Answer (server [] (url_text u)) \<and>
       parse raw = Some u \<and> scheme u = ''https'' \<and>
       to_lower ul (hostname u) \<in> to_lower ul ` set hosts \<and> lookup (to_lower ul (hostname u)) = Some ips \<and> ips \<noteq> [] \<and>
       (\<forall>a b c d. [a, b, c, d] \<in> set ips \<or> replicate 10 0 @ [255, 255, a, b, c, d] \<in> set ips \<longrightarrow>
          a \<noteq> 127 \<and> a \<noteq> 10 \<and> \<not> (a = 172 \<and> 16 \<le> b \<and> b < 32) \<and> \<not> (a = 192 \<and> b = 168) \<and> \<not> (a = 169 \<and> b = 254) \<and>
          [a, b, c, d] \<noteq> [0, 0, 0, 0]) \<and>
       replicate 15 0 @ [1] \<notin> set ips \<and> replicate 16 0 \<notin> set ips \<and>
       (\<forall>ip \<in> set ips. length ip = 16 \<longrightarrow> ip ! 0 \<notin> {252, 253} \<and> \<not> (ip ! 0 = 254 \<and> 128 \<le> ip ! 1 \<and> ip ! 1 < 192))))"
proof (cases "fetch ul parse lookup request_ok (Suc n) server (new_fetcher ul hosts) raw = Some ([], Blocked)")
  case True
  then show ?thesis by blast
next
  case False
  then obtain u ips where u: "parse raw = Some u" "scheme u = ''https''"
    "to_lower ul (hostname u) \<in> to_lower ul ` set hosts" "lookup (to_lower ul (hostname u)) = Some ips" "ips \<noteq> []"
    and no: "\<not> list_ex (\<lambda>ip. is_loopback ip \<or> is_private ip \<or> is_link_local ip \<or> is_unspecified ip) ips"
    and ok: "request_ok (url_text u)"
    by (auto simp: fetch_def new_fetcher_def Let_def split: option.splits if_splits)
  have run: "fetch ul parse lookup request_ok (Suc n) server (new_fetcher ul hosts) raw =
      Some ([url_text u], Answer (server [] (url_text u)))"
    using u no ok by (simp add: fetch_def new_fetcher_def redirect_policy_def Let_def split: option.split)
  have pub: "\<not> is_loopback ip" "\<not> is_private ip" "\<not> is_link_local ip" "\<not> is_unspecified ip"
    if "ip \<in> set ips" for ip
    using no that by (auto simp: list_ex_iff)
  have v4: "a \<noteq> 127 \<and> a \<noteq> 10 \<and> \<not> (a = 172 \<and> 16 \<le> b \<and> b < 32) \<and> \<not> (a = 192 \<and> b = 168) \<and>
      \<not> (a = 169 \<and> b = 254) \<and> [a, b, c, d] \<noteq> [0, 0, 0, 0]"
    if "ip \<in> set ips" "to4 ip = Some [a, b, c, d]" for ip a b c d
  proof -
    have "16 \<le> b \<and> b < 32 \<Longrightarrow> b div 16 = 1" by (simp add: div_nat_eqI)
    then show ?thesis
      using pub [OF that(1)] that(2)
      by (auto simp: is_loopback_def is_private_def is_link_local_def is_unspecified_def ip_equal_def to4_zero)
  qed
  have v6: "\<not> (ip ! 0 = 252 \<or> ip ! 0 = 253) \<and> \<not> (ip ! 0 = 254 \<and> 128 \<le> ip ! 1 \<and> ip ! 1 < 192)"
    if "ip \<in> set ips" "length ip = 16" for ip
  proof -
    have "128 \<le> ip ! 1 \<and> ip ! 1 < 192 \<Longrightarrow> ip ! 1 div 64 = 2" by (simp add: div_nat_eqI)
    then show ?thesis
      using pub(2,3) [OF that(1)] that(2) to4_v6 [OF that(2)]
      by (cases "ip ! 0 = 0") (auto simp: is_private_def is_link_local_def)
  qed
  have lo: "is_loopback (replicate 15 0 @ [1])" "is_unspecified (replicate 16 0)"
    by (simp_all add: is_loopback_def is_unspecified_def ip_equal_def to4_def numeral_nat)
  note run
  moreover have "(\<forall>a b c d. [a, b, c, d] \<in> set ips \<or> replicate 10 0 @ [255, 255, a, b, c, d] \<in> set ips \<longrightarrow>
      a \<noteq> 127 \<and> a \<noteq> 10 \<and> \<not> (a = 172 \<and> 16 \<le> b \<and> b < 32) \<and> \<not> (a = 192 \<and> b = 168) \<and> \<not> (a = 169 \<and> b = 254) \<and>
      [a, b, c, d] \<noteq> [0, 0, 0, 0])"
    using v4 to4_plain to4_mapped by blast
  moreover have "replicate 15 0 @ [1] \<notin> set ips" "replicate 16 0 \<notin> set ips" using pub lo by blast+
  moreover have "\<forall>ip \<in> set ips. length ip = 16 \<longrightarrow> ip ! 0 \<notin> {252, 253} \<and> \<not> (ip ! 0 = 254 \<and> 128 \<le> ip ! 1 \<and> ip ! 1 < 192)"
    using v6 by blast
  ultimately show ?thesis using u by blast
qed

text \<open>A fetcher for \<^verbatim>\<open>h\<close>, and a server that redirects to a private address: the redirect is handed back.\<close>

theorem fetch_public_witness:
  "fetch (\<lambda>s. s) (\<lambda>s. Some \<lparr>scheme = ''https'', hostname = ''H'', url_text = s\<rparr>) (\<lambda>h. Some [[93, 184, 216, 34]])
     (\<lambda>t. True) 1 (\<lambda>via t. Some \<lparr>resp_status = 302, resp_body = [], redirect_to = Some ''http://10.0.0.1/''\<rparr>)
     (new_fetcher (\<lambda>s. s) [''h'']) ''u'' =
   Some ([''u''], Answer (Some \<lparr>resp_status = 302, resp_body = [], redirect_to = Some ''http://10.0.0.1/''\<rparr>))"
proof -
  let ?f = "fetch (\<lambda>s. s) (\<lambda>s. Some \<lparr>scheme = ''https'', hostname = ''H'', url_text = s\<rparr>) (\<lambda>h. Some [[93, 184, 216, 34]])
     (\<lambda>t. True) (Suc 0) (\<lambda>via t. Some \<lparr>resp_status = 302, resp_body = [], redirect_to = Some ''http://10.0.0.1/''\<rparr>)
     (new_fetcher (\<lambda>s. s) [''h'']) ''u''"
  have low: "to_lower (\<lambda>s. s) ''H'' = ''h''" "to_lower (\<lambda>s. s) ''h'' = ''h''" by code_simp+
  have ip: "\<not> is_loopback [93, 184, 216, 34]" "\<not> is_private [93, 184, 216, 34]"
    "\<not> is_link_local [93, 184, 216, 34]" "\<not> is_unspecified [93, 184, 216, 34]" by code_simp+
  have "?f \<noteq> Some ([], Blocked)" by (simp add: fetch_def new_fetcher_def low ip redirect_policy_def)
  then show ?thesis
    using fetch_public [of "\<lambda>s. s" "\<lambda>s. Some \<lparr>scheme = ''https'', hostname = ''H'', url_text = s\<rparr>"
        "\<lambda>h. Some [[93, 184, 216, 34]]" "\<lambda>t. True" 0
        "\<lambda>via t. Some \<lparr>resp_status = 302, resp_body = [], redirect_to = Some ''http://10.0.0.1/''\<rparr>" "[''h'']" "''u''"]
    by auto
qed

end
