(* ===== verification/Limiter.thy ===== *)
theory Limiter
  imports Prelude
begin

text \<open>
  The two-layer rate limiter of \<^verbatim>\<open>21-security/examples/secure/secure.go\<close>.  Its token buckets,
  \<^verbatim>\<open>rate.Limiter\<close> of \<^verbatim>\<open>golang.org/x/time/rate\<close>, are a parameter: \<open>spend t b\<close> is \<^verbatim>\<open>AllowN(t, 1)\<close> and \<open>fresh\<close>
  a new bucket.  A \<^verbatim>\<open>keyedLimiter\<close> is a cell of the store and the map holds its address, so the steps
  of concurrent calls can be told apart; \<open>allow\<close> is one call without interruption.  Instants are those of
  \<^verbatim>\<open>UnixNano\<close>, counted from the Unix epoch.
\<close>

subsection \<open>State and steps\<close>

record 'b limiter =
  global :: 'b
  keys :: "string \<rightharpoonup> nat"
  cells :: "('b \<times> instant) list"
  ttl :: duration

definition new_limiter :: "'b \<Rightarrow> duration \<Rightarrow> 'b limiter" where
  "new_limiter g d = \<lparr>global = g, keys = Map.empty, cells = [], ttl = d\<rparr>"

definition spend_global :: "(instant \<Rightarrow> 'b \<Rightarrow> bool \<times> 'b) \<Rightarrow> instant \<Rightarrow> 'b limiter \<Rightarrow> bool \<times> 'b limiter" where
  "spend_global spend t l = (case spend t (global l) of (ok, g) \<Rightarrow> (ok, l\<lparr>global := g\<rparr>))"

text \<open>\<^verbatim>\<open>LoadOrStore\<close>: a new entry has never been seen, at instant 0.\<close>

definition load_or_store :: "'b \<Rightarrow> string \<Rightarrow> 'b limiter \<Rightarrow> nat \<times> 'b limiter" where
  "load_or_store fresh i l =
     (case keys l i of
        Some a \<Rightarrow> (a, l)
      | None \<Rightarrow> (length (cells l), l\<lparr>keys := (keys l)(i \<mapsto> length (cells l)), cells := cells l @ [(fresh, 0)]\<rparr>))"

definition mark :: "nat \<Rightarrow> instant \<Rightarrow> 'b limiter \<Rightarrow> 'b limiter" where
  "mark a t l = l\<lparr>cells := (cells l)[a := (fst (cells l ! a), t)]\<rparr>"

definition spend_keyed :: "(instant \<Rightarrow> 'b \<Rightarrow> bool \<times> 'b) \<Rightarrow> nat \<Rightarrow> instant \<Rightarrow> 'b limiter \<Rightarrow> bool \<times> 'b limiter" where
  "spend_keyed spend a t l =
     (case spend t (fst (cells l ! a)) of
        (ok, b) \<Rightarrow> (ok, l\<lparr>cells := (cells l)[a := (b, snd (cells l ! a))]\<rparr>))"

text \<open>\<^verbatim>\<open>Allow\<close> reads the clock three times.\<close>

definition allow ::
  "(instant \<Rightarrow> 'b \<Rightarrow> bool \<times> 'b) \<Rightarrow> 'b \<Rightarrow> instant \<times> instant \<times> instant \<Rightarrow> string \<Rightarrow> 'b limiter \<Rightarrow> bool \<times> 'b limiter" where
  "allow spend fresh ts i l =
     (case ts of (t1, t2, t3) \<Rightarrow>
        (case spend_global spend t1 l of
           (False, l1) \<Rightarrow> (False, l1)
         | (True, l1) \<Rightarrow>
             (case load_or_store fresh i l1 of (a, l2) \<Rightarrow> spend_keyed spend a t3 (mark a t2 l2))))"

text \<open>\<^verbatim>\<open>CompareAndDelete\<close> removes an entry only if it is still the one that was looked at.\<close>

definition sweep :: "instant \<Rightarrow> 'b limiter \<Rightarrow> 'b limiter" where
  "sweep now l =
     (if ttl l \<le> 0 then l
      else l\<lparr>keys := (\<lambda>i. case keys l i of
          None \<Rightarrow> None
        | Some a \<Rightarrow> if snd (cells l ! a) < now - ttl l then None else Some a)\<rparr>)"

subsection \<open>Lemmas\<close>

text \<open>The bucket and the last use of an identity; distinct identities have distinct cells.\<close>

definition entry :: "'b limiter \<Rightarrow> string \<Rightarrow> ('b \<times> instant) option" where
  "entry l i = map_option (\<lambda>a. cells l ! a) (keys l i)"

definition limiter_inv :: "'b limiter \<Rightarrow> bool" where
  [inv_defs]: "limiter_inv l \<longleftrightarrow>
     (\<forall>i a. keys l i = Some a \<longrightarrow> a < length (cells l)) \<and>
     (\<forall>i j a. keys l i = Some a \<and> keys l j = Some a \<longrightarrow> i = j)"

lemma new_limiter_inv: "limiter_inv (new_limiter g d)"
  by (simp add: limiter_inv_def new_limiter_def)

lemma sweep_inv: "limiter_inv l \<Longrightarrow> limiter_inv (sweep now l)"
  by (auto simp: limiter_inv_def sweep_def split: option.splits if_splits)

lemma low: "limiter_inv l \<Longrightarrow> keys l i = Some a \<Longrightarrow> a < length (cells l)"
  by (simp add: limiter_inv_def)

lemma own_cell: "limiter_inv l \<Longrightarrow> keys l i = Some a \<Longrightarrow> keys l j = Some a \<Longrightarrow> i = j"
  unfolding limiter_inv_def by blast

lemma load_new:
  assumes "limiter_inv l" "keys l i = None"
  shows "limiter_inv (l\<lparr>keys := (keys l)(i \<mapsto> length (cells l)), cells := cells l @ [c]\<rparr>)"
proof -
  have fresh: "keys l j \<noteq> Some (length (cells l))" for j using low [OF assms(1), of j] by auto
  show ?thesis unfolding limiter_inv_def
  proof (intro conjI allI impI)
    fix j a assume "keys (l\<lparr>keys := (keys l)(i \<mapsto> length (cells l)), cells := cells l @ [c]\<rparr>) j = Some a"
    then show "a < length (cells (l\<lparr>keys := (keys l)(i \<mapsto> length (cells l)), cells := cells l @ [c]\<rparr>))"
      using low [OF assms(1), of j a] by (auto split: if_splits)
  next
    fix j k a
    assume "keys (l\<lparr>keys := (keys l)(i \<mapsto> length (cells l)), cells := cells l @ [c]\<rparr>) j = Some a \<and>
      keys (l\<lparr>keys := (keys l)(i \<mapsto> length (cells l)), cells := cells l @ [c]\<rparr>) k = Some a"
    then show "j = k"
      using own_cell [OF assms(1), of j a k] fresh by (auto split: if_splits)
  qed
qed

definition cell_of :: "'b \<Rightarrow> 'b limiter \<Rightarrow> string \<Rightarrow> 'b \<times> instant" where
  "cell_of fresh l i = (case entry l i of None \<Rightarrow> (fresh, 0) | Some e \<Rightarrow> e)"

lemma load_spec:
  assumes "limiter_inv l" "load_or_store fresh i l = (a, l1)"
  shows "limiter_inv l1" "keys l1 i = Some a" "cells l1 ! a = cell_of fresh l i" "global l1 = global l"
    "j \<noteq> i \<Longrightarrow> entry l1 j = entry l j" "ttl l1 = ttl l"
proof -
  have "limiter_inv l1 \<and> keys l1 i = Some a \<and> cells l1 ! a = cell_of fresh l i \<and> global l1 = global l \<and>
      (j \<noteq> i \<longrightarrow> entry l1 j = entry l j) \<and> ttl l1 = ttl l"
  proof (cases "keys l i")
    case None
    then have l1: "a = length (cells l)" "l1 = l\<lparr>keys := (keys l)(i \<mapsto> length (cells l)), cells := cells l @ [(fresh, 0)]\<rparr>"
      using assms(2) by (auto simp: load_or_store_def)
    have "j \<noteq> i \<longrightarrow> entry l1 j = entry l j"
      using low [OF assms(1), of j] by (cases "keys l j") (simp_all add: entry_def l1 nth_append)
    then show ?thesis using load_new [OF assms(1) None] None
      by (simp add: l1 cell_of_def entry_def)
  next
    case (Some b)
    then show ?thesis using assms by (auto simp: load_or_store_def cell_of_def entry_def)
  qed
  then show "limiter_inv l1" "keys l1 i = Some a" "cells l1 ! a = cell_of fresh l i" "global l1 = global l"
    "j \<noteq> i \<Longrightarrow> entry l1 j = entry l j" "ttl l1 = ttl l" by blast+
qed

lemma write_cell:
  assumes "limiter_inv l" "keys l i = Some a"
  shows "limiter_inv (l\<lparr>cells := (cells l)[a := c]\<rparr>)" "entry (l\<lparr>cells := (cells l)[a := c]\<rparr>) i = Some c"
    "j \<noteq> i \<Longrightarrow> entry (l\<lparr>cells := (cells l)[a := c]\<rparr>) j = entry l j"
proof -
  show "limiter_inv (l\<lparr>cells := (cells l)[a := c]\<rparr>)" using assms(1) by (simp add: limiter_inv_def)
  show "entry (l\<lparr>cells := (cells l)[a := c]\<rparr>) i = Some c"
    using assms(2) low [OF assms] by (simp add: entry_def)
  show "entry (l\<lparr>cells := (cells l)[a := c]\<rparr>) j = entry l j" if "j \<noteq> i"
  proof (cases "keys l j")
    case (Some b)
    then have "a \<noteq> b" using own_cell [OF assms, of j] that by auto
    then show ?thesis using Some by (simp add: entry_def)
  qed (simp add: entry_def)
qed

text \<open>What an uninterrupted call does.\<close>

lemma allow_spec:
  assumes "limiter_inv l" "spend t1 (global l) = (ok, g)"
  shows "limiter_inv (snd (allow spend fresh (t1, t2, t3) i l)) \<and>
    global (snd (allow spend fresh (t1, t2, t3) i l)) = g \<and>
    (if ok then
       fst (allow spend fresh (t1, t2, t3) i l) = fst (spend t3 (fst (cell_of fresh l i))) \<and>
       entry (snd (allow spend fresh (t1, t2, t3) i l)) i = Some (snd (spend t3 (fst (cell_of fresh l i))), t2) \<and>
       (\<forall>j. j \<noteq> i \<longrightarrow> entry (snd (allow spend fresh (t1, t2, t3) i l)) j = entry l j)
     else \<not> fst (allow spend fresh (t1, t2, t3) i l) \<and>
       entry (snd (allow spend fresh (t1, t2, t3) i l)) = entry l)"
proof (cases ok)
  case False
  then show ?thesis using assms by (simp add: allow_def spend_global_def limiter_inv_def entry_def fun_eq_iff)
next
  case True
  let ?l = "l\<lparr>global := g\<rparr>"
  obtain a l2 where load: "load_or_store fresh i ?l = (a, l2)" by (cases "load_or_store fresh i ?l")
  have inv: "limiter_inv ?l" using assms(1) by (simp add: limiter_inv_def)
  have same: "entry ?l j = entry l j" "cell_of fresh ?l j = cell_of fresh l j" for j
    by (simp_all add: entry_def cell_of_def)
  note s = load_spec [OF inv load]
  obtain r b where sp: "spend t3 (fst (cell_of fresh l i)) = (r, b)" by (cases "spend t3 (fst (cell_of fresh l i))")
  have "a < length (cells l2)" using low [OF s(1,2)] .
  then have "allow spend fresh (t1, t2, t3) i l = (r, l2\<lparr>cells := (cells l2)[a := (b, t2)]\<rparr>)"
    using assms(2) True load sp s(3)
    by (simp add: allow_def spend_global_def spend_keyed_def mark_def same)
  then show ?thesis using write_cell [OF s(1,2)] s(4,5) True sp same by simp
qed

lemma sweep_entry:
  "entry (sweep now l) i =
     (case entry l i of
        None \<Rightarrow> None
      | Some e \<Rightarrow> if 0 < ttl l \<and> snd e < now - ttl l then None else Some e)"
  by (cases "keys l i") (auto simp: sweep_def entry_def)

subsection \<open>Properties\<close>

text \<open>The limiter keeps identities apart.  An uninterrupted call is admitted exactly when the global
bucket and the identity's own have a token; it spends the global token first and touches no
identity's bucket when that fails; it never changes the bucket of another identity; and
\<^verbatim>\<open>Sweep\<close> forgets exactly the identities idle for longer than the TTL.\<close>

theorem limiter_isolated:
  assumes "limiter_inv l"
  shows "fst (allow spend fresh (t1, t2, t3) i l) =
      (fst (spend t1 (global l)) \<and> fst (spend t3 (fst (cell_of fresh l i)))) \<and>
    global (snd (allow spend fresh (t1, t2, t3) i l)) = snd (spend t1 (global l)) \<and>
    (\<forall>j. entry (snd (allow spend fresh (t1, t2, t3) i l)) j =
       (if j = i \<and> fst (spend t1 (global l)) then Some (snd (spend t3 (fst (cell_of fresh l i))), t2) else entry l j)) \<and>
    (\<forall>j. entry (sweep now l) j =
       (case entry l j of None \<Rightarrow> None | Some e \<Rightarrow> if 0 < ttl l \<and> snd e < now - ttl l then None else Some e)) \<and>
    limiter_inv (snd (allow spend fresh (t1, t2, t3) i l)) \<and> limiter_inv (sweep now l)"
proof -
  obtain ok g where g: "spend t1 (global l) = (ok, g)" by (cases "spend t1 (global l)")
  from allow_spec [where spend = spend, OF assms g, of fresh t2 t3 i] sweep_inv [OF assms, of now] sweep_entry [of now l] g
  show ?thesis by (cases ok) simp_all
qed

text \<open>A bucket of one token for good.\<close>

definition one_token :: "instant \<Rightarrow> nat \<Rightarrow> bool \<times> nat" where
  "one_token t n = (0 < n, n - 1)"

theorem limiter_isolated_witness:
  "let l = snd (allow one_token 1 (5, 5, 5) ''a'' (new_limiter 9 3))
   in fst (allow one_token 1 (5, 5, 5) ''b'' l) \<and> \<not> fst (allow one_token 1 (5, 5, 5) ''a'' l)"
proof -
  let ?l0 = "new_limiter 9 3 :: nat limiter"
  note first = limiter_isolated [OF new_limiter_inv, of one_token 1 5 5 5 "''a''" 9 3]
  let ?l = "snd (allow one_token 1 (5, 5, 5) ''a'' ?l0)"
  have e: "entry ?l ''a'' = Some (0, 5)" "entry ?l ''b'' = None" "global ?l = 8" "limiter_inv ?l"
    using first by (simp_all add: one_token_def cell_of_def entry_def new_limiter_def)
  have "fst (allow one_token 1 (5, 5, 5) ''b'' ?l)"
    unfolding conjunct1 [OF limiter_isolated [OF e(4), of one_token 1 5 5 5 "''b''"]]
    by (simp add: e one_token_def cell_of_def del: One_nat_def)
  moreover have "\<not> fst (allow one_token 1 (5, 5, 5) ''a'' ?l)"
    unfolding conjunct1 [OF limiter_isolated [OF e(4), of one_token 1 5 5 5 "''a''"]]
    by (simp add: e one_token_def cell_of_def del: One_nat_def)
  ultimately show ?thesis by (simp only: Let_def simp_thms)
qed

text \<open>A sweep between \<^verbatim>\<open>LoadOrStore\<close> and \<^verbatim>\<open>mark\<close> takes the new entry for one idle since instant 0 and evicts it:
  the call goes on with a bucket no later call will see, and the identity gets its burst twice.\<close>

lemma sweep_race:
  "let (a, l1) = load_or_store 1 ''a'' (new_limiter 9 3);
       l2 = sweep 5 l1;
       (ok, l3) = spend_keyed one_token a 5 (mark a 5 l2)
   in ok \<and> fst (allow one_token 1 (5, 5, 5) ''a'' l3)"
  by (simp add: load_or_store_def new_limiter_def sweep_def mark_def spend_keyed_def one_token_def allow_def
      spend_global_def Let_def)

end
