(* ===== verification/Limiter_Rate.thy ===== *)
theory Limiter_Rate
  imports Limiter
begin

text \<open>
  What the two-layer limiter of \<^verbatim>\<open>21-security/examples/secure/secure.go\<close> is for: sequences of \<^verbatim>\<open>Allow\<close> and
  \<^verbatim>\<open>Sweep\<close> calls, and the bounds on the calls admitted, globally and per identity.  The token buckets
  stay a parameter; their documented behaviour is the hypothesis \<open>token_bucket\<close>.
\<close>

subsection \<open>Sequences of calls\<close>

datatype lop = Call "instant \<times> instant \<times> instant" string | Sweep instant

fun run ::
  "(instant \<Rightarrow> 'b \<Rightarrow> bool \<times> 'b) \<Rightarrow> 'b \<Rightarrow> lop list \<Rightarrow> 'b limiter \<Rightarrow> (string \<times> bool) list \<times> 'b limiter" where
  "run spend fresh [] l = ([], l)"
| "run spend fresh (Call ts i # ops) l =
     (case allow spend fresh ts i l of (ok, l1) \<Rightarrow> map_prod (Cons (i, ok)) id (run spend fresh ops l1))"
| "run spend fresh (Sweep now # ops) l = run spend fresh ops (sweep now l)"

abbreviation admitted :: "(string \<times> bool) list \<Rightarrow> nat" where
  "admitted rs \<equiv> length (filter snd rs)"

abbreviation admitted_of :: "string \<Rightarrow> (string \<times> bool) list \<Rightarrow> nat" where
  "admitted_of i rs \<equiv> length (filter (\<lambda>r. r = (i, True)) rs)"

text \<open>The clock does not run backwards, and a call takes at most \<open>d\<close> from its mark to its last reading.\<close>

fun paced :: "duration \<Rightarrow> instant \<Rightarrow> lop list \<Rightarrow> bool" where
  "paced d s [] \<longleftrightarrow> True"
| "paced d s (Call (t1, t2, t3) i # ops) \<longleftrightarrow> s \<le> t1 \<and> t1 \<le> t2 \<and> t2 \<le> t3 \<and> t3 \<le> t2 + d \<and> paced d t3 ops"
| "paced d s (Sweep now # ops) \<longleftrightarrow> s \<le> now \<and> paced d now ops"

fun end_time :: "instant \<Rightarrow> lop list \<Rightarrow> instant" where
  "end_time s [] = s"
| "end_time s (Call (t1, t2, t3) i # ops) = end_time t3 ops"
| "end_time s (Sweep now # ops) = end_time now ops"

subsection \<open>Token buckets\<close>

text \<open>What the limiter relies on, for the buckets \<open>B\<close> of one configuration: what is available never exceeds
  the burst and grows at most with the rate; a call is admitted only for a token, which it takes; and a
  refused call adds nothing.  Amounts are in fractions of a token, \<open>unit\<close> of them to the token.\<close>

definition token_bucket ::
  "'b set \<Rightarrow> (instant \<Rightarrow> 'b \<Rightarrow> bool \<times> 'b) \<Rightarrow> (instant \<Rightarrow> 'b \<Rightarrow> int) \<Rightarrow> int \<Rightarrow> int \<Rightarrow> int \<Rightarrow> bool" where
  "token_bucket B spend avail unit burst gain \<longleftrightarrow>
     0 < unit \<and> 0 \<le> gain \<and>
     (\<forall>b \<in> B. \<forall>t.
        0 \<le> avail t b \<and> avail t b \<le> burst \<and> (\<forall>u \<ge> t. avail u b \<le> avail t b + gain * (u - t)) \<and>
        snd (spend t b) \<in> B \<and> avail t (snd (spend t b)) \<le> avail t b - (if fst (spend t b) then unit else 0))"

lemma bucket_level:
  "token_bucket B spend avail unit burst gain \<Longrightarrow> b \<in> B \<Longrightarrow> 0 \<le> avail t b \<and> avail t b \<le> burst"
  by (simp add: token_bucket_def)

lemma bucket_later:
  "token_bucket B spend avail unit burst gain \<Longrightarrow> b \<in> B \<Longrightarrow> t \<le> u \<Longrightarrow> avail u b \<le> avail t b + gain * (u - t)"
  by (simp add: token_bucket_def)

lemma bucket_spend:
  "token_bucket B spend avail unit burst gain \<Longrightarrow> b \<in> B \<Longrightarrow> spend t b = (ok, b1) \<Longrightarrow>
   b1 \<in> B \<and> avail t b1 \<le> avail t b - (if ok then unit else 0)"
  unfolding token_bucket_def by (metis fst_conv snd_conv)

lemma bucket_params: "token_bucket B spend avail unit burst gain \<Longrightarrow> 0 < unit \<and> 0 \<le> gain"
  by (simp add: token_bucket_def)

subsection \<open>The global bucket\<close>

lemma allow_global:
  assumes "allow spend fresh (t1, t2, t3) i l = (ok, l1)"
  shows "global l1 = snd (spend t1 (global l)) \<and> (ok \<longrightarrow> fst (spend t1 (global l)))"
  using assms
  by (auto simp: allow_def spend_global_def load_or_store_def spend_keyed_def mark_def split: prod.splits bool.splits option.splits)

lemma global_run:
  assumes bucket: "token_bucket B spend avail unit burst gain"
  shows "global l \<in> B \<Longrightarrow> paced d s ops \<Longrightarrow> run spend fresh ops l = (rs, l1) \<Longrightarrow>
    unit * int (admitted rs) + avail (end_time s ops) (global l1) \<le> avail s (global l) + gain * (end_time s ops - s)"
proof (induction ops arbitrary: l s rs l1)
  case (Cons x ops)
  show ?case
  proof (cases x)
    case (Call ts i)
    obtain t1 t2 t3 where ts: "ts = (t1, t2, t3)" by (cases ts)
    obtain ok l2 where a: "allow spend fresh (t1, t2, t3) i l = (ok, l2)" by (cases "allow spend fresh (t1, t2, t3) i l")
    obtain rs2 where r: "run spend fresh ops l2 = (rs2, l1)" "rs = (i, ok) # rs2"
      using Cons.prems(3) a by (cases "run spend fresh ops l2") (auto simp: Call ts)
    note g = allow_global [OF a]
    obtain ok1 where sp: "spend t1 (global l) = (ok1, global l2)" using g by (cases "spend t1 (global l)") auto
    note b = bucket_spend [OF bucket Cons.prems(1) sp]
    have t: "s \<le> t1" "t1 \<le> t3" "paced d t3 ops" using Cons.prems(2) by (auto simp: Call ts)
    have "unit * int (admitted rs2) + avail (end_time t3 ops) (global l1) \<le>
        avail t3 (global l2) + gain * (end_time t3 ops - t3)"
      using Cons.IH [OF _ t(3) r(1)] b by blast
    moreover have "avail t3 (global l2) \<le> avail t1 (global l2) + gain * (t3 - t1)"
      using bucket_later [OF bucket _ t(2)] b by blast
    moreover have "avail t1 (global l) \<le> avail s (global l) + gain * (t1 - s)"
      using bucket_later [OF bucket Cons.prems(1) t(1)] .
    moreover have "(if ok then unit else 0) \<le> (if ok1 then unit else 0)"
      using g sp bucket_params [OF bucket] by (cases ok) auto
    ultimately show ?thesis using b by (cases ok) (auto simp: r(2) Call ts algebra_simps)
  next
    case (Sweep now)
    have r: "run spend fresh ops (sweep now l) = (rs, l1)" "global (sweep now l) = global l" "s \<le> now" "paced d now ops"
      using Cons.prems by (auto simp: Sweep sweep_def)
    have "unit * int (admitted rs) + avail (end_time now ops) (global l1) \<le> avail now (global l) + gain * (end_time now ops - now)"
      using Cons.IH [OF _ r(4,1)] Cons.prems(1) r(2) by simp
    then show ?thesis using bucket_later [OF bucket Cons.prems(1) r(3)] by (simp add: Sweep algebra_simps)
  qed
qed simp

subsection \<open>The bucket of an identity\<close>

text \<open>An ideal bucket that no sweep forgets: it held \<open>v\<close> at \<open>u\<close>, and the bucket of the identity never holds
  more; once a sweep may forget the identity it is full again.\<close>

definition shadowed ::
  "'b set \<Rightarrow> (instant \<Rightarrow> 'b \<Rightarrow> int) \<Rightarrow> int \<Rightarrow> int \<Rightarrow> string \<Rightarrow> int \<Rightarrow> instant \<Rightarrow> 'b limiter \<Rightarrow> bool" where
  "shadowed B avail burst gain i v u l \<longleftrightarrow>
     limiter_inv l \<and> 0 \<le> v \<and> v \<le> burst \<and>
     (case entry l i of None \<Rightarrow> v = burst | Some (b, seen) \<Rightarrow> b \<in> B \<and> avail u b \<le> v \<and>
        (0 < ttl l \<longrightarrow> (\<forall>t \<ge> u. seen + ttl l < t \<longrightarrow> burst \<le> v + gain * (t - u))))"

lemma ttl_allow: "ttl (snd (allow spend fresh ts i l)) = ttl l"
  by (auto simp: allow_def spend_global_def load_or_store_def spend_keyed_def mark_def split: prod.splits bool.splits option.splits)

lemma ttl_sweep: "ttl (sweep now l) = ttl l"
  by (simp add: sweep_def)

lemma shadow_same:
  "shadowed B avail burst gain i v u l \<Longrightarrow> limiter_inv l1 \<Longrightarrow> entry l1 i = entry l i \<Longrightarrow> ttl l1 = ttl l \<Longrightarrow>
   shadowed B avail burst gain i v u l1"
  by (auto simp: shadowed_def split: option.splits)

lemma shadow_call:
  assumes bucket: "token_bucket B spend avail unit burst gain" and fresh: "fresh \<in> B"
    and sh: "shadowed B avail burst gain i v u l" and t: "u \<le> t3" "t3 \<le> t2 + d"
    and long: "ttl l \<le> 0 \<or> burst \<le> gain * (ttl l - d)"
    and a: "allow spend fresh (t1, t2, t3) k l = (ok, l1)"
  shows "\<exists>v1 u1. u1 \<le> t3 \<and> shadowed B avail burst gain i v1 u1 l1 \<and>
    unit * int (admitted_of i [(k, ok)]) \<le> v + gain * (u1 - u) - v1"
proof -
  have inv: "limiter_inv l" using sh by (simp add: shadowed_def)
  have ttl1: "ttl l1 = ttl l" using ttl_allow [of spend fresh "(t1, t2, t3)" k l] a by simp
  obtain ok1 g where g: "spend t1 (global l) = (ok1, g)" by fastforce
  note spec = allow_spec [where spend = spend, OF inv g, of fresh t2 t3 k, unfolded a fst_conv snd_conv]
  show ?thesis
  proof (cases "ok1 \<and> k = i")
    case False
    then have "entry l1 i = entry l i" "\<not> (ok \<and> k = i)" using spec by (cases ok1; auto)+
    then show ?thesis using shadow_same [OF sh _ _ ttl1] spec t
      by - (rule exI [of _ v], rule exI [of _ u], auto)
  next
    case True
    let ?b = "fst (cell_of fresh l i)"
    obtain b1 where sp: "spend t3 ?b = (ok, b1)" and e: "entry l1 i = Some (b1, t2)"
      using spec True by (cases "spend t3 ?b") auto
    have b: "?b \<in> B \<and> avail t3 ?b \<le> v + gain * (t3 - u)"
    proof (cases "entry l i")
      case None
      then have "v = burst" using sh by (simp add: shadowed_def)
      moreover have "0 \<le> gain * (t3 - u)" using bucket_params [OF bucket] t(1) by simp
      ultimately show ?thesis
        using fresh bucket_level [OF bucket fresh, of t3] None by (auto simp: cell_of_def)
    next
      case (Some c)
      then have c: "fst c \<in> B" "avail u (fst c) \<le> v" using sh by (auto simp: shadowed_def split: prod.splits)
      then show ?thesis
        using bucket_later [OF bucket c(1) t(1)] Some by (auto simp: cell_of_def)
    qed
    note s = bucket_spend [OF bucket conjunct1 [OF b] sp]
    have "0 \<le> avail t3 b1" "avail t3 b1 \<le> burst" using bucket_level [OF bucket, of b1 t3] s by auto
    moreover have "burst \<le> gain * (t - t3)" if "t2 + ttl l < t" "0 < ttl l" for t
    proof -
      have "gain * (ttl l - d) \<le> gain * (t - t3)"
        using that t(2) bucket_params [OF bucket] by (intro mult_left_mono) auto
      then show ?thesis using long that(2) by auto
    qed
    ultimately have "shadowed B avail burst gain i (avail t3 b1) t3 l1"
      using spec s e by (fastforce simp: shadowed_def ttl1)
    moreover have "unit * int (admitted_of i [(k, ok)]) \<le> v + gain * (t3 - u) - avail t3 b1"
      using s b True by (cases ok) auto
    ultimately show ?thesis by blast
  qed
qed

lemma shadow_sweep:
  assumes bucket: "token_bucket B spend avail unit burst gain"
    and sh: "shadowed B avail burst gain i v u l" and t: "u \<le> now"
  shows "\<exists>v1 u1. u1 \<le> now \<and> shadowed B avail burst gain i v1 u1 (sweep now l) \<and> 0 \<le> v + gain * (u1 - u) - v1"
proof (cases "entry (sweep now l) i = entry l i")
  case True
  then have "shadowed B avail burst gain i v u (sweep now l)"
    using shadow_same [OF sh sweep_inv True ttl_sweep] sh by (simp add: shadowed_def)
  then show ?thesis using t by - (rule exI [of _ v], rule exI [of _ u], auto)
next
  case False
  then obtain b seen where e: "entry l i = Some (b, seen)" "entry (sweep now l) i = None" "seen < now - ttl l" "0 < ttl l"
    by (auto simp: sweep_entry split: option.splits if_splits)
  then have "\<forall>t \<ge> u. seen + ttl l < t \<longrightarrow> burst \<le> v + gain * (t - u)" using sh by (simp add: shadowed_def)
  then have "burst \<le> v + gain * (now - u)" using e(3) t by simp
  moreover have "shadowed B avail burst gain i burst now (sweep now l)"
    using sh e(2) sweep_inv [of l now] by (auto simp: shadowed_def)
  ultimately show ?thesis by - (rule exI [of _ burst], rule exI [of _ now], auto)
qed

lemma shadow_run:
  assumes bucket: "token_bucket B spend avail unit burst gain" and fresh: "fresh \<in> B"
  shows "shadowed B avail burst gain i v u l \<Longrightarrow> u \<le> s \<Longrightarrow> paced d s ops \<Longrightarrow> ttl l \<le> 0 \<or> burst \<le> gain * (ttl l - d) \<Longrightarrow>
    run spend fresh ops l = (rs, l1) \<Longrightarrow>
    \<exists>v1 u1. u1 \<le> end_time s ops \<and> shadowed B avail burst gain i v1 u1 l1 \<and>
      unit * int (admitted_of i rs) \<le> v + gain * (u1 - u) - v1"
proof (induction ops arbitrary: l s rs v u)
  case Nil
  then show ?case by - (rule exI [of _ v], rule exI [of _ u], auto)
next
  case (Cons x ops)
  show ?case
  proof (cases x)
    case (Call ts k)
    obtain t1 t2 t3 where ts: "ts = (t1, t2, t3)" by (cases ts)
    obtain ok l2 where a: "allow spend fresh (t1, t2, t3) k l = (ok, l2)" by (cases "allow spend fresh (t1, t2, t3) k l")
    obtain rs2 where r: "run spend fresh ops l2 = (rs2, l1)" "rs = (k, ok) # rs2"
      using Cons.prems(5) a by (cases "run spend fresh ops l2") (auto simp: Call ts)
    have t: "u \<le> t3" "t3 \<le> t2 + d" "paced d t3 ops" using Cons.prems(2,3) by (auto simp: Call ts)
    from shadow_call [OF bucket fresh Cons.prems(1) t(1,2) Cons.prems(4) a] obtain v1 u1 where
      1: "u1 \<le> t3" "shadowed B avail burst gain i v1 u1 l2" "unit * int (admitted_of i [(k, ok)]) \<le> v + gain * (u1 - u) - v1"
      by blast
    have "ttl l2 = ttl l" using ttl_allow [of spend fresh "(t1, t2, t3)" k l] a by simp
    then obtain v2 u2 where 2: "u2 \<le> end_time t3 ops" "shadowed B avail burst gain i v2 u2 l1"
      "unit * int (admitted_of i rs2) \<le> v1 + gain * (u2 - u1) - v2"
      using Cons.IH [OF 1(2,1) t(3) _ r(1)] Cons.prems(4) by auto
    have "int (admitted_of i rs) = int (admitted_of i [(k, ok)]) + int (admitted_of i rs2)" by (simp add: r(2))
    then have "unit * int (admitted_of i rs) = unit * int (admitted_of i [(k, ok)]) + unit * int (admitted_of i rs2)"
      by (metis distrib_left)
    then have "unit * int (admitted_of i rs) \<le> v + gain * (u2 - u) - v2"
      using 1(3) 2(3) by (simp add: algebra_simps)
    then show ?thesis using 2(1,2) by (auto simp: Call ts)
  next
    case (Sweep now)
    have r: "run spend fresh ops (sweep now l) = (rs, l1)" "u \<le> now" "paced d now ops"
      using Cons.prems by (auto simp: Sweep)
    from shadow_sweep [OF bucket Cons.prems(1) r(2)]
    obtain v1 u1 where 1: "u1 \<le> now" "shadowed B avail burst gain i v1 u1 (sweep now l)" "0 \<le> v + gain * (u1 - u) - v1"
      by blast
    then obtain v2 u2 where 2: "u2 \<le> end_time now ops" "shadowed B avail burst gain i v2 u2 l1"
      "unit * int (admitted_of i rs) \<le> v1 + gain * (u2 - u1) - v2"
      using Cons.IH [OF 1(2,1) r(3) _ r(1)] Cons.prems(4) by (auto simp: ttl_sweep)
    have "unit * int (admitted_of i rs) \<le> v + gain * (u2 - u) - v2" using 1(3) 2(3) by (simp add: algebra_simps)
    then show ?thesis using 2(1,2) by (auto simp: Sweep)
  qed
qed

text \<open>The ideal bucket may be read at any later time.\<close>

lemma shadow_later:
  assumes "token_bucket B spend avail unit burst gain" "shadowed B avail burst gain i v u l" "u \<le> s"
  shows "shadowed B avail burst gain i (min burst (v + gain * (s - u))) s l"
proof -
  have g: "0 \<le> gain * (s - u)" using assms(3) bucket_params [OF assms(1)] by simp
  have "avail s b \<le> min burst (v + gain * (s - u))" if "b \<in> B" "avail u b \<le> v" for b
    using bucket_later [OF assms(1) that(1) assms(3)] bucket_level [OF assms(1) that(1), of s] that(2) by simp
  moreover have "burst \<le> min burst (v + gain * (s - u)) + gain * (t - s)"
    if "s \<le> t" "burst \<le> v + gain * (t - u)" for t
  proof -
    have "0 \<le> gain * (t - s)" using that(1) bucket_params [OF assms(1)] by simp
    then show ?thesis using that(2) by (auto simp: min_def algebra_simps)
  qed
  ultimately show ?thesis using assms(2) g assms(3)
    by (auto simp: shadowed_def min_absorb1 split: option.splits)
qed

lemma shadow_new: "0 \<le> burst \<Longrightarrow> shadowed B avail burst gain i burst u (new_limiter g t)"
  using new_limiter_inv [of g t] by (simp add: shadowed_def entry_def) (simp add: new_limiter_def)

lemma run_frame:
  "run spend fresh ops l = (rs, l1) \<Longrightarrow> ttl l1 = ttl l \<and> (token_bucket B spend avail unit burst gain \<longrightarrow> global l \<in> B \<longrightarrow> global l1 \<in> B)"
proof (induction ops arbitrary: l rs)
  case (Cons x ops)
  show ?case
  proof (cases x)
    case (Call ts i)
    obtain t1 t2 t3 where ts: "ts = (t1, t2, t3)" by (cases ts)
    obtain ok l2 where a: "allow spend fresh (t1, t2, t3) i l = (ok, l2)" by (cases "allow spend fresh (t1, t2, t3) i l")
    obtain rs2 where r: "run spend fresh ops l2 = (rs2, l1)"
      using Cons.prems a by (cases "run spend fresh ops l2") (auto simp: Call ts)
    from Cons.IH [OF r] ttl_allow [of spend fresh "(t1, t2, t3)" i l] allow_global [OF a] a show ?thesis
      by (auto simp: token_bucket_def)
  next
    case (Sweep now)
    then show ?thesis using Cons.IH [of "sweep now l" rs] Cons.prems by (simp add: sweep_def split: if_splits)
  qed
qed simp

subsection \<open>A bucket\<close>

text \<open>A bucket with the documented behaviour: it fills up at its rate to its cap.\<close>

record rate_bucket =
  tokens :: int
  filled_at :: instant
  cap :: int
  per_ns :: int

definition available :: "instant \<Rightarrow> rate_bucket \<Rightarrow> int" where
  "available t b = max 0 (min (cap b) (tokens b + per_ns b * max 0 (t - filled_at b)))"

definition spend_rate :: "int \<Rightarrow> instant \<Rightarrow> rate_bucket \<Rightarrow> bool \<times> rate_bucket" where
  "spend_rate unit t b =
     (let v = available t b
      in if unit \<le> v then (True, b\<lparr>tokens := v - unit, filled_at := t\<rparr>) else (False, b\<lparr>tokens := v, filled_at := t\<rparr>))"

lemma rate_bucket_ok:
  assumes "0 < unit" "0 \<le> gain" "0 \<le> burst"
  shows "token_bucket {b. cap b = burst \<and> per_ns b = gain} (spend_rate unit) available unit burst gain"
proof -
  have "available u b \<le> available t b + gain * (u - t)" if "per_ns b = gain" "t \<le> u" for t u b
  proof -
    have "gain * max 0 (u - filled_at b) \<le> gain * (max 0 (t - filled_at b) + (u - t))"
      using assms(2) that(2) by (intro mult_left_mono) auto
    moreover have "0 \<le> gain * (u - t)" using assms(2) that(2) by simp
    ultimately show ?thesis unfolding available_def that(1) by (simp add: distrib_left)
  qed
  moreover have "0 \<le> available t b \<and> available t b \<le> burst" if "cap b = burst" for t b
    using that assms(3) by (simp add: available_def)
  moreover have "cap (snd (spend_rate unit t b)) = cap b \<and> per_ns (snd (spend_rate unit t b)) = per_ns b \<and>
      available t (snd (spend_rate unit t b)) \<le> available t b - (if fst (spend_rate unit t b) then unit else 0)" for t b
    by (simp add: spend_rate_def Let_def) (simp add: available_def)
  ultimately show ?thesis using assms unfolding token_bucket_def by simp
qed

subsection \<open>Properties\<close>

text \<open>C38: the limiter bounds the load, as long as its calls of \<^verbatim>\<open>Allow\<close> and \<^verbatim>\<open>Sweep\<close> run one after the other.
  In any window of such a run, the calls admitted take no more than the global burst and what the global
  rate adds in the window; and those of one identity no more than its burst and what its own rate adds,
  although sweeps forget buckets: for that the TTL must be long enough to refill one, as a new bucket
  starts full.  A sweep that runs in the middle of a call breaks the bound of the identity, whatever the
  TTL (lemma \<open>sweep_race\<close> of \<^verbatim>\<open>Limiter\<close>).\<close>

theorem limiter_bounds_load:
  assumes "token_bucket Bg spend avail_g unit burst_g gain_g" "g \<in> Bg"
    and "token_bucket Bk spend avail_k unit burst_k gain_k" "fresh \<in> Bk"
    and "ttl0 \<le> 0 \<or> burst_k \<le> gain_k * (ttl0 - d)"
    and "run spend fresh before (new_limiter g ttl0) = (rs0, l)" "paced d s0 before"
    and "run spend fresh window l = (rs, l1)" "paced d s window" "end_time s0 before \<le> s"
  shows "unit * int (admitted rs) \<le> burst_g + gain_g * (end_time s window - s) \<and>
    unit * int (admitted_of i rs) \<le> burst_k + gain_k * (end_time s window - s)"
proof
  let ?e = "end_time s window"
  have frame: "ttl l = ttl0" "global l \<in> Bg"
    using run_frame [OF assms(6), of Bg avail_g unit burst_g gain_g] assms(1,2) by (simp_all add: new_limiter_def)
  have "global l1 \<in> Bg" using run_frame [OF assms(8), of Bg avail_g unit burst_g gain_g] assms(1) frame by simp
  then show "unit * int (admitted rs) \<le> burst_g + gain_g * (?e - s)"
    using global_run [OF assms(1) frame(2) assms(9,8)] bucket_level [OF assms(1) frame(2), of s]
      bucket_level [OF assms(1), of "global l1" ?e] by linarith
  have burst: "0 \<le> burst_k" using bucket_level [OF assms(3,4)] by fastforce
  obtain v u where u: "u \<le> end_time s0 before" "shadowed Bk avail_k burst_k gain_k i v u l"
    using shadow_run [OF assms(3,4) shadow_new [OF burst, where i = i] order_refl assms(7) _ assms(6)] assms(5)
    by (force simp: new_limiter_def)
  let ?v = "min burst_k (v + gain_k * (s - u))"
  have "shadowed Bk avail_k burst_k gain_k i ?v s l" using shadow_later [OF assms(3) u(2)] u(1) assms(10) by simp
  from shadow_run [OF assms(3,4) this order_refl assms(9) _ assms(8)] frame(1) assms(5)
  obtain v1 u1 where w: "u1 \<le> ?e" "shadowed Bk avail_k burst_k gain_k i v1 u1 l1"
    "unit * int (admitted_of i rs) \<le> ?v + gain_k * (u1 - s) - v1" by blast
  have "gain_k * (u1 - s) \<le> gain_k * (?e - s)" using w(1) bucket_params [OF assms(3)] by (intro mult_left_mono) auto
  then show "unit * int (admitted_of i rs) \<le> burst_k + gain_k * (?e - s)"
    using w by (auto simp: shadowed_def)
qed

text \<open>Two tokens for all and one for each identity, and ten nanoseconds to the token.\<close>

definition full_bucket :: "int \<Rightarrow> int \<Rightarrow> rate_bucket" where
  "full_bucket n r = \<lparr>tokens = n, filled_at = 0, cap = n, per_ns = r\<rparr>"

lemmas rate_eval = full_bucket_def spend_rate_def available_def allow_def spend_global_def load_or_store_def
  spend_keyed_def mark_def new_limiter_def sweep_def Let_def

lemma demo_window:
  "run (spend_rate 10) (full_bucket 10 1) [Call (5, 5, 5) ''a'', Sweep 20, Call (20, 20, 20) ''a'', Call (21, 21, 21) ''a'']
     (new_limiter (full_bucket 20 2) 14) = ([(''a'', True), (''a'', True), (''a'', False)],
       snd (run (spend_rate 10) (full_bucket 10 1) [Call (5, 5, 5) ''a'', Sweep 20, Call (20, 20, 20) ''a'', Call (21, 21, 21) ''a'']
         (new_limiter (full_bucket 20 2) 14)))"
  by (simp add: rate_eval)

theorem limiter_bounds_load_witness:
  "10 * int (admitted_of ''a'' [(''a'', True), (''a'', True), (''a'', False)]) \<le> 10 + 1 * (21 - 5)"
proof -
  have g: "token_bucket {b. cap b = 20 \<and> per_ns b = 2} (spend_rate 10) available 10 20 2" by (rule rate_bucket_ok) simp_all
  have k: "token_bucket {b. cap b = 10 \<and> per_ns b = 1} (spend_rate 10) available 10 10 1" by (rule rate_bucket_ok) simp_all
  from limiter_bounds_load [OF g _ k _ _ _ _ demo_window, where before = "[]" and d = 0 and s0 = 0 and s = 5 and i = "''a''"]
  show ?thesis by (simp add: full_bucket_def)
qed

text \<open>With a TTL too short to refill the bucket, a sweep gives the identity a second burst: twice its one
  token in three nanoseconds.\<close>

lemma short_ttl_second_burst:
  "fst (run (spend_rate 10) (full_bucket 10 1) [Call (5, 5, 5) ''a'', Sweep 7, Call (7, 7, 7) ''a'']
     (new_limiter (full_bucket 20 2) 1)) = [(''a'', True), (''a'', True)]"
  by (simp add: rate_eval)

end
