(* ===== verification/Bank.thy ===== *)
theory Bank
  imports Text
begin

text \<open>
  The payments store of \<^verbatim>\<open>13-databases/examples/bank\<close>: the records of \<^verbatim>\<open>bank.go\<close> and \<^verbatim>\<open>FakeStore\<close>
  of \<^verbatim>\<open>fake.go\<close>, whose mutex makes every method a single step.  Balances and amounts are \<^verbatim>\<open>int64\<close>.
\<close>

subsection \<open>The store\<close>

record payment =
  payment_id :: string
  payer :: string
  amount :: int64
  currency :: string
  status :: string

record account =
  owner :: string
  balance :: int64
  acct_currency :: string

datatype bank_error = Insufficient_funds | Not_found string

record fake_store =
  seq :: int64
  accounts :: "string \<rightharpoonup> account"
  payments :: "payment list"

definition new_fake_store :: "(string \<rightharpoonup> int64) \<Rightarrow> string \<Rightarrow> fake_store" where
  "new_fake_store balances cur =
     \<lparr>seq = 0,
      accounts = (\<lambda>i. map_option (\<lambda>b. \<lparr>owner = i, balance = b, acct_currency = cur\<rparr>) (balances i)),
      payments = []\<rparr>"

definition charge :: "payment \<Rightarrow> fake_store \<Rightarrow> (bank_error + payment) \<times> fake_store" where
  "charge p f =
     (case accounts f (payer p) of
        None \<Rightarrow> (Inl (Not_found (payer p)), f)
      | Some acct \<Rightarrow>
          if sint (balance acct) < sint (amount p) then (Inl Insufficient_funds, f)
          else let n = seq f + 1;
                   p1 = p\<lparr>payment_id := pay_name n, status := ''charged''\<rparr>
               in (Inr p1,
                   f\<lparr>seq := n,
                     accounts := (accounts f)(payer p \<mapsto> acct\<lparr>balance := balance acct - amount p\<rparr>),
                     payments := payments f @ [p1]\<rparr>))"

fun newest :: "string \<Rightarrow> int64 \<Rightarrow> payment list \<Rightarrow> payment list \<Rightarrow> payment list" where
  "newest cid limit [] out = out"
| "newest cid limit (p # ps) out =
     (if int (length out) < sint limit
      then newest cid limit ps (if payer p = cid then out @ [p] else out) else out)"

definition by_customer :: "string \<Rightarrow> int64 \<Rightarrow> fake_store \<Rightarrow> payment list" where
  "by_customer cid limit f = newest cid limit (rev (payments f)) []"

definition account_of :: "string \<Rightarrow> fake_store \<Rightarrow> bank_error + account" where
  "account_of cid f = (case accounts f cid of None \<Rightarrow> Inl (Not_found cid) | Some a \<Rightarrow> Inr a)"

definition all_payments :: "fake_store \<Rightarrow> payment list" where
  "all_payments f = payments f"

text \<open>Attempted charges, in the order the mutex admits them.\<close>

fun charge_all :: "payment list \<Rightarrow> fake_store \<Rightarrow> fake_store" where
  "charge_all [] f = f"
| "charge_all (p # ps) f = charge_all ps (snd (charge p f))"

subsection \<open>Lemmas\<close>

definition paid :: "string \<Rightarrow> payment list \<Rightarrow> int" where
  "paid c ps = (\<Sum>p \<leftarrow> filter (\<lambda>p. payer p = c) ps. sint (amount p))"

lemma paid_simps [simp]: "paid c [] = 0"
  "paid c (ps @ [p]) = paid c ps + (if payer p = c then sint (amount p) else 0)"
  by (simp_all add: paid_def)

text \<open>Every account holds what it started with less what was charged, and nothing is negative.\<close>

definition bank_inv :: "(string \<rightharpoonup> int64) \<Rightarrow> fake_store \<Rightarrow> bool" where
  [inv_defs]: "bank_inv balances f \<longleftrightarrow>
     (\<forall>c. (accounts f c = None \<longleftrightarrow> balances c = None) \<and>
        (\<forall>a b. accounts f c = Some a \<and> balances c = Some b \<longrightarrow>
           0 \<le> sint (balance a) \<and> sint (balance a) + paid c (payments f) = sint b))"

lemma charge_inv:
  assumes "bank_inv balances f" "0 \<le> sint (amount p)"
  shows "bank_inv balances (snd (charge p f))"
proof (cases "accounts f (payer p)")
  case None
  then show ?thesis using assms by (simp add: charge_def)
next
  case (Some a)
  show ?thesis
  proof (cases "sint (balance a) < sint (amount p)")
    case True
    then show ?thesis using assms Some by (simp add: charge_def)
  next
    case False
    then have "sint (balance a - amount p) = sint (balance a) - sint (amount p)"
      using assms(2) sint64_bounds [of "balance a"] by (subst sint64_sub) simp_all
    moreover obtain b where "balances (payer p) = Some b"
      using assms(1) Some unfolding bank_inv_def by (metis option.distinct(1) option.exhaust)
    ultimately show ?thesis
      using assms Some False by (auto simp: charge_def Let_def bank_inv_def split: if_splits)
  qed
qed

lemma charge_all_inv:
  "bank_inv balances f \<Longrightarrow> \<forall>p \<in> set ps. 0 \<le> sint (amount p) \<Longrightarrow> bank_inv balances (charge_all ps f)"
  by (induction ps arbitrary: f) (auto intro: charge_inv)

lemma newest_take:
  "int (length out) \<le> max 0 (sint limit) \<Longrightarrow>
   newest c limit ps out = out @ take (nat (sint limit) - length out) (filter (\<lambda>p. payer p = c) ps)"
  by (induction ps arbitrary: out)
    (auto simp: Suc_diff_Suc take_Suc_conv_app_nth split: nat_diff_split)

text \<open>A negative amount is not refused: it credits the account, and can wrap the balance below zero.\<close>

lemma negative_charge:
  "let f = new_fake_store [''c'' \<mapsto> 1] ''USD'';
       p = \<lparr>payment_id = [], payer = ''c'', amount = of_int (- (2 ^ 63)), currency = ''USD'', status = []\<rparr>
   in case charge p f of (Inl e, f') \<Rightarrow> False
      | (Inr q, f') \<Rightarrow> (case account_of ''c'' f' of Inl e \<Rightarrow> False | Inr a \<Rightarrow> sint (balance a) < 0)"
  by code_simp

subsection \<open>Properties\<close>

text \<open>Overdrafts are impossible: after any sequence of charges with amounts that are not negative, over
  accounts seeded without debt, no balance is negative, every account holds exactly its seed less the
  payments recorded for it, a refused charge has changed nothing, and a customer's list is the newest of
  those payments up to the limit.\<close>

theorem no_overdraft:
  assumes "\<forall>p \<in> set ps. 0 \<le> sint (amount p)" "\<forall>c b. balances c = Some b \<longrightarrow> 0 \<le> sint b"
    and "f = charge_all ps (new_fake_store balances cur)"
  shows "(\<forall>c b. balances c = Some b \<longrightarrow> (\<exists>a. account_of c f = Inr a \<and> 0 \<le> sint (balance a) \<and>
       sint (balance a) = sint b - paid c (all_payments f))) \<and>
    (\<forall>p e f'. charge p f = (Inl e, f') \<longrightarrow> f' = f) \<and>
    (\<forall>c limit. by_customer c limit f = take (nat (sint limit)) (filter (\<lambda>p. payer p = c) (rev (all_payments f))))"
proof (intro conjI allI impI)
  have "bank_inv balances (new_fake_store balances cur)"
    using assms(2) by (auto simp: bank_inv_def new_fake_store_def)
  then have inv: "bank_inv balances f" unfolding assms(3) using assms(1) by (rule charge_all_inv)
  fix c b assume "balances c = Some b"
  with inv obtain a where "accounts f c = Some a" "0 \<le> sint (balance a)"
    "sint (balance a) + paid c (payments f) = sint b" by (fastforce simp: bank_inv_def)
  then show "\<exists>a. account_of c f = Inr a \<and> 0 \<le> sint (balance a) \<and> sint (balance a) = sint b - paid c (all_payments f)"
    by (auto simp: account_of_def all_payments_def)
next
  fix p e f' assume "charge p f = (Inl e, f')"
  then show "f' = f" by (auto simp: charge_def Let_def split: option.splits if_splits)
next
  fix c limit
  show "by_customer c limit f = take (nat (sint limit)) (filter (\<lambda>p. payer p = c) (rev (all_payments f)))"
    using newest_take [of "[]" limit c "rev (payments f)"] by (simp add: by_customer_def all_payments_def)
qed

theorem no_overdraft_witness:
  "\<exists>a. account_of ''c'' (charge_all [\<lparr>payment_id = [], payer = ''c'', amount = 30, currency = ''USD'', status = []\<rparr>,
     \<lparr>payment_id = [], payer = ''c'', amount = 80, currency = ''USD'', status = []\<rparr>] (new_fake_store [''c'' \<mapsto> 100] ''USD'')) = Inr a \<and>
   0 \<le> sint (balance a)"
proof -
  let ?ps = "[\<lparr>payment_id = [], payer = ''c'', amount = 30, currency = ''USD'', status = []\<rparr>,
     \<lparr>payment_id = [], payer = ''c'', amount = 80, currency = ''USD'', status = []\<rparr>] :: payment list"
  have "\<forall>p \<in> set ?ps. 0 \<le> sint (amount p)" by simp
  moreover have "\<forall>c b. [''c'' \<mapsto> 100 :: int64] c = Some b \<longrightarrow> 0 \<le> sint b" by simp
  ultimately have "\<forall>c b. [''c'' \<mapsto> 100 :: int64] c = Some b \<longrightarrow>
      (\<exists>a. account_of c (charge_all ?ps (new_fake_store [''c'' \<mapsto> 100] ''USD'')) = Inr a \<and> 0 \<le> sint (balance a) \<and>
        sint (balance a) = sint b - paid c (all_payments (charge_all ?ps (new_fake_store [''c'' \<mapsto> 100] ''USD''))))"
    by (rule conjunct1 [OF no_overdraft [OF _ _ refl]])
  from this [rule_format, of "''c''" 100] show ?thesis by auto
qed

end
