(* ===== verification/Calc.thy ===== *)
theory Calc
  imports Text
begin

text \<open>
  The calculator of \<^verbatim>\<open>10-testing/examples/calculator\<close>: \<^verbatim>\<open>Eval\<close> of \<^verbatim>\<open>calc.go\<close> with the parts of
  \<^verbatim>\<open>strings\<close> and \<^verbatim>\<open>strconv\<close> it uses, and the handler of \<^verbatim>\<open>api.go\<close>, whose request decoding is a
  parameter.  Positions in syntax errors are byte offsets.
\<close>

subsection \<open>Evaluation\<close>

datatype calc_error = Div_zero | Syntax nat string

fun calc_error_text :: "calc_error \<Rightarrow> string" where
  "calc_error_text Div_zero = ''divide by zero''"
| "calc_error_text (Syntax p w) = ''syntax error at '' @ nat_text p @ '': '' @ w"

definition calc_add :: "int64 \<Rightarrow> int64 \<Rightarrow> int64" where
  "calc_add a b = a + b"

definition calc_divide :: "int64 \<Rightarrow> int64 \<Rightarrow> calc_error + int64" where
  "calc_divide a b = (if b = 0 then Inl Div_zero else Inr (word_of_int (go_div (sint a) (sint b))))"

text \<open>\<^verbatim>\<open>strconv.Atoi\<close>: an optional sign, then digits only, within \<^verbatim>\<open>int\<close>.\<close>

definition atoi :: "string \<Rightarrow> int64 option" where
  "atoi s =
     (let neg = (s \<noteq> [] \<and> hd s = CHR ''-'');
          d = (if s \<noteq> [] \<and> (hd s = CHR ''-'' \<or> hd s = CHR ''+'') then tl s else s);
          i = (if neg then - int (digits_value d) else int (digits_value d))
      in if d = [] \<or> \<not> list_all is_digit d \<or> i < int64_min \<or> i > int64_max then None
         else Some (word_of_int i))"

definition is_op :: "char \<Rightarrow> bool" where
  "is_op c \<longleftrightarrow> c = CHR ''+'' \<or> c = CHR ''-'' \<or> c = CHR ''*'' \<or> c = CHR ''/''"

definition eval_expr :: "string \<Rightarrow> calc_error + int64" where
  "eval_expr s =
     (let e = trim_space s
      in if e = [] then Inl (Syntax 0 ''empty expression'')
         else if \<not> list_ex is_op (tl e) then Inl (Syntax 0 ''missing operator'')
         else let i = length (takeWhile (\<lambda>c. \<not> is_op c) (tl e)) + 1
              in case atoi (trim_space (take i e)) of
                   None \<Rightarrow> Inl (Syntax 0 ''bad left operand'')
                 | Some left \<Rightarrow>
                     (case atoi (trim_space (drop (i + 1) e)) of
                        None \<Rightarrow> Inl (Syntax (i + 1) ''bad right operand'')
                      | Some right \<Rightarrow>
                          if e ! i = CHR ''+'' then Inr (calc_add left right)
                          else if e ! i = CHR ''-'' then Inr (left - right)
                          else if e ! i = CHR ''*'' then Inr (left * right)
                          else if e ! i = CHR ''/'' then calc_divide left right
                          else Inl (Syntax i ''unknown operator'')))"

subsection \<open>The handler\<close>

record eval_response =
  result :: int64
  error_text :: string

text \<open>\<^verbatim>\<open>omitempty\<close>: a zero result and an empty error are left out of the object.\<close>

definition response_fields :: "eval_response \<Rightarrow> (string \<times> string) list" where
  "response_fields r =
     (if result r \<noteq> 0 then [(''result'', int_text (sint (result r)))] else []) @
     (if error_text r \<noteq> [] then [(''error'', error_text r)] else [])"

definition handle_eval :: "(string \<Rightarrow> string option) \<Rightarrow> string \<Rightarrow> int \<times> eval_response" where
  "handle_eval decode body =
     (case decode body of
        None \<Rightarrow> (400, \<lparr>result = 0, error_text = ''malformed JSON''\<rparr>)
      | Some e \<Rightarrow>
          (case eval_expr e of
             Inl (Syntax p w) \<Rightarrow> (400, \<lparr>result = 0, error_text = calc_error_text (Syntax p w)\<rparr>)
           | Inl Div_zero \<Rightarrow> (400, \<lparr>result = 0, error_text = ''division by zero''\<rparr>)
           | Inr v \<Rightarrow> (200, \<lparr>result = v, error_text = []\<rparr>)))"

subsection \<open>Lemmas\<close>

lemma digit_solid: "is_digit c \<Longrightarrow> solid c" "is_digit c \<Longrightarrow> \<not> is_op c"
  by (auto simp: is_digit_def solid_def is_op_def)

lemma int_text_ends: "int_text i \<noteq> [] \<and> solid (hd (int_text i)) \<and> solid (last (int_text i))"
proof -
  have "solid (hd (nat_text n))" "solid (last (nat_text n))" for n
    using nat_text_digits [of n] digit_solid(1) by simp_all
  then show ?thesis by (auto simp: int_text_def solid_def)
qed

lemma int_text_tail: "\<forall>c \<in> set (tl (int_text i)). \<not> is_op c"
proof -
  have "\<forall>c \<in> set (nat_text n). \<not> is_op c" for n using nat_text_digits [of n] digit_solid(2) by blast
  then show ?thesis by (auto simp: int_text_def dest: list.set_sel(2) [rotated])
qed

lemma atoi_int_text: "atoi (int_text (sint a)) = Some a"
proof -
  have nd: "hd (nat_text n) \<noteq> CHR ''-'' \<and> hd (nat_text n) \<noteq> CHR ''+''" for n
  proof -
    have "is_digit (hd (nat_text n))" using nat_text_digits [of n] by simp
    then show ?thesis by (auto simp: is_digit_def)
  qed
  show ?thesis
    using sint64_bounds [of a] nd nat_text_digits
    by (auto simp: atoi_def int_text_def Let_def list_all_iff)
qed

lemma blanks_no_op: "\<forall>c \<in> set (blanks n). \<not> is_op c"
  by (simp add: blanks_def is_op_def)

definition apply_op :: "char \<Rightarrow> int64 \<Rightarrow> int64 \<Rightarrow> calc_error + int64" where
  "apply_op c a b =
     (if c = CHR ''+'' then Inr (calc_add a b)
      else if c = CHR ''-'' then Inr (a - b)
      else if c = CHR ''*'' then Inr (a * b)
      else calc_divide a b)"

lemma eval_split:
  assumes trimmed: "trim_space s = x # u @ c # v"
    and op: "is_op c" and none: "\<forall>d \<in> set u. \<not> is_op d"
  shows "eval_expr s =
     (case atoi (trim_space (x # u)) of
        None \<Rightarrow> Inl (Syntax 0 ''bad left operand'')
      | Some a \<Rightarrow>
          (case atoi (trim_space v) of
             None \<Rightarrow> Inl (Syntax (length u + 2) ''bad right operand'')
           | Some b \<Rightarrow> apply_op c a b))"
proof -
  have "takeWhile (\<lambda>c. \<not> is_op c) (u @ c # v) = u"
    using none op by (subst takeWhile_append2) simp_all
  moreover have "list_ex is_op (u @ c # v)" using op by simp
  moreover have "(x # u @ c # v) ! Suc (length u) = c" by simp
  moreover have "take (Suc (length u)) (x # u @ c # v) = x # u"
    "drop (length u + 2) (x # u @ c # v) = v" by simp_all
  moreover have "c = CHR ''+'' \<or> c = CHR ''-'' \<or> c = CHR ''*'' \<or> c = CHR ''/''"
    using op by (simp only: is_op_def)
  ultimately show ?thesis
    unfolding eval_expr_def trimmed Let_def apply_op_def
    by (elim disjE) (simp_all split: option.split)
qed

text \<open>What \<^verbatim>\<open>Eval\<close> computes.  The decimal text of any two \<^verbatim>\<open>int\<close>s (signs included) around one of
the four operators, with any number of blanks before, between and after, evaluates to the sum,
difference or product wrapped to 64 bits, or to what \<^verbatim>\<open>Divide\<close> returns: the error for a zero
divisor, else the quotient truncated towards zero.  The sign of an operand is never mistaken for the operator.\<close>

theorem eval_of_texts:
  assumes "is_op c"
  shows "eval_expr (blanks i @ int_text (sint a) @ blanks j @ [c] @ blanks k @ int_text (sint b) @ blanks l) =
     (if c = CHR ''+'' then Inr (a + b)
      else if c = CHR ''-'' then Inr (a - b)
      else if c = CHR ''*'' then Inr (a * b)
      else if b = 0 then Inl Div_zero
      else Inr (word_of_int (go_div (sint a) (sint b))))"
proof -
  let ?A = "int_text (sint a)" and ?B = "int_text (sint b)"
  let ?e = "?A @ blanks j @ [c] @ blanks k @ ?B"
  have A: "?A \<noteq> []" "solid (hd ?A)" "solid (last ?A)" and B: "?B \<noteq> []" "solid (hd ?B)" "solid (last ?B)"
    using int_text_ends by blast+
  have "trim_space (blanks i @ ?e @ blanks l) = ?e"
    by (rule trim_blanks) (use A B in simp_all)
  then have t: "trim_space (blanks i @ ?A @ blanks j @ [c] @ blanks k @ ?B @ blanks l) =
      hd ?A # (tl ?A @ blanks j) @ c # blanks k @ ?B"
    using A(1) by simp
  have n: "\<forall>d \<in> set (tl ?A @ blanks j). \<not> is_op d"
    using int_text_tail blanks_no_op by auto
  have "trim_space (hd ?A # tl ?A @ blanks j) = ?A"
    using trim_blanks [OF A, of 0 j] A(1)
    by (metis append_Cons append_Nil blanks_def list.collapse replicate_0)
  moreover have "trim_space (blanks k @ ?B) = ?B"
    using trim_blanks [OF B, of k 0] by (simp add: blanks_def)
  ultimately show ?thesis
    unfolding eval_split [OF t assms n]
    by (simp add: atoi_int_text apply_op_def calc_add_def calc_divide_def)
qed

theorem eval_of_texts_witness:
  "eval_expr (blanks 1 @ int_text (sint (-3 :: int64)) @ blanks 1 @ [CHR ''*''] @ blanks 2 @ int_text (sint (4 :: int64)) @ blanks 0) = Inr (-12)"
  using eval_of_texts [of "CHR ''*''" 1 "-3" 1 2 4 0] by (simp add: is_op_def)

lemma split_at_op:
  assumes "list_ex is_op s"
  obtains u c v where "s = u @ c # v" "is_op c" "\<forall>d \<in> set u. \<not> is_op d"
  using assms split_list_first_prop [of s is_op] by (auto simp: list_ex_iff)

lemma eval_expr_cases:
  assumes "trim_space s = [] \<Longrightarrow> P (Inl (Syntax 0 ''empty expression''))"
    and "P (Inl (Syntax 0 ''missing operator''))"
    and "P (Inl (Syntax 0 ''bad left operand''))"
    and "\<And>p. p \<le> length (trim_space s) \<Longrightarrow> P (Inl (Syntax p ''bad right operand''))"
    and "\<And>c a b. is_op c \<Longrightarrow> P (apply_op c a b)"
  shows "P (eval_expr s)"
proof (cases "trim_space s")
  case Nil
  then show ?thesis using assms(1) by (simp add: eval_expr_def Let_def)
next
  case (Cons x r)
  show ?thesis
  proof (cases "list_ex is_op r")
    case True
    then obtain u c v where r: "r = u @ c # v" "is_op c" "\<forall>d \<in> set u. \<not> is_op d"
      by (rule split_at_op)
    have "length u + 2 \<le> length (trim_space s)" using Cons r(1) by simp
    then show ?thesis
      using assms(3,4,5) r(2)
      by (auto simp: eval_split [OF Cons [unfolded r(1)] r(2,3)] split: option.split)
  next
    case False
    then show ?thesis using assms(2) Cons by (simp add: eval_expr_def Let_def)
  qed
qed

text \<open>The error of \<^verbatim>\<open>Eval\<close> is always one a caller can act on.  A failure is the division error
or a syntax error of one of four causes at a position inside the trimmed expression; the
"unknown operator" branch is never taken, so the handler of \<^verbatim>\<open>api.go\<close> answers 200 or 400 to every
body and its 500 branch is dead.\<close>

theorem eval_errors:
  "(case eval_expr s of
      Inl (Syntax p w) \<Rightarrow> p \<le> length (trim_space s) \<and>
        w \<in> {''empty expression'', ''missing operator'', ''bad left operand'', ''bad right operand''}
    | _ \<Rightarrow> True) \<and>
   fst (handle_eval decode body) \<in> {200, 400} \<and>
   (fst (handle_eval decode body) = 200 \<longleftrightarrow> (\<exists>e v. decode body = Some e \<and> eval_expr e = Inr v))"
proof (intro conjI)
  show "case eval_expr s of
      Inl (Syntax p w) \<Rightarrow> p \<le> length (trim_space s) \<and>
        w \<in> {''empty expression'', ''missing operator'', ''bad left operand'', ''bad right operand''}
    | _ \<Rightarrow> True"
    by (rule eval_expr_cases [of s]) (auto simp: apply_op_def calc_divide_def)
  show "fst (handle_eval decode body) \<in> {200, 400}"
    by (auto simp: handle_eval_def split: option.split sum.split calc_error.split)
  show "fst (handle_eval decode body) = 200 \<longleftrightarrow> (\<exists>e v. decode body = Some e \<and> eval_expr e = Inr v)"
    by (auto simp: handle_eval_def split: option.split sum.split calc_error.split)
qed

text \<open>A result of zero is lost: \<^verbatim>\<open>omitempty\<close> on \<^verbatim>\<open>Result\<close> makes the reply to \<open>1-1\<close> the empty object.\<close>

lemma zero_result_omitted:
  "decode body = Some e \<Longrightarrow> eval_expr e = Inr 0 \<Longrightarrow>
   fst (handle_eval decode body) = 200 \<and> response_fields (snd (handle_eval decode body)) = []"
  by (simp add: handle_eval_def response_fields_def)

end
