(* ===== verification/Pool.thy ===== *)
theory Pool
  imports Prelude
begin

text \<open>
  The first two stages of \<^verbatim>\<open>08-concurrency/examples\<close>: the producer and consumer of \<^verbatim>\<open>01-toy\<close> and
  the worker pool of \<^verbatim>\<open>02-workerpool\<close>.  Every goroutine is a part of the state and every channel
  operation a step, so a run of the step relation is one interleaving the scheduler may choose.
  A send on an unbuffered channel and its receive are one step.
\<close>

subsection \<open>The toy: one producer, one consumer\<close>

record toy =
  next_value :: int64
  ch_closed :: bool
  collected :: "int64 list"
  returned :: bool

definition produce :: "int64 \<Rightarrow> toy" where
  "produce n = \<lparr>next_value = 1, ch_closed = False, collected = [], returned = False\<rparr>"

text \<open>At any time at most one step is possible: the send the consumer waits for, the close, or the
  end of \<^verbatim>\<open>Collect\<close>.\<close>

definition toy_step :: "int64 \<Rightarrow> toy \<Rightarrow> toy" where
  "toy_step n t =
     (if \<not> ch_closed t then
        (if sint (next_value t) \<le> sint n
         then t\<lparr>next_value := next_value t + 1, collected := collected t @ [next_value t]\<rparr>
         else t\<lparr>ch_closed := True\<rparr>)
      else t\<lparr>returned := True\<rparr>)"

subsection \<open>The pool\<close>

record job =
  job_id :: int64
  job_name :: string

record result =
  res_id :: int64
  output_text :: string
  err :: "string option"

datatype worker = Idle | Busy job | Exited

record pool =
  feed :: "job list"
  intake_closed :: bool
  workers :: "worker list"
  capacity :: nat
  buffer :: "result list"
  out_closed :: bool
  received :: "result list"
  finished :: bool
  panicked :: bool

text \<open>\<^verbatim>\<open>Run\<close>: no worker is started for \<open>n\<close> below one.\<close>

definition run_pool :: "job list \<Rightarrow> int64 \<Rightarrow> pool" where
  "run_pool jobs n =
     \<lparr>feed = jobs, intake_closed = False, workers = replicate (nat (sint n)) Idle,
      capacity = length jobs, buffer = [], out_closed = False, received = [], finished = False,
      panicked = False\<rparr>"

definition reply :: "nat \<Rightarrow> job \<Rightarrow> result" where
  "reply i j =
     \<lparr>res_id = job_id j, output_text = ''worker '' @ nat_text i @ '' did '' @ job_name j, err = None\<rparr>"

text \<open>One step of the feeder, a worker, the closer, or the caller ranging over the results.  Sending on
  a closed channel panics.\<close>

inductive pool_step :: "pool \<Rightarrow> pool \<Rightarrow> bool" where
  send: "feed s = j # js \<Longrightarrow> i < length (workers s) \<Longrightarrow> workers s ! i = Idle \<Longrightarrow>
    pool_step s (s\<lparr>feed := js, workers := (workers s)[i := Busy j]\<rparr>)"
| close_in: "feed s = [] \<Longrightarrow> \<not> intake_closed s \<Longrightarrow> pool_step s (s\<lparr>intake_closed := True\<rparr>)"
| put: "i < length (workers s) \<Longrightarrow> workers s ! i = Busy j \<Longrightarrow> \<not> out_closed s \<Longrightarrow>
    length (buffer s) < capacity s \<Longrightarrow>
    pool_step s (s\<lparr>buffer := buffer s @ [reply i j], workers := (workers s)[i := Idle]\<rparr>)"
| put_closed: "i < length (workers s) \<Longrightarrow> workers s ! i = Busy j \<Longrightarrow> out_closed s \<Longrightarrow> \<not> panicked s \<Longrightarrow>
    pool_step s (s\<lparr>panicked := True\<rparr>)"
| leave: "i < length (workers s) \<Longrightarrow> workers s ! i = Idle \<Longrightarrow> intake_closed s \<Longrightarrow>
    pool_step s (s\<lparr>workers := (workers s)[i := Exited]\<rparr>)"
| close_out: "list_all (\<lambda>w. w = Exited) (workers s) \<Longrightarrow> \<not> out_closed s \<Longrightarrow>
    pool_step s (s\<lparr>out_closed := True\<rparr>)"
| receive: "buffer s = r # rs \<Longrightarrow> pool_step s (s\<lparr>buffer := rs, received := received s @ [r]\<rparr>)"
| end_range: "buffer s = [] \<Longrightarrow> out_closed s \<Longrightarrow> \<not> finished s \<Longrightarrow> pool_step s (s\<lparr>finished := True\<rparr>)"

subsection \<open>The toy: lemmas\<close>

lemma toy_sends:
  assumes "int k \<le> sint n" "sint n < int64_max"
  shows "(toy_step n ^^ k) (produce n) =
     \<lparr>next_value = of_nat k + 1, ch_closed = False, collected = map of_nat [1..<k + 1], returned = False\<rparr>"
  using assms(1)
proof (induction k)
  case (Suc k)
  have "sint (of_nat k + 1 :: int64) = int k + 1"
    using sint64_of_nat [of "Suc k"] Suc.prems assms(2) by (simp add: add.commute)
  with Suc show ?case by (simp add: toy_step_def ac_simps)
qed (simp add: produce_def)

subsection \<open>The pool: lemmas\<close>

fun job_of :: "worker \<Rightarrow> job multiset" where
  "job_of (Busy j) = {#j#}"
| "job_of _ = {#}"

definition held :: "worker list \<Rightarrow> job multiset" where
  "held ws = sum_list (map job_of ws)"

lemma held_update:
  "i < length ws \<Longrightarrow> held (ws[i := w]) + job_of (ws ! i) = held ws + job_of w"
  unfolding held_def by (rule sum_list_map_update)

lemma held_take: "i < length ws \<Longrightarrow> ws ! i = Idle \<Longrightarrow> held (ws[i := Busy j]) = add_mset j (held ws)"
  using held_update [of i ws "Busy j"] by simp

lemma held_give: "i < length ws \<Longrightarrow> ws ! i = Busy j \<Longrightarrow> job_of w = {#} \<Longrightarrow> add_mset j (held (ws[i := w])) = held ws"
  using held_update [of i ws w] by simp

lemma held_idle: "i < length ws \<Longrightarrow> ws ! i = Idle \<Longrightarrow> job_of w = {#} \<Longrightarrow> held (ws[i := w]) = held ws"
  using held_update [of i ws w] by simp

lemma held_start: "held (replicate k Idle) = {#}"
  by (induction k) (auto simp: held_def)

lemma held_exited: "list_all (\<lambda>w. w = Exited) ws \<Longrightarrow> held ws = {#}"
  by (induction ws) (auto simp: held_def)

text \<open>Who served which job, in the order of the results; what is served, held or still to be fed
  is what was submitted.\<close>

definition served_inv :: "job list \<Rightarrow> nat \<Rightarrow> pool \<Rightarrow> (nat \<times> job) list \<Rightarrow> bool" where
  "served_inv jobs n s served \<longleftrightarrow>
     received s @ buffer s = map (\<lambda>(i, j). reply i j) served \<and> (\<forall>p \<in> set served. fst p < n) \<and>
     mset (map snd served) + held (workers s) + mset (feed s) = mset jobs"

definition pool_inv :: "job list \<Rightarrow> nat \<Rightarrow> pool \<Rightarrow> bool" where
  [inv_defs]: "pool_inv jobs n s \<longleftrightarrow>
     length (workers s) = n \<and> capacity s = length jobs \<and> \<not> panicked s \<and>
     (intake_closed s \<longrightarrow> feed s = []) \<and>
     (Exited \<in> set (workers s) \<longrightarrow> intake_closed s) \<and>
     (out_closed s \<longrightarrow> list_all (\<lambda>w. w = Exited) (workers s)) \<and>
     (finished s \<longrightarrow> out_closed s \<and> buffer s = []) \<and>
     (\<exists>served. served_inv jobs n s served)"

lemma run_pool_inv: "pool_inv jobs (nat (sint n)) (run_pool jobs n)"
proof -
  have "served_inv jobs (nat (sint n)) (run_pool jobs n) []"
    by (simp add: served_inv_def run_pool_def held_start)
  then show ?thesis unfolding pool_inv_def
    by (intro conjI exI [of _ "[]"]) (auto simp: run_pool_def)
qed

lemma set_update_exited: "Exited \<in> set (ws[i := w]) \<Longrightarrow> w \<noteq> Exited \<Longrightarrow> Exited \<in> set ws"
  using set_update_subset_insert [of ws i w] by auto

lemma busy_room:
  assumes "pool_inv jobs n s" "i < length (workers s)" "workers s ! i = Busy j"
  shows "length (buffer s) < capacity s"
proof -
  obtain served where sv: "served_inv jobs n s served" and cap: "capacity s = length jobs"
    using assms(1) by (auto simp: pool_inv_def)
  have "add_mset j (held ((workers s)[i := Idle])) = held (workers s)"
    using assms(2,3) by (rule held_give) simp
  then have "0 < size (held (workers s))" by (metis size_add_mset zero_less_Suc)
  moreover have "length served + size (held (workers s)) + length (feed s) = length jobs"
    using sv unfolding served_inv_def by (metis length_map size_mset size_union)
  moreover have "length (received s) + length (buffer s) = length served"
    using sv unfolding served_inv_def by (metis length_append length_map)
  ultimately show ?thesis using cap by linarith
qed

lemma pool_invD:
  assumes "pool_inv jobs n s"
  shows "length (workers s) = n" "\<not> panicked s" "intake_closed s \<Longrightarrow> feed s = []"
    "Exited \<in> set (workers s) \<Longrightarrow> intake_closed s" "out_closed s \<Longrightarrow> list_all (\<lambda>w. w = Exited) (workers s)"
    "finished s \<Longrightarrow> out_closed s" "finished s \<Longrightarrow> buffer s = []" "\<exists>served. served_inv jobs n s served"
  using assms unfolding pool_inv_def by blast+

lemma live_open: "pool_inv jobs n s \<Longrightarrow> i < length (workers s) \<Longrightarrow> workers s ! i \<noteq> Exited \<Longrightarrow> \<not> out_closed s"
  by (auto simp: pool_inv_def list_all_iff)

lemma pool_step_inv:
  assumes "pool_step s t" "pool_inv jobs n s"
  shows "pool_inv jobs n t"
  using assms
proof (induction rule: pool_step.induct)
  case (send s j js i)
  then obtain served where "served_inv jobs n s served" by (auto simp: pool_inv_def)
  then have "served_inv jobs n (s\<lparr>feed := js, workers := (workers s)[i := Busy j]\<rparr>) served"
    using send.hyps by (simp add: served_inv_def held_take)
  moreover have "\<not> out_closed s" using send live_open by fastforce
  ultimately show ?case using send
    unfolding pool_inv_def
    by (auto dest: set_update_exited)
next
  case (put i s j)
  then obtain served where sv: "served_inv jobs n s served" by (auto simp: pool_inv_def)
  have e: "held (workers s) = add_mset j (held ((workers s)[i := Idle]))"
    using put.hyps(1,2) by (rule held_give [symmetric]) simp
  have "i < n" using put by (simp add: pool_inv_def)
  then have "served_inv jobs n (s\<lparr>buffer := buffer s @ [reply i j], workers := (workers s)[i := Idle]\<rparr>)
      (served @ [(i, j)])"
    using sv by (auto simp: served_inv_def e simp flip: append_assoc)
  moreover have "\<not> out_closed s" using put live_open by fastforce
  ultimately show ?case using put
    unfolding pool_inv_def
    by (auto dest: set_update_exited)
next
  case (put_closed i s j)
  then have False using live_open [of jobs n s i] by simp
  then show ?case ..
next
  case (leave i s)
  then obtain served where "served_inv jobs n s served" by (auto simp: pool_inv_def)
  then have "served_inv jobs n (s\<lparr>workers := (workers s)[i := Exited]\<rparr>) served"
    using leave.hyps by (simp add: served_inv_def held_idle)
  moreover have "\<not> out_closed s" using leave live_open by fastforce
  ultimately show ?case using leave
    unfolding pool_inv_def
    by (auto dest: set_update_subset_insert [THEN subsetD])
next
  case (receive s r rs)
  then show ?case by (auto simp: pool_inv_def served_inv_def)
qed (auto simp: pool_inv_def served_inv_def)

lemma pool_run_inv: "pool_step\<^sup>*\<^sup>* s t \<Longrightarrow> pool_inv jobs n s \<Longrightarrow> pool_inv jobs n t"
  by (induction rule: rtranclp_induct) (auto intro: pool_step_inv)

text \<open>Each step uses up some of the work left.\<close>

fun effort :: "worker \<Rightarrow> nat" where
  "effort Idle = 1"
| "effort (Busy j) = 3"
| "effort Exited = 0"

definition work_left :: "pool \<Rightarrow> nat" where
  "work_left s = 3 * length (feed s) + sum_list (map effort (workers s)) + length (buffer s) +
     (if intake_closed s then 0 else 1) + (if out_closed s then 0 else 1) +
     (if finished s then 0 else 1) + (if panicked s then 0 else 1)"

lemma pool_step_work: "pool_step s t \<Longrightarrow> work_left t < work_left s"
proof (induction rule: pool_step.induct)
  case (send s j js i)
  then show ?case using sum_list_map_update [of i "workers s" effort "Busy j"] by (simp add: work_left_def)
next
  case (put i s j)
  then show ?case using sum_list_map_update [of i "workers s" effort Idle] by (simp add: work_left_def)
next
  case (leave i s)
  then show ?case using sum_list_map_update [of i "workers s" effort Exited] by (simp add: work_left_def)
qed (simp_all add: work_left_def)

lemma pool_steps_bound: "(pool_step ^^ k) s t \<Longrightarrow> k + work_left t \<le> work_left s"
proof (induction k arbitrary: t)
  case (Suc k)
  then obtain u where "(pool_step ^^ k) s u" "pool_step u t" by auto
  with Suc.IH [of u] pool_step_work [of u t] show ?case by linarith
qed simp

lemma run_pool_work: "work_left (run_pool jobs n) = 3 * length jobs + nat (sint n) + 4"
  by (simp add: work_left_def run_pool_def sum_list_replicate)

text \<open>Only the finished pool has no step left.\<close>

lemma stuck_finished:
  assumes inv: "pool_inv jobs n s" and stuck: "\<And>t. \<not> pool_step s t"
  shows "finished s"
proof (rule ccontr)
  assume nf: "\<not> finished s"
  have buf: "buffer s = []" using stuck pool_step.receive by (metis list.exhaust)
  with nf have open_out: "\<not> out_closed s" using stuck pool_step.end_range by blast
  then obtain w where "w \<in> set (workers s)" "w \<noteq> Exited"
    using stuck pool_step.close_out [of s] by (auto simp: list_all_iff)
  then obtain i where i: "i < length (workers s)" "workers s ! i \<noteq> Exited" by (auto simp: in_set_conv_nth)
  show False
  proof (cases "workers s ! i")
    case Idle
    then have "\<not> intake_closed s" using stuck pool_step.leave i(1) by blast
    moreover have "feed s = []" using stuck pool_step.send i(1) Idle by (metis list.exhaust)
    ultimately show False using stuck pool_step.close_in by blast
  next
    case (Busy j)
    then show False using stuck pool_step.put [OF i(1) Busy open_out] busy_room [OF inv i(1) Busy] by blast
  qed (use i in simp)
qed

subsection \<open>Properties\<close>

text \<open>The pool answers every job exactly once and then closes.  With at least one worker, every
interleaving of feeder, workers, closer and caller stops after at most \<open>3 * |jobs| + n + 4\<close> steps,
and where it stops the caller's range loop has ended: it has received one result for each job and
no other, made by some worker for that job.\<close>

theorem pool_completes:
  assumes "0 < sint n" "(pool_step ^^ k) (run_pool jobs n) s"
  shows "k \<le> 3 * length jobs + nat (sint n) + 4 \<and>
     ((\<nexists>t. pool_step s t) \<longrightarrow>
       finished s \<and> feed s = [] \<and> buffer s = [] \<and>
       (\<exists>served. received s = map (\<lambda>(i, j). reply i j) served \<and> mset (map snd served) = mset jobs \<and>
          (\<forall>p \<in> set served. fst p < nat (sint n))))"
proof (intro conjI impI)
  show "k \<le> 3 * length jobs + nat (sint n) + 4"
    using pool_steps_bound [OF assms(2)] by (simp add: run_pool_work)
  have inv: "pool_inv jobs (nat (sint n)) s"
    using assms(2) run_pool_inv pool_run_inv by (metis relpowp_imp_rtranclp)
  assume "\<nexists>t. pool_step s t"
  then show fin: "finished s" using stuck_finished [OF inv] by blast
  then have ex: "list_all (\<lambda>w. w = Exited) (workers s)" and buf: "buffer s = []"
    using pool_invD(5-7) [OF inv] by blast+
  have "0 < length (workers s)" unfolding pool_invD(1) [OF inv] using assms(1) by (simp only: zero_less_nat_eq)
  then have mem: "workers s ! 0 \<in> set (workers s)" by (rule nth_mem)
  with ex have "workers s ! 0 = Exited" unfolding list_all_iff by (rule bspec)
  with mem have "Exited \<in> set (workers s)" by (simp only:)
  then show feed: "feed s = []" using pool_invD(3,4) [OF inv] by blast
  from buf show "buffer s = []" .
  from inv obtain served where sv: "served_inv jobs (nat (sint n)) s served" using pool_invD(8) by blast
  have "received s = map (\<lambda>(i, j). reply i j) served" "mset (map snd served) = mset jobs"
    "\<forall>p \<in> set served. fst p < nat (sint n)"
    using sv feed buf held_exited [OF ex] by (simp_all add: served_inv_def)
  then show "\<exists>served. received s = map (\<lambda>(i, j). reply i j) served \<and> mset (map snd served) = mset jobs \<and>
          (\<forall>p \<in> set served. fst p < nat (sint n))"
    by blast
qed

lemma seven_steps: "R a b \<Longrightarrow> R b c \<Longrightarrow> R c d \<Longrightarrow> R d e \<Longrightarrow> R e f \<Longrightarrow> R f g \<Longrightarrow> R g h \<Longrightarrow> (R ^^ 7) a h"
proof -
  assume steps: "R a b" "R b c" "R c d" "R d e" "R e f" "R f g" "R g h"
  have seven: "7 = Suc (Suc (Suc (Suc (Suc (Suc (Suc 0))))))" by simp
  show "(R ^^ 7) a h" unfolding seven relpowp.simps using steps by blast
qed

theorem pool_completes_witness:
  "let j = \<lparr>job_id = 1, job_name = ''a''\<rparr>;
       s = \<lparr>feed = [], intake_closed = True, workers = [Exited], capacity = 1, buffer = [],
            out_closed = True, received = [reply 0 j], finished = True, panicked = False\<rparr>
   in (pool_step ^^ 7) (run_pool [j] 1) s \<and> finished s \<and>
      (\<exists>served. received s = map (\<lambda>(i, j). reply i j) served \<and> mset (map snd served) = mset [j])"
proof -
  let ?j = "\<lparr>job_id = 1, job_name = ''a''\<rparr>"
  let ?s = "\<lambda>f c w b oc r d. \<lparr>feed = f, intake_closed = c, workers = [w], capacity = 1, buffer = b,
       out_closed = oc, received = r, finished = d, panicked = False\<rparr>"
  let ?r = "reply 0 ?j" and ?f = "?s [] True Exited [] True [reply 0 ?j] True"
  have "pool_step (?s [?j] False Idle [] False [] False) (?s [] False (Busy ?j) [] False [] False)"
    using pool_step.send [of "?s [?j] False Idle [] False [] False" ?j "[]" 0] by simp
  moreover have "pool_step (?s [] False (Busy ?j) [] False [] False) (?s [] False Idle [?r] False [] False)"
    using pool_step.put [of 0 "?s [] False (Busy ?j) [] False [] False" ?j] by simp
  moreover have "pool_step (?s [] False Idle [?r] False [] False) (?s [] True Idle [?r] False [] False)"
    using pool_step.close_in [of "?s [] False Idle [?r] False [] False"] by simp
  moreover have "pool_step (?s [] True Idle [?r] False [] False) (?s [] True Exited [?r] False [] False)"
    using pool_step.leave [of 0 "?s [] True Idle [?r] False [] False"] by simp
  moreover have "pool_step (?s [] True Exited [?r] False [] False) (?s [] True Exited [?r] True [] False)"
    using pool_step.close_out [of "?s [] True Exited [?r] False [] False"] by simp
  moreover have "pool_step (?s [] True Exited [?r] True [] False) (?s [] True Exited [] True [?r] False)"
    using pool_step.receive [of "?s [] True Exited [?r] True [] False" ?r "[]"] by simp
  moreover have "pool_step (?s [] True Exited [] True [?r] False) ?f"
    using pool_step.end_range [of "?s [] True Exited [] True [?r] False"] by simp
  moreover have "run_pool [?j] 1 = ?s [?j] False Idle [] False [] False" by (simp add: run_pool_def)
  ultimately have run: "(pool_step ^^ 7) (run_pool [?j] 1) ?f"
    using seven_steps [of pool_step] by (simp only:)
  moreover have "\<nexists>t. pool_step ?f t" by (auto elim!: pool_step.cases simp: nth_Cons split: nat.splits)
  moreover have "0 < sint (1 :: int64)" by simp
  ultimately have "finished ?f \<and> (\<exists>served. received ?f = map (\<lambda>(i, j). reply i j) served \<and> mset (map snd served) = mset [?j])"
    using pool_completes [OF _ run] by blast
  with run show ?thesis unfolding Let_def by blast
qed

text \<open>The channels are used safely, whatever the number of workers.  In every reachable state no
worker has sent on the closed results channel, a worker with a result finds room for it (so the
buffer of one slot per job makes the send never block), the intake is closed only when it is
drained, and the results channel only when every worker has left.\<close>

theorem pool_safe:
  assumes "pool_step\<^sup>*\<^sup>* (run_pool jobs n) s"
  shows "\<not> panicked s \<and> (intake_closed s \<longrightarrow> feed s = []) \<and>
     (out_closed s \<longrightarrow> list_all (\<lambda>w. w = Exited) (workers s)) \<and>
     (\<forall>i < length (workers s). \<forall>j. workers s ! i = Busy j \<longrightarrow> length (buffer s) < capacity s)"
proof -
  have "pool_inv jobs (nat (sint n)) s" using assms run_pool_inv by (rule pool_run_inv)
  with busy_room [OF this] pool_invD [OF this] show ?thesis by blast
qed

theorem pool_safe_witness:
  "\<exists>s. pool_step (run_pool [] 0) s \<and> \<not> panicked s"
proof -
  have s: "pool_step (run_pool [] 0) ((run_pool [] 0)\<lparr>intake_closed := True\<rparr>)"
    by (rule pool_step.close_in) (simp_all add: run_pool_def)
  from s pool_safe [OF r_into_rtranclp, OF s] show ?thesis by blast
qed

text \<open>With no worker the caller sees a closed, empty channel at once and the feeder blocks for good on
  its first job.\<close>

lemma no_worker_leaks:
  assumes "sint n \<le> 0" "jobs \<noteq> []" "pool_step\<^sup>*\<^sup>* (run_pool jobs n) s"
  shows "feed s = jobs \<and> received s = [] \<and> \<not> intake_closed s"
proof -
  have "workers s = [] \<and> feed s = jobs \<and> received s = [] \<and> buffer s = [] \<and> \<not> intake_closed s"
    using assms(3)
  proof (induction rule: rtranclp_induct)
    case base
    then show ?case using assms(1) by (simp add: run_pool_def)
  next
    case (step s t)
    from step.hyps(2) step.IH assms(2) show ?case by (cases rule: pool_step.cases) auto
  qed
  then show ?thesis by simp
qed

text \<open>The toy pipeline hands over the numbers 1 to n in order and ends: after the n sends, the close
and the end of the range loop, \<^verbatim>\<open>Collect\<close> has returned all of them, and the stream stays as it is.\<close>

theorem toy_collects:
  assumes "0 \<le> sint n" "sint n < int64_max"
  shows "(toy_step n ^^ (nat (sint n) + 2)) (produce n) =
     \<lparr>next_value = n + 1, ch_closed = True, collected = map of_nat [1..<nat (sint n) + 1], returned = True\<rparr> \<and>
     toy_step n ((toy_step n ^^ (nat (sint n) + 2)) (produce n)) = (toy_step n ^^ (nat (sint n) + 2)) (produce n)"
proof -
  have n: "of_nat (nat (sint n)) = n" using assms(1) by simp
  have "sint (n + 1) = sint n + 1" using assms by (subst sint64_add) simp_all
  then have e: "(toy_step n ^^ (nat (sint n) + 2)) (produce n) =
     \<lparr>next_value = n + 1, ch_closed = True, collected = map of_nat [1..<nat (sint n) + 1], returned = True\<rparr>"
    using toy_sends [of "nat (sint n)" n] assms n
    by (simp add: numeral_2_eq_2 toy_step_def)
  show ?thesis unfolding e by (simp add: toy_step_def)
qed

theorem toy_collects_witness:
  "collected ((toy_step 3 ^^ 5) (produce 3)) = [1, 2, 3]"
  using toy_collects [of 3] by (simp add: upt_rec)

end
