(* ===== verification/Pool_Main.thy ===== *)
theory Pool_Main
  imports Pool
begin

text \<open>
  The programs of \<^verbatim>\<open>08-concurrency/examples/01-toy\<close> and \<^verbatim>\<open>02-workerpool\<close>: their \<^verbatim>\<open>main\<close> over the models of
  \<open>Pool\<close>, with the lines they print.
\<close>

definition processed_line :: "int64 \<Rightarrow> string" where
  "processed_line v = ''processed '' @ int_text (sint v)"

text \<open>\<^verbatim>\<open>main\<close> of the toy prints what \<^verbatim>\<open>Collect\<close> returns, after \<open>k\<close> steps of the pipeline.\<close>

definition toy_main :: "nat \<Rightarrow> string list option" where
  "toy_main k =
     (let t = (toy_step 3 ^^ k) (produce 3)
      in if returned t then Some (map processed_line (collected t)) else None)"

definition main_jobs :: "job list" where
  "main_jobs = [\<lparr>job_id = 1, job_name = ''alpha''\<rparr>, \<lparr>job_id = 2, job_name = ''beta''\<rparr>, \<lparr>job_id = 3, job_name = ''gamma''\<rparr>]"

text \<open>A result under \<^verbatim>\<open>%+v\<close>.\<close>

definition result_line :: "result \<Rightarrow> string" where
  "result_line r = ''{JobID:'' @ int_text (sint (res_id r)) @ '' Output:'' @ output_text r @ '' Err:'' @
     (case err r of None \<Rightarrow> ''<nil>'' | Some e \<Rightarrow> e) @ ''}''"

definition pool_main :: pool where
  "pool_main = run_pool main_jobs 2"

definition printed_lines :: "pool \<Rightarrow> string list" where
  "printed_lines s = map result_line (received s)"

subsection \<open>What they print\<close>

lemma toy_main_prints:
  "toy_main 5 = Some [''processed 1'', ''processed 2'', ''processed 3'']"
  by code_simp

text \<open>The loop of the pool's \<^verbatim>\<open>main\<close> ends after at most 15 steps, and then it has printed one line for
  each job, in some order, each naming one of the two workers.\<close>

theorem pool_main_prints:
  assumes "(pool_step ^^ k) pool_main s"
  shows "k \<le> 15 \<and> ((\<nexists>t. pool_step s t) \<longrightarrow> finished s \<and>
    (\<exists>served. mset (map snd served) = mset main_jobs \<and> (\<forall>p \<in> set served. fst p < 2) \<and>
       printed_lines s = map (\<lambda>(i, j). ''{JobID:'' @ int_text (sint (job_id j)) @ '' Output:worker '' @ nat_text i @
         '' did '' @ job_name j @ '' Err:<nil>}'') served))"
proof -
  have "result_line (reply i j) = ''{JobID:'' @ int_text (sint (job_id j)) @ '' Output:worker '' @ nat_text i @
         '' did '' @ job_name j @ '' Err:<nil>}''" for i j
    by (simp add: result_line_def reply_def)
  then have line: "result_line \<circ> (\<lambda>(i, j). reply i j) = (\<lambda>(i, j). ''{JobID:'' @ int_text (sint (job_id j)) @ '' Output:worker '' @
         nat_text i @ '' did '' @ job_name j @ '' Err:<nil>}'')" by (auto simp: fun_eq_iff)
  have n: "0 < sint (2 :: int64)" "nat (sint (2 :: int64)) = 2" "length main_jobs = 3" by (simp_all add: main_jobs_def)
  have "k \<le> 3 * length main_jobs + nat (sint (2 :: int64)) + 4 \<and> ((\<nexists>t. pool_step s t) \<longrightarrow> finished s \<and> feed s = [] \<and> buffer s = [] \<and>
       (\<exists>served. received s = map (\<lambda>(i, j). reply i j) served \<and> mset (map snd served) = mset main_jobs \<and>
          (\<forall>p \<in> set served. fst p < nat (sint (2 :: int64)))))"
    using pool_completes [OF n(1), of k main_jobs s] assms unfolding pool_main_def by blast
  then show ?thesis unfolding n printed_lines_def line [symmetric] by (auto simp del: mset_map)
qed

end
