(* ===== verification/Cancel_Pool.thy ===== *)
theory Cancel_Pool
  imports Prelude
begin

text \<open>
  The third stage of \<^verbatim>\<open>08-concurrency/examples\<close>, \<^verbatim>\<open>03-workerpool-cancel\<close>: the worker pool whose
  goroutines select on the context.  The steps of the pool are kept apart from those of its
  surroundings, which may offer more jobs, cancel the context, close the intake, or stop reading the
  results.
\<close>

subsection \<open>Jobs, workers and the pool\<close>

text \<open>\<^verbatim>\<open>Process\<close> is the caller's function; it sees whether the context is cancelled.\<close>

record cjob =
  cj_id :: int64
  process_job :: "bool \<Rightarrow> string \<times> string option"

record cresult =
  cr_id :: int64
  cr_output :: string
  cr_err :: "string option"

definition process :: "bool \<Rightarrow> cjob \<Rightarrow> cresult" where
  "process cancelled j =
     (case process_job j cancelled of (out, e) \<Rightarrow> \<lparr>cr_id = cj_id j, cr_output = out, cr_err = e\<rparr>)"

datatype cworker = Ready | Running cjob | Sending cresult | Gone

datatype finalizer = Selecting | Draining | Closed

text \<open>\<^verbatim>\<open>source\<close> holds the jobs that producers offer and no worker has taken.\<close>

record cpool =
  source :: "cjob list"
  source_closed :: bool
  cancelled :: bool
  cworkers :: "cworker list"
  worker_done :: bool
  final :: finalizer
  listening :: bool
  delivered :: "cresult list"
  drained :: bool

definition run_cpool :: "cjob list \<Rightarrow> int64 \<Rightarrow> cpool" where
  "run_cpool jobs n =
     \<lparr>source = jobs, source_closed = False, cancelled = False,
      cworkers = replicate (nat (sint n)) Ready, worker_done = False, final = Selecting,
      listening = True, delivered = [], drained = False\<rparr>"

text \<open>A worker: one of the ready cases of its select, or the work between two selects.\<close>

inductive worker_step :: "nat \<Rightarrow> cpool \<Rightarrow> cpool \<Rightarrow> bool" for i where
  take_job: "i < length (cworkers s) \<Longrightarrow> cworkers s ! i = Ready \<Longrightarrow> source s = j # js \<Longrightarrow>
    worker_step i s (s\<lparr>source := js, cworkers := (cworkers s)[i := Running j]\<rparr>)"
| intake_over: "i < length (cworkers s) \<Longrightarrow> cworkers s ! i = Ready \<Longrightarrow> source s = [] \<Longrightarrow> source_closed s \<Longrightarrow>
    worker_step i s (s\<lparr>cworkers := (cworkers s)[i := Gone]\<rparr>)"
| ctx_done: "i < length (cworkers s) \<Longrightarrow> cworkers s ! i = Ready \<Longrightarrow> cancelled s \<Longrightarrow>
    worker_step i s (s\<lparr>cworkers := (cworkers s)[i := Gone]\<rparr>)"
| processed: "i < length (cworkers s) \<Longrightarrow> cworkers s ! i = Running j \<Longrightarrow>
    worker_step i s (s\<lparr>cworkers := (cworkers s)[i := Sending (process (cancelled s) j)]\<rparr>)"
| deliver: "i < length (cworkers s) \<Longrightarrow> cworkers s ! i = Sending r \<Longrightarrow> listening s \<Longrightarrow>
    worker_step i s (s\<lparr>delivered := delivered s @ [r], cworkers := (cworkers s)[i := Ready]\<rparr>)"

text \<open>The pool: its workers, the goroutine that waits for them, the one that closes the results, and
  the caller's range loop.\<close>

inductive cpool_step :: "cpool \<Rightarrow> cpool \<Rightarrow> bool" where
  work: "worker_step i s t \<Longrightarrow> cpool_step s t"
| all_done: "list_all (\<lambda>w. w = Gone) (cworkers s) \<Longrightarrow> \<not> worker_done s \<Longrightarrow>
    cpool_step s (s\<lparr>worker_done := True\<rparr>)"
| drain: "final s = Selecting \<Longrightarrow> cancelled s \<Longrightarrow> cpool_step s (s\<lparr>final := Draining\<rparr>)"
| close_results: "final s \<noteq> Closed \<Longrightarrow> worker_done s \<Longrightarrow> cpool_step s (s\<lparr>final := Closed\<rparr>)"
| range_over: "final s = Closed \<Longrightarrow> listening s \<Longrightarrow> \<not> drained s \<Longrightarrow> cpool_step s (s\<lparr>drained := True\<rparr>)"

inductive env_step :: "cpool \<Rightarrow> cpool \<Rightarrow> bool" where
  cancel: "env_step s (s\<lparr>cancelled := True\<rparr>)"
| close_source: "env_step s (s\<lparr>source_closed := True\<rparr>)"
| stop_listening: "env_step s (s\<lparr>listening := False\<rparr>)"

text \<open>The pool among producers that go on offering: \<open>serves n js s\<close> when \<open>js\<close> are the jobs offered so far.\<close>

inductive serves :: "int64 \<Rightarrow> cjob list \<Rightarrow> cpool \<Rightarrow> bool" for n where
  start: "serves n [] (run_cpool [] n)"
| pool: "serves n js s \<Longrightarrow> cpool_step s t \<Longrightarrow> serves n js t"
| env: "serves n js s \<Longrightarrow> env_step s t \<Longrightarrow> serves n js t"
| offer: "serves n js s \<Longrightarrow> \<not> source_closed s \<Longrightarrow> serves n (js @ [j]) (s\<lparr>source := source s @ [j]\<rparr>)"

text \<open>\<open>winds_down s js k t\<close>: from \<open>s\<close> to \<open>t\<close> with \<open>k\<close> steps of the pool, in any order with further offers
  \<open>js\<close>, cancellation and the closing of the intake.\<close>

inductive winds_down :: "cpool \<Rightarrow> cjob list \<Rightarrow> nat \<Rightarrow> cpool \<Rightarrow> bool" for s where
  stay: "winds_down s [] 0 s"
| move: "winds_down s js k t \<Longrightarrow> cpool_step t u \<Longrightarrow> winds_down s js (Suc k) u"
| cancels: "winds_down s js k t \<Longrightarrow> winds_down s js k (t\<lparr>cancelled := True\<rparr>)"
| closes: "winds_down s js k t \<Longrightarrow> winds_down s js k (t\<lparr>source_closed := True\<rparr>)"
| offers: "winds_down s js k t \<Longrightarrow> \<not> source_closed t \<Longrightarrow> winds_down s (js @ [j]) k (t\<lparr>source := source t @ [j]\<rparr>)"

inductive_cases worker_stepE: "worker_step i s t"
inductive_cases cpool_stepE: "cpool_step s t"
inductive_cases env_stepE: "env_step s t"

subsection \<open>Lemmas\<close>

fun work_id :: "cworker \<Rightarrow> int64 multiset" where
  "work_id (Running j) = {#cj_id j#}"
| "work_id (Sending r) = {#cr_id r#}"
| "work_id _ = {#}"

definition underway :: "cworker list \<Rightarrow> int64 multiset" where
  "underway ws = sum_list (map work_id ws)"

lemma underway_update:
  "i < length ws \<Longrightarrow> underway (ws[i := w]) + work_id (ws ! i) = underway ws + work_id w"
  unfolding underway_def by (rule sum_list_map_update)

lemma underway_gone: "list_all (\<lambda>w. w = Gone) ws \<Longrightarrow> underway ws = {#}"
  by (induction ws) (auto simp: underway_def)

lemma underway_start: "underway (replicate k Ready) = {#}"
  by (induction k) (auto simp: underway_def)

text \<open>The job numbers that are answered, underway or still on offer.\<close>

definition accounted :: "cpool \<Rightarrow> int64 multiset" where
  "accounted s = mset (map cr_id (delivered s)) + underway (cworkers s) + mset (map cj_id (source s))"

lemma process_id [simp]: "cr_id (process c j) = cj_id j"
  by (simp add: process_def split: prod.split)

lemma worker_step_accounted: "worker_step i s t \<Longrightarrow> accounted t = accounted s"
proof (induction rule: worker_step.induct)
  case (take_job s j js)
  then show ?case using underway_update [of i "cworkers s" "Running j"] by (simp add: accounted_def)
next
  case (intake_over s)
  then show ?case using underway_update [of i "cworkers s" Gone] by (simp add: accounted_def)
next
  case (ctx_done s)
  then show ?case using underway_update [of i "cworkers s" Gone] by (simp add: accounted_def)
next
  case (processed s j)
  then show ?case using underway_update [of i "cworkers s" "Sending (process (cancelled s) j)"]
    by (simp add: accounted_def)
next
  case (deliver s r)
  then show ?case using underway_update [of i "cworkers s" Ready] by (simp add: accounted_def)
qed

definition cpool_inv :: "cpool \<Rightarrow> bool" where
  [inv_defs]: "cpool_inv s \<longleftrightarrow>
     (worker_done s \<longrightarrow> list_all (\<lambda>w. w = Gone) (cworkers s)) \<and>
     (final s = Closed \<longrightarrow> worker_done s) \<and> (drained s \<longrightarrow> final s = Closed)"

lemma worker_live: "worker_step i s t \<Longrightarrow> i < length (cworkers s) \<and> cworkers s ! i \<noteq> Gone"
  by (auto elim: worker_step.cases)

lemma worker_frame:
  "worker_step i s t \<Longrightarrow> worker_done t = worker_done s \<and> final t = final s \<and> drained t = drained s \<and>
     listening t = listening s \<and> cancelled t = cancelled s \<and> source_closed t = source_closed s"
  by (auto elim: worker_step.cases)

lemma cpool_step_inv: "cpool_step s t \<Longrightarrow> cpool_inv s \<Longrightarrow> cpool_inv t"
proof (induction rule: cpool_step.induct)
  case (work i s t)
  from worker_live [OF work.hyps] have "\<not> list_all (\<lambda>w. w = Gone) (cworkers s)"
    by (auto simp: list_all_length)
  with work worker_frame [OF work.hyps] show ?case by (auto simp: cpool_inv_def)
qed (auto simp: cpool_inv_def)

lemma cpool_step_accounted: "cpool_step s t \<Longrightarrow> accounted t = accounted s"
  by (induction rule: cpool_step.induct) (auto simp: worker_step_accounted, auto simp: accounted_def)

lemma env_step_keeps: "env_step s t \<Longrightarrow> (cpool_inv s \<longrightarrow> cpool_inv t) \<and> accounted t = accounted s"
  by (induction rule: env_step.induct) (auto simp: cpool_inv_def accounted_def)

definition any_step :: "cpool \<Rightarrow> cpool \<Rightarrow> bool" where
  "any_step s t \<longleftrightarrow> cpool_step s t \<or> env_step s t"

lemma run_cpool_start: "cpool_inv (run_cpool jobs n)" "accounted (run_cpool jobs n) = mset (map cj_id jobs)"
  by (simp_all add: cpool_inv_def accounted_def run_cpool_def underway_start)

lemma any_run:
  assumes "any_step\<^sup>*\<^sup>* (run_cpool jobs n) s"
  shows "cpool_inv s \<and> accounted s = mset (map cj_id jobs)"
  using assms
proof (induction rule: rtranclp_induct)
  case base
  show ?case by (simp only: run_cpool_start simp_thms)
next
  case (step s t)
  then show ?case using cpool_step_inv cpool_step_accounted env_step_keeps unfolding any_step_def by metis
qed

lemma serves_run: "serves n js s \<Longrightarrow> cpool_inv s \<and> accounted s = mset (map cj_id js)"
proof (induction rule: serves.induct)
  case start
  then show ?case using run_cpool_start [of "[]" n] by simp
next
  case (pool js s t)
  then show ?case using cpool_step_inv cpool_step_accounted by simp
next
  case (env js s t)
  then show ?case using env_step_keeps by simp
next
  case (offer js s j)
  then show ?case by (simp add: cpool_inv_def accounted_def)
qed

lemma winds_down_serves: "winds_down s ks k t \<Longrightarrow> serves n js s \<Longrightarrow> serves n (js @ ks) t"
proof (induction rule: winds_down.induct)
  case (offers ks k t j)
  then show ?case using serves.offer [of n "js @ ks" t j] by simp
qed (auto intro: serves.pool serves.env env_step.cancel env_step.close_source)

subsection \<open>Termination\<close>

fun ceffort :: "cworker \<Rightarrow> nat" where
  "ceffort Ready = 1"
| "ceffort (Running j) = 3"
| "ceffort (Sending r) = 2"
| "ceffort Gone = 0"

fun phases :: "finalizer \<Rightarrow> nat" where
  "phases Selecting = 2"
| "phases Draining = 1"
| "phases Closed = 0"

definition cwork_left :: "cpool \<Rightarrow> nat" where
  "cwork_left s = 3 * length (source s) + sum_list (map ceffort (cworkers s)) + phases (final s) +
     (if worker_done s then 0 else 1) + (if drained s then 0 else 1)"

lemma worker_step_work: "worker_step i s t \<Longrightarrow> cwork_left t < cwork_left s"
proof (induction rule: worker_step.induct)
  case (take_job s j js)
  then show ?case using sum_list_map_update [of i "cworkers s" ceffort "Running j"] by (simp add: cwork_left_def)
next
  case (intake_over s)
  then show ?case using sum_list_map_update [of i "cworkers s" ceffort Gone] by (simp add: cwork_left_def)
next
  case (ctx_done s)
  then show ?case using sum_list_map_update [of i "cworkers s" ceffort Gone] by (simp add: cwork_left_def)
next
  case (processed s j)
  then show ?case using sum_list_map_update [of i "cworkers s" ceffort "Sending (process (cancelled s) j)"]
    by (simp add: cwork_left_def)
next
  case (deliver s r)
  then show ?case using sum_list_map_update [of i "cworkers s" ceffort Ready] by (simp add: cwork_left_def)
qed

lemma cpool_step_work: "cpool_step s t \<Longrightarrow> cwork_left t < cwork_left s"
proof (induction rule: cpool_step.induct)
  case (close_results s)
  then show ?case by (cases "final s") (simp_all add: cwork_left_def)
qed (auto simp: worker_step_work, auto simp: cwork_left_def)

lemma cpool_step_frame:
  "cpool_step s t \<Longrightarrow> listening t = listening s \<and> cancelled t = cancelled s \<and> source_closed t = source_closed s"
  by (induction rule: cpool_step.induct) (auto dest: worker_frame)

text \<open>Each offer adds three steps: it is taken, processed and delivered.\<close>

lemma winds_down_bound: "winds_down s js k t \<Longrightarrow> k + cwork_left t \<le> cwork_left s + 3 * length js"
proof (induction rule: winds_down.induct)
  case (move js k t u)
  then show ?case using cpool_step_work [of t u] by linarith
qed (auto simp: cwork_left_def)

lemma winds_down_frame:
  "winds_down s js k t \<Longrightarrow> listening t = listening s \<and> (cancelled s \<or> source_closed s \<longrightarrow> cancelled t \<or> source_closed t)"
  by (induction rule: winds_down.induct) (auto dest: cpool_step_frame)

text \<open>A worker that has not left can move when the results are read and the end has been announced.\<close>

lemma worker_moves:
  assumes "i < length (cworkers s)" "cworkers s ! i \<noteq> Gone" "listening s" "cancelled s \<or> source_closed s"
  shows "\<exists>t. worker_step i s t"
proof (cases "cworkers s ! i")
  case Ready
  show ?thesis
  proof (cases "source s")
    case Nil
    then show ?thesis using assms(1,4) Ready intake_over ctx_done by blast
  next
    case (Cons j js)
    then show ?thesis using assms(1) Ready take_job by blast
  qed
next
  case (Running j)
  then show ?thesis using assms(1) processed by blast
next
  case (Sending r)
  then show ?thesis using assms(1,3) deliver by blast
qed (use assms(2) in simp)

lemma cpool_stuck:
  assumes stuck: "\<nexists>t. cpool_step s t" and on: "listening s" "cancelled s \<or> source_closed s" and inv: "cpool_inv s"
  shows "drained s \<and> final s = Closed \<and> list_all (\<lambda>w. w = Gone) (cworkers s)"
proof -
  have gone: "list_all (\<lambda>w. w = Gone) (cworkers s)"
    unfolding list_all_length using worker_moves [OF _ _ on] stuck cpool_step.work by blast
  then have "worker_done s" using stuck cpool_step.all_done by blast
  then have "final s = Closed" using stuck cpool_step.close_results by blast
  moreover from this have "drained s" using stuck on(1) cpool_step.range_over by blast
  ultimately show ?thesis using gone by blast
qed

text \<open>A worker whose result nobody reads stays where it is, whatever happens.\<close>

lemma sending_stays:
  assumes "any_step s t" "\<not> listening s" "i < length (cworkers s)" "cworkers s ! i = Sending r"
  shows "\<not> listening t \<and> i < length (cworkers t) \<and> cworkers t ! i = Sending r"
proof -
  have worker: "\<not> listening u \<and> i < length (cworkers u) \<and> cworkers u ! i = Sending r" if "worker_step k s u" for k u
    using that assms(2-4) by (elim worker_stepE) (auto simp: nth_list_update)
  from assms(1) consider "cpool_step s t" | "env_step s t" unfolding any_step_def by blast
  then show ?thesis
  proof cases
    case 1
    then show ?thesis using assms(2-4) by (elim cpool_stepE) (simp_all add: worker)
  next
    case 2
    then show ?thesis using assms(2-4) by (elim env_stepE) simp_all
  qed
qed

subsection \<open>Properties\<close>

text \<open>C26: cancellation, or the end of the intake, brings the pool down cleanly.  From any reachable state
in which the context is cancelled or the intake closed and the caller still reads, the pool makes at
most \<open>cwork_left\<close> more steps and three for each job that producers go on offering, in whatever order;
while it has not come down it can make a step, and when it can make none every worker has left, the
results channel is closed and the caller's loop over, and the jobs offered are exactly those answered
(each once) and those never taken.  A producer that never stops can keep it going: see the lemma on the
backlog in \<^verbatim>\<open>Cancel_Main\<close>.\<close>

theorem cancel_completes:
  assumes "serves n js s" "listening s" "cancelled s \<or> source_closed s" "winds_down s ks k t"
  shows "k \<le> cwork_left s + 3 * length ks \<and>
    ((\<nexists>u. cpool_step t u) \<longrightarrow>
       drained t \<and> final t = Closed \<and> list_all (\<lambda>w. w = Gone) (cworkers t) \<and>
       mset (map cr_id (delivered t)) + mset (map cj_id (source t)) = mset (map cj_id (js @ ks)))"
proof (intro conjI impI)
  show "k \<le> cwork_left s + 3 * length ks" using winds_down_bound [OF assms(4)] by simp
  have t: "cpool_inv t" "accounted t = mset (map cj_id (js @ ks))"
    using serves_run [OF winds_down_serves [OF assms(4,1)]] by blast+
  assume stuck: "\<nexists>u. cpool_step t u"
  have "listening t" "cancelled t \<or> source_closed t" using winds_down_frame [OF assms(4)] assms(2,3) by blast+
  from cpool_stuck [OF stuck this t(1)]
  show "drained t" "final t = Closed" and gone: "list_all (\<lambda>w. w = Gone) (cworkers t)" by blast+
  from t(2) underway_gone [OF gone]
  show "mset (map cr_id (delivered t)) + mset (map cj_id (source t)) = mset (map cj_id (js @ ks))"
    by (simp add: accounted_def)
qed

text \<open>A pool of one worker, cancelled before its job is offered; it leaves without taking it.\<close>

definition demo_cancelled :: "cpool" where
  "demo_cancelled = (run_cpool [] 1)\<lparr>cancelled := True\<rparr>"

definition demo_down :: "cjob \<Rightarrow> cpool" where
  "demo_down j = demo_cancelled\<lparr>source := [j], cworkers := [Gone], worker_done := True, final := Closed, drained := True\<rparr>"

lemma demo_winds_down: "winds_down demo_cancelled [j] 4 (demo_down j)"
proof -
  let ?s1 = "demo_cancelled\<lparr>source := [j]\<rparr>"
  let ?s2 = "?s1\<lparr>cworkers := [Gone]\<rparr>"
  let ?s3 = "?s2\<lparr>worker_done := True\<rparr>"
  let ?s4 = "?s3\<lparr>final := Closed\<rparr>"
  have 1: "winds_down demo_cancelled [j] 0 ?s1"
    using winds_down.offers [OF winds_down.stay, of demo_cancelled j] by (simp add: demo_cancelled_def run_cpool_def)
  have "cpool_step ?s1 ?s2"
    using cpool_step.work [OF worker_step.ctx_done [of 0 ?s1]] by (simp add: demo_cancelled_def run_cpool_def)
  from winds_down.move [OF 1 this] have 2: "winds_down demo_cancelled [j] (Suc 0) ?s2" .
  have "cpool_step ?s2 ?s3" using cpool_step.all_done [of ?s2] by (simp add: demo_cancelled_def run_cpool_def)
  from winds_down.move [OF 2 this] have 3: "winds_down demo_cancelled [j] (Suc (Suc 0)) ?s3" .
  have "cpool_step ?s3 ?s4" using cpool_step.close_results [of ?s3] by (simp add: demo_cancelled_def run_cpool_def)
  from winds_down.move [OF 3 this] have 4: "winds_down demo_cancelled [j] (Suc (Suc (Suc 0))) ?s4" .
  have "cpool_step ?s4 (demo_down j)"
    using cpool_step.range_over [of ?s4] by (simp add: demo_cancelled_def demo_down_def run_cpool_def)
  from winds_down.move [OF 4 this] show ?thesis by (simp add: numeral_eq_Suc)
qed

theorem cancel_completes_witness:
  "(4 :: nat) \<le> cwork_left demo_cancelled + 3 \<and> drained (demo_down \<lparr>cj_id = 7, process_job = (\<lambda>c. (''x'', None))\<rparr>)"
proof -
  let ?j = "\<lparr>cj_id = 7, process_job = (\<lambda>c. (''x'', None))\<rparr>"
  have on: "listening demo_cancelled" "cancelled demo_cancelled \<or> source_closed demo_cancelled"
    by (simp_all add: demo_cancelled_def run_cpool_def)
  have "serves 1 [] demo_cancelled"
    unfolding demo_cancelled_def by (rule serves.env [OF serves.start env_step.cancel])
  note c = cancel_completes [OF this on demo_winds_down [of ?j]]
  have "\<not> worker_step i (demo_down ?j) u" for i u
    by (auto elim: worker_step.cases simp: demo_down_def)
  then have "\<nexists>u. cpool_step (demo_down ?j) u"
    by (auto elim!: cpool_stepE) (simp_all add: demo_down_def)
  with c show ?thesis by simp
qed

text \<open>The one way to leak.  A worker that has a result when the caller has stopped reading blocks on
\<^verbatim>\<open>out <- process(ctx, j)\<close> for good: no cancellation, no closed intake and no other goroutine ever
frees it, and the results channel is never closed.\<close>

theorem abandoned_worker_leaks:
  assumes "any_step\<^sup>*\<^sup>* (run_cpool jobs n) s" "any_step\<^sup>*\<^sup>* s t"
    and "\<not> listening s" "i < length (cworkers s)" "cworkers s ! i = Sending r"
  shows "cworkers t ! i = Sending r \<and> \<not> worker_done t \<and> final t \<noteq> Closed \<and> \<not> drained t"
proof -
  have stay: "\<not> listening t \<and> i < length (cworkers t) \<and> cworkers t ! i = Sending r"
    using assms(2) by (induction rule: rtranclp_induct) (use assms(3-5) sending_stays in blast)+
  have "cpool_inv t" using any_run rtranclp_trans [OF assms(1,2)] by blast
  moreover have "\<not> list_all (\<lambda>w. w = Gone) (cworkers t)" using stay by (auto simp: list_all_length)
  ultimately show ?thesis using stay unfolding cpool_inv_def by blast
qed

definition demo_abandoned :: "cpool" where
  "demo_abandoned =
     (run_cpool [\<lparr>cj_id = 7, process_job = (\<lambda>c. (''x'', None))\<rparr>] 1)
       \<lparr>source := [], cworkers := [Sending \<lparr>cr_id = 7, cr_output = ''x'', cr_err = None\<rparr>], listening := False\<rparr>"

theorem abandoned_worker_leaks_witness:
  "final (demo_abandoned\<lparr>cancelled := True\<rparr>) \<noteq> Closed \<and>
   any_step\<^sup>*\<^sup>* (run_cpool [\<lparr>cj_id = 7, process_job = (\<lambda>c. (''x'', None))\<rparr>] 1) demo_abandoned"
proof -
  let ?j = "\<lparr>cj_id = 7, process_job = (\<lambda>c. (''x'', None))\<rparr>"
  let ?r = "\<lparr>cr_id = 7, cr_output = ''x'', cr_err = None\<rparr>"
  let ?s = "run_cpool [?j] 1"
  let ?s1 = "?s\<lparr>source := [], cworkers := [Running ?j]\<rparr>"
  let ?s2 = "?s\<lparr>source := [], cworkers := [Sending ?r]\<rparr>"
  have "any_step ?s ?s1" unfolding any_step_def
    using cpool_step.work [OF worker_step.take_job [of 0 ?s ?j "[]"]] by (simp add: run_cpool_def)
  moreover have "any_step ?s1 ?s2" unfolding any_step_def
    using cpool_step.work [OF worker_step.processed [of 0 ?s1 ?j]] by (simp add: run_cpool_def process_def)
  moreover have "any_step ?s2 demo_abandoned" unfolding any_step_def
    using env_step.stop_listening [of ?s2] by (simp add: demo_abandoned_def)
  ultimately have reach: "any_step\<^sup>*\<^sup>* ?s demo_abandoned" by (meson converse_rtranclp_into_rtranclp rtranclp.rtrancl_refl)
  have "any_step\<^sup>*\<^sup>* demo_abandoned (demo_abandoned\<lparr>cancelled := True\<rparr>)"
    by (rule r_into_rtranclp) (simp add: any_step_def env_step.cancel)
  from abandoned_worker_leaks [OF reach this, of 0 ?r] reach show ?thesis
    by (simp add: demo_abandoned_def)
qed

end
