(* ===== verification/Cancel_Main.thy ===== *)
theory Cancel_Main
  imports Cancel_Pool
begin

text \<open>
  \<^verbatim>\<open>main\<close> of \<^verbatim>\<open>08-concurrency/examples/03-workerpool-cancel\<close>: a goroutine that feeds jobs without end to a
  pool of two workers whose context runs out.  The lines \<^verbatim>\<open>main\<close> prints are the delivered results in their
  order, and its last line comes when its loop is over (\<open>drained\<close>).
\<close>

subsection \<open>The program\<close>

definition feed_job :: "nat \<Rightarrow> cjob" where
  "feed_job i = \<lparr>cj_id = of_nat i, process_job = (\<lambda>c. (''done'', None))\<rparr>"

text \<open>The feeder's counter beside the pool; \<open>source\<close> is the job it blocks on, if it has come to its send.\<close>

inductive feed_step :: "nat \<times> cpool \<Rightarrow> nat \<times> cpool \<Rightarrow> bool" where
  pool: "cpool_step s t \<Longrightarrow> feed_step (i, s) (i, t)"
| offer: "source s = [] \<Longrightarrow> feed_step (i, s) (i + 1, s\<lparr>source := [feed_job i]\<rparr>)"
| timeout: "\<not> cancelled s \<Longrightarrow> feed_step (i, s) (i, s\<lparr>cancelled := True\<rparr>)"

definition feed_start :: "nat \<times> cpool" where
  "feed_start = (1, run_cpool [] 2)"

subsection \<open>Invariant\<close>

definition fed :: "cjob \<Rightarrow> bool" where
  "fed j \<longleftrightarrow> (\<forall>c. process_job j c = (''done'', None))"

fun fed_worker :: "cworker \<Rightarrow> bool" where
  "fed_worker (Running j) \<longleftrightarrow> fed j"
| "fed_worker (Sending r) \<longleftrightarrow> cr_output r = ''done'' \<and> cr_err r = None"
| "fed_worker _ \<longleftrightarrow> True"

definition feed_inv :: "nat \<times> cpool \<Rightarrow> bool" where
  [inv_defs]: "feed_inv = (\<lambda>(i, s).
     cpool_inv s \<and> accounted s = mset (map of_nat [1..<i]) \<and> listening s \<and> \<not> source_closed s \<and>
     length (cworkers s) = 2 \<and> 1 \<le> i \<and> (source s = [] \<or> 1 < i \<and> source s = [feed_job (i - 1)]) \<and>
     (\<forall>w \<in> set (cworkers s). fed_worker w \<and> (w = Gone \<longrightarrow> cancelled s)) \<and>
     (\<forall>r \<in> set (delivered s). cr_output r = ''done'' \<and> cr_err r = None))"

lemma feed_start_inv: "feed_inv feed_start"
  by (simp add: feed_inv_def feed_start_def run_cpool_start) (simp add: run_cpool_def)

lemma workers_update:
  "\<forall>w \<in> set ws. P w \<Longrightarrow> P v \<Longrightarrow> \<forall>w \<in> set (ws[i := v]). P w"
  using set_update_subset_insert [of ws i v] by auto

lemma fed_worker_step:
  assumes "worker_step k s t" "feed_inv (i, s)"
  shows "length (cworkers t) = 2 \<and> (source t = [] \<or> source t = source s) \<and>
    (\<forall>w \<in> set (cworkers t). fed_worker w \<and> (w = Gone \<longrightarrow> cancelled t)) \<and>
    (\<forall>r \<in> set (delivered t). cr_output r = ''done'' \<and> cr_err r = None)"
proof -
  let ?P = "\<lambda>c w. fed_worker w \<and> (w = Gone \<longrightarrow> c)"
  have ws: "\<forall>w \<in> set (cworkers s). ?P (cancelled s) w" "length (cworkers s) = 2"
    "\<forall>r \<in> set (delivered s). cr_output r = ''done'' \<and> cr_err r = None" "\<not> source_closed s"
    "source s = [] \<or> source s = [feed_job (i - 1)]"
    using assms(2) by (auto simp: feed_inv_def)
  have at: "j < 2 \<Longrightarrow> ?P (cancelled s) (cworkers s ! j)" for j using ws(1,2) nth_mem by metis
  from assms(1) show ?thesis
  proof (cases rule: worker_step.cases)
    case (take_job j js)
    then have "fed j" using ws(5) by (auto simp: feed_job_def fed_def)
    with take_job ws workers_update [OF ws(1), of "Running j" k] show ?thesis by auto
  next
    case intake_over
    then show ?thesis using ws(4) by simp
  next
    case ctx_done
    with ws workers_update [OF ws(1), of Gone k] show ?thesis by auto
  next
    case (processed j)
    then have "fed_worker (Running j)" using at [of k] ws(2) by simp
    then have "fed_worker (Sending (process (cancelled s) j))" by (simp add: fed_def process_def)
    with processed ws workers_update [OF ws(1), of "Sending (process (cancelled s) j)" k] show ?thesis by auto
  next
    case (deliver r)
    then have "fed_worker (Sending r)" using at [of k] ws(2) by simp
    with deliver ws workers_update [OF ws(1), of Ready k] show ?thesis by auto
  qed
qed

lemma feed_inv_step:
  assumes "feed_step p q" "feed_inv p"
  shows "feed_inv q"
  using assms
proof (induction rule: feed_step.induct)
  case (pool s t i)
  have frame: "cpool_inv t" "accounted t = accounted s" "listening t = listening s \<and> cancelled t = cancelled s \<and> source_closed t = source_closed s"
    using pool cpool_step_inv cpool_step_accounted cpool_step_frame by (auto simp: feed_inv_def)
  from pool.hyps show ?case
  proof (cases rule: cpool_step.cases)
    case (work k)
    show ?thesis using fed_worker_step [OF work pool.prems] frame pool.prems by (auto simp: feed_inv_def)
  qed (use frame pool.prems in \<open>auto simp: feed_inv_def\<close>)
next
  case (offer s i)
  then show ?case by (auto simp: feed_inv_def cpool_inv_def accounted_def feed_job_def atLeastLessThanSuc)
next
  case (timeout s i)
  then show ?case by (auto simp: feed_inv_def cpool_inv_def accounted_def)
qed

lemma feed_run: "feed_step\<^sup>*\<^sup>* feed_start p \<Longrightarrow> feed_inv p"
  by (induction rule: rtranclp_induct) (auto simp: feed_start_inv feed_inv_step)

text \<open>After the last line only the feeder can still move, to its next send.\<close>

lemma after_shutdown:
  assumes "feed_step (i, s) (j, t)" "feed_inv (i, s)" "drained s"
  shows "source s = [] \<and> t = s\<lparr>source := [feed_job i]\<rparr> \<and> j = i + 1"
proof -
  have gone: "list_all (\<lambda>w. w = Gone) (cworkers s)" "worker_done s" "final s = Closed"
    using assms(2,3) by (auto simp: feed_inv_def cpool_inv_def)
  then have "\<not> worker_step k s u" for k u using worker_live by (fastforce simp: list_all_length)
  then have "\<not> cpool_step s u" for u using gone(2,3) assms(3) by (auto elim!: cpool_stepE)
  moreover have "cworkers s \<noteq> []" using assms(2) by (auto simp: feed_inv_def)
  then have "cancelled s" using assms(2) gone(1) by (auto simp: feed_inv_def list_all_iff neq_Nil_conv)
  ultimately show ?thesis using assms(1) by (auto elim: feed_step.cases)
qed

lemma shutdown_run:
  assumes "feed_step\<^sup>*\<^sup>* (i, s) q" "feed_inv (i, s)" "drained s"
  shows "q = (i, s) \<or> source s = [] \<and> q = (i + 1, s\<lparr>source := [feed_job i]\<rparr>)"
  using assms(1)
proof (induction rule: rtranclp_induct)
  case (step u v)
  obtain j t where v: "v = (j, t)" by (cases v)
  from step.IH show ?case
  proof
    assume "u = (i, s)"
    then show ?thesis using after_shutdown [of i s j t] step.hyps(2) assms(2,3) v by simp
  next
    assume u: "source s = [] \<and> u = (i + 1, s\<lparr>source := [feed_job i]\<rparr>)"
    have "feed_inv u" using feed_inv_step [OF feed_step.offer, of s i] assms(2) u by simp
    then show ?thesis using after_shutdown [of "i + 1" "s\<lparr>source := [feed_job i]\<rparr>" j t] step.hyps(2) assms(3) u v by simp
  qed
qed simp

subsection \<open>Runs\<close>

definition done_result :: "nat \<Rightarrow> cresult" where
  "done_result i = \<lparr>cr_id = of_nat i, cr_output = ''done'', cr_err = None\<rparr>"

definition at_rest :: "bool \<Rightarrow> cresult list \<Rightarrow> cpool" where
  "at_rest c rs = (run_cpool [] 2)\<lparr>cancelled := c, delivered := rs\<rparr>"

lemma pool_moves: "worker_step k s t \<Longrightarrow> feed_step (i, s) (i, t)"
  by (intro feed_step.pool cpool_step.work)

lemma one_round: "feed_step\<^sup>*\<^sup>* (i, at_rest c rs) (i + 1, at_rest c (rs @ [done_result i]))"
proof -
  let ?s = "at_rest c rs"
  let ?w = "\<lambda>w. ?s\<lparr>source := [], cworkers := [w, Ready]\<rparr>"
  have ready: "cworkers ?s = [Ready, Ready]" "source ?s = []" "listening ?s"
    by (simp_all add: at_rest_def run_cpool_def numeral_2_eq_2)
  have 1: "feed_step (i, ?s) (i + 1, ?s\<lparr>source := [feed_job i]\<rparr>)" by (rule feed_step.offer) (rule ready)
  have 2: "feed_step (i + 1, ?s\<lparr>source := [feed_job i]\<rparr>) (i + 1, ?w (Running (feed_job i)))"
    using pool_moves [OF worker_step.take_job [of 0 "?s\<lparr>source := [feed_job i]\<rparr>" "feed_job i" "[]"]] by (simp add: ready)
  have 3: "feed_step (i + 1, ?w (Running (feed_job i))) (i + 1, ?w (Sending (done_result i)))"
    using pool_moves [OF worker_step.processed [of 0 "?w (Running (feed_job i))" "feed_job i"]]
    by (simp add: process_def feed_job_def done_result_def)
  have 4: "feed_step (i + 1, ?w (Sending (done_result i))) (i + 1, at_rest c (rs @ [done_result i]))"
    using pool_moves [OF worker_step.deliver [of 0 "?w (Sending (done_result i))" "done_result i"]]
    by (simp add: at_rest_def run_cpool_def numeral_2_eq_2)
  from 1 2 3 4 show ?thesis by (meson converse_rtranclp_into_rtranclp rtranclp.rtrancl_refl)
qed

lemma rounds: "feed_step\<^sup>*\<^sup>* (i, at_rest c rs) (i + n, at_rest c (rs @ map done_result [i..<i + n]))"
proof (induction n)
  case (Suc n)
  from rtranclp_trans [OF Suc one_round [of "i + n" c "rs @ map done_result [i..<i + n]"]] show ?case by simp
qed simp

text \<open>The select of a worker prefers neither case: any number of jobs can still be done after the context has
  run out.\<close>

lemma backlog_beats_cancellation:
  "\<exists>s. feed_step feed_start (1, s) \<and> cancelled s \<and> feed_step\<^sup>*\<^sup>* (1, s) (1 + n, s\<lparr>delivered := map done_result [1..<1 + n]\<rparr>)"
proof -
  have "feed_step feed_start (1, at_rest True [])"
    using feed_step.timeout [of "run_cpool [] 2" 1] by (simp add: feed_start_def at_rest_def run_cpool_def)
  moreover have "feed_step\<^sup>*\<^sup>* (1, at_rest True []) (1 + n, at_rest True (map done_result [1..<1 + n]))"
    using rounds [of 1 True "[]" n] by simp
  moreover have "at_rest True (map done_result [1..<1 + n]) = (at_rest True [])\<lparr>delivered := map done_result [1..<1 + n]\<rparr>"
    by (simp add: at_rest_def)
  ultimately show ?thesis by (intro exI [of _ "at_rest True []"]) (simp add: at_rest_def)
qed

definition shut_down :: "cresult list \<Rightarrow> cjob list \<Rightarrow> cpool" where
  "shut_down rs js =
     \<lparr>source = js, source_closed = False, cancelled = True, cworkers = [Gone, Gone], worker_done = True,
      final = Closed, listening = True, delivered = rs, drained = True\<rparr>"

lemma shutdown_reached: "feed_step\<^sup>*\<^sup>* feed_start (1 + n, shut_down (map done_result [1..<1 + n]) [])"
proof -
  let ?s = "at_rest True (map done_result [1..<1 + n])"
  let ?g = "?s\<lparr>cworkers := [Gone, Gone]\<rparr>" and ?i = "1 + n"
  have "feed_step\<^sup>*\<^sup>* feed_start (?i, at_rest False (map done_result [1..<1 + n]))"
    using rounds [of 1 False "[]" n] by (simp add: feed_start_def at_rest_def run_cpool_def)
  also have "feed_step (?i, at_rest False (map done_result [1..<1 + n])) (?i, ?s)"
    using feed_step.timeout [of "at_rest False (map done_result [1..<1 + n])"] by (simp add: at_rest_def run_cpool_def)
  also have "feed_step (?i, ?s) (?i, ?s\<lparr>cworkers := [Gone, Ready]\<rparr>)"
    using pool_moves [OF worker_step.ctx_done [of 0 ?s]] by (simp add: at_rest_def run_cpool_def numeral_2_eq_2)
  also have "feed_step (?i, ?s\<lparr>cworkers := [Gone, Ready]\<rparr>) (?i, ?g)"
    using pool_moves [OF worker_step.ctx_done [of 1 "?s\<lparr>cworkers := [Gone, Ready]\<rparr>"]]
    by (simp add: at_rest_def run_cpool_def)
  also have "feed_step (?i, ?g) (?i, ?g\<lparr>worker_done := True\<rparr>)"
    by (rule feed_step.pool, rule cpool_step.all_done) (simp_all add: at_rest_def run_cpool_def)
  also have "feed_step (?i, ?g\<lparr>worker_done := True\<rparr>) (?i, ?g\<lparr>worker_done := True, final := Closed\<rparr>)"
    using feed_step.pool [OF cpool_step.close_results [of "?g\<lparr>worker_done := True\<rparr>"]] by (simp add: at_rest_def run_cpool_def)
  also have "feed_step (?i, ?g\<lparr>worker_done := True, final := Closed\<rparr>) (?i, shut_down (map done_result [1..<1 + n]) [])"
    using feed_step.pool [OF cpool_step.range_over [of "?g\<lparr>worker_done := True, final := Closed\<rparr>"]]
    by (simp add: at_rest_def run_cpool_def shut_down_def)
  finally show ?thesis .
qed

subsection \<open>Properties\<close>

text \<open>C27: what \<^verbatim>\<open>main\<close> leaves behind.  When its last line (\<^verbatim>\<open>no leaked goroutines\<close>) comes, after any run, the
  workers have left, the printed results are the jobs fed so far, each once, done and without error, but for
  the one the feeder may be offering; and from then on the feeder either is on its way to its next send or
  blocks in it, and then no goroutine can ever move again: it leaks.\<close>

theorem feeder_leaks:
  assumes "feed_step\<^sup>*\<^sup>* feed_start (i, s)" "drained s" "feed_step\<^sup>*\<^sup>* (i, s) (j, t)"
  shows "list_all (\<lambda>w. w = Gone) (cworkers t) \<and> delivered t = delivered s \<and>
    mset (map cr_id (delivered t)) + mset (map cj_id (source t)) = mset (map of_nat [1..<j]) \<and>
    (\<forall>r \<in> set (delivered t). cr_output r = ''done'' \<and> cr_err r = None) \<and>
    (source t = [] \<or> source t = [feed_job (j - 1)] \<and> (\<nexists>u. feed_step (j, t) u))"
proof -
  have s: "feed_inv (i, s)" and t: "feed_inv (j, t)" using feed_run assms(1) rtranclp_trans [OF assms(1,3)] by blast+
  have same: "delivered t = delivered s" "drained t"
    using shutdown_run [OF assms(3) s assms(2)] assms(2) by auto
  have gone: "list_all (\<lambda>w. w = Gone) (cworkers t)" using t same(2) by (auto simp: feed_inv_def cpool_inv_def)
  then have "mset (map cr_id (delivered t)) + mset (map cj_id (source t)) = mset (map of_nat [1..<j])"
    using t underway_gone [OF gone] by (simp add: feed_inv_def accounted_def)
  moreover have "source t = [] \<or> source t = [feed_job (j - 1)] \<and> (\<nexists>u. feed_step (j, t) u)"
    using t after_shutdown [of j t _ _, OF _ t same(2)] by (auto simp: feed_inv_def)
  ultimately show ?thesis using gone same(1) t by (auto simp: feed_inv_def)
qed

theorem feeder_leaks_witness:
  "\<exists>t. feed_step\<^sup>*\<^sup>* feed_start (3, t) \<and> drained t \<and> delivered t = [done_result 1] \<and> (\<nexists>u. feed_step (3, t) u)"
proof -
  let ?s = "shut_down [done_result 1] []" and ?t = "shut_down [done_result 1] [feed_job 2]"
  have s: "feed_step\<^sup>*\<^sup>* feed_start (2, ?s)" using shutdown_reached [of 1] by (simp add: numeral_2_eq_2)
  have "feed_step (2, ?s) (3, ?t)"
    using feed_step.offer [of ?s 2] by (simp add: shut_down_def)
  then have t: "feed_step\<^sup>*\<^sup>* (2, ?s) (3, ?t)" by (rule r_into_rtranclp)
  have "drained ?s" by (simp add: shut_down_def)
  from feeder_leaks [OF s this t] have "\<nexists>u. feed_step (3, ?t) u" by (simp add: shut_down_def)
  then show ?thesis using rtranclp_trans [OF s t] by (intro exI [of _ ?t]) (simp add: shut_down_def)
qed

end
