(* ===== verification/Intake.thy ===== *)
theory Intake
  imports Prelude
begin

text \<open>
  The bounded intake that the stages \<^verbatim>\<open>04-backpressure\<close> and \<^verbatim>\<open>05-jobprocessor\<close> of
  \<^verbatim>\<open>08-concurrency/examples\<close> share: a queue of fixed depth that sheds load, workers that select
  between the queue and the context, and \<^verbatim>\<open>Stop\<close>.  The two processors extend its record; what
  their workers hold is a parameter.
\<close>

subsection \<open>The intake\<close>

text \<open>\<^verbatim>\<open>uncounted\<close> is the number of submitters between their send and \<^verbatim>\<open>accepted.Add(1)\<close>.\<close>

record ('j, 'w) intake =
  queue :: "'j list"
  depth :: nat
  closed :: bool
  cancelled :: bool
  workers :: "'w list"
  accepted :: int64
  rejected :: int64
  uncounted :: nat

datatype submit_result = Accepted | Overloaded | Panicked

text \<open>\<^verbatim>\<open>Submit\<close> up to its counter: a send that never waits.  On a queue without slots it can only hand
  the job to a worker \<open>h\<close> that waits for one; on a closed queue it panics.\<close>

definition submit ::
  "'w \<Rightarrow> ('j \<Rightarrow> 'w) \<Rightarrow> nat option \<Rightarrow> 'j \<Rightarrow> ('j, 'w, 'm) intake_scheme \<Rightarrow> submit_result \<times> ('j, 'w, 'm) intake_scheme" where
  "submit idle busy h j s =
     (if closed s then (Panicked, s)
      else if length (queue s) < depth s
      then (Accepted, s\<lparr>queue := queue s @ [j], uncounted := uncounted s + 1\<rparr>)
      else case h of
          None \<Rightarrow> (Overloaded, s\<lparr>rejected := rejected s + 1\<rparr>)
        | Some i \<Rightarrow>
            if depth s = 0 \<and> i < length (workers s) \<and> workers s ! i = idle
            then (Accepted, s\<lparr>workers := (workers s)[i := busy j], uncounted := uncounted s + 1\<rparr>)
            else (Overloaded, s\<lparr>rejected := rejected s + 1\<rparr>))"

definition count_accepted :: "('j, 'w, 'm) intake_scheme \<Rightarrow> ('j, 'w, 'm) intake_scheme option" where
  "count_accepted s =
     (if uncounted s = 0 then None
      else Some (s\<lparr>uncounted := uncounted s - 1, accepted := accepted s + 1\<rparr>))"

text \<open>The two cases of a worker's select: a job, or the end (of the queue or of the context).\<close>

definition take_next ::
  "'w \<Rightarrow> ('j \<Rightarrow> 'w) \<Rightarrow> nat \<Rightarrow> ('j, 'w, 'm) intake_scheme \<Rightarrow> ('j, 'w, 'm) intake_scheme option" where
  "take_next idle busy i s =
     (case queue s of
        [] \<Rightarrow> None
      | j # js \<Rightarrow>
          if i < length (workers s) \<and> workers s ! i = idle
          then Some (s\<lparr>queue := js, workers := (workers s)[i := busy j]\<rparr>) else None)"

definition leave ::
  "'w \<Rightarrow> 'w \<Rightarrow> nat \<Rightarrow> ('j, 'w, 'm) intake_scheme \<Rightarrow> ('j, 'w, 'm) intake_scheme option" where
  "leave idle gone i s =
     (if i < length (workers s) \<and> workers s ! i = idle \<and> (queue s = [] \<and> closed s \<or> cancelled s)
      then Some (s\<lparr>workers := (workers s)[i := gone]\<rparr>) else None)"

text \<open>\<^verbatim>\<open>Stop\<close> closes the intake (twice is a panic) and returns once every worker has left.\<close>

definition stop :: "('j, 'w, 'm) intake_scheme \<Rightarrow> ('j, 'w, 'm) intake_scheme option" where
  "stop s = (if closed s then None else Some (s\<lparr>closed := True\<rparr>))"

definition cancel :: "('j, 'w, 'm) intake_scheme \<Rightarrow> ('j, 'w, 'm) intake_scheme" where
  "cancel s = s\<lparr>cancelled := True\<rparr>"

subsection \<open>What the intake promises its workers\<close>

text \<open>The interface: an idle worker carries nothing, one that has taken a job carries one, one that
  has left nothing, and leaving is for good.\<close>

locale carrier =
  fixes idle :: "'w" and busy :: "'j \<Rightarrow> 'w" and gone :: "'w" and load :: "'w \<Rightarrow> nat"
  assumes load_idle: "load idle = 0"
    and load_busy: "load (busy j) = 1"
    and load_gone: "load gone = 0"
    and idle_not_gone: "idle \<noteq> gone"
    and busy_not_gone: "busy j \<noteq> gone"
begin

text \<open>The accepted jobs that are still queued or carried, less those counted.\<close>

definition open_jobs :: "('j, 'w, 'm) intake_scheme \<Rightarrow> int64" where
  "open_jobs s = of_nat (length (queue s) + sum_list (map load (workers s))) - accepted s - of_nat (uncounted s)"

definition bounded :: "('j, 'w, 'm) intake_scheme \<Rightarrow> bool" where
  "bounded s \<longleftrightarrow> length (queue s) \<le> depth s"

lemma load_update:
  "i < length ws \<Longrightarrow> sum_list (map load (ws[i := w])) + load (ws ! i) = sum_list (map load ws) + load w"
  by (rule sum_list_map_update)

lemma submit_keeps:
  assumes "submit idle busy h j s = (r, t)"
  shows "open_jobs t = open_jobs s \<and> (bounded s \<longrightarrow> bounded t) \<and> depth t = depth s \<and>
    length (workers t) = length (workers s)"
proof (cases h)
  case None
  then show ?thesis using assms by (auto simp: submit_def open_jobs_def bounded_def split: if_splits)
next
  case (Some i)
  then show ?thesis using assms load_update [of i "workers s" "busy j"]
    by (auto simp: submit_def open_jobs_def bounded_def load_idle load_busy split: if_splits)
qed

lemma count_keeps:
  "count_accepted s = Some t \<Longrightarrow> open_jobs t = open_jobs s \<and> (bounded s \<longrightarrow> bounded t) \<and> depth t = depth s \<and>
    workers t = workers s"
  by (cases "uncounted s") (auto simp: count_accepted_def open_jobs_def bounded_def)

lemma take_keeps:
  assumes "take_next idle busy i s = Some t"
  shows "open_jobs t = open_jobs s \<and> (bounded s \<longrightarrow> bounded t) \<and> depth t = depth s \<and>
    length (workers t) = length (workers s)"
proof -
  obtain j js where q: "queue s = j # js" using assms by (auto simp: take_next_def split: list.splits)
  show ?thesis using assms q load_update [of i "workers s" "busy j"]
    by (auto simp: take_next_def open_jobs_def bounded_def load_idle load_busy split: if_splits)
qed

lemma leave_keeps:
  assumes "leave idle gone i s = Some t"
  shows "open_jobs t = open_jobs s \<and> (bounded s \<longrightarrow> bounded t) \<and> depth t = depth s \<and>
    length (workers t) = length (workers s)"
  using assms load_update [of i "workers s" gone]
  by (auto simp: leave_def open_jobs_def bounded_def load_idle load_gone split: if_splits)

text \<open>A worker leaves only when the context or the queue is at its end.\<close>

definition settled :: "('j, 'w, 'm) intake_scheme \<Rightarrow> bool" where
  "settled s \<longleftrightarrow> (gone \<in> set (workers s) \<longrightarrow> cancelled s \<or> closed s \<and> queue s = [])"

lemma gone_update: "gone \<in> set (ws[i := w]) \<Longrightarrow> w \<noteq> gone \<Longrightarrow> gone \<in> set ws"
  using set_update_subset_insert [of ws i w] by auto

lemma submit_settled: "submit idle busy h j s = (r, t) \<Longrightarrow> settled s \<Longrightarrow> settled t"
  by (auto simp: submit_def settled_def dest: gone_update [OF _ busy_not_gone] split: if_splits option.splits)

lemma count_settled: "count_accepted s = Some t \<Longrightarrow> settled s \<Longrightarrow> settled t"
  by (auto simp: count_accepted_def settled_def split: if_splits)

lemma take_settled: "take_next idle busy i s = Some t \<Longrightarrow> settled s \<Longrightarrow> settled t"
  by (auto simp: take_next_def settled_def dest: gone_update [OF _ busy_not_gone] split: if_splits list.splits)

lemma leave_settled: "leave idle gone i s = Some t \<Longrightarrow> settled s \<Longrightarrow> settled t"
  by (auto simp: leave_def settled_def split: if_splits)

lemma stop_settled: "stop s = Some t \<Longrightarrow> settled s \<Longrightarrow> settled t"
  by (auto simp: stop_def settled_def split: if_splits)

text \<open>After \<^verbatim>\<open>Stop\<close> an idle worker can always go on.\<close>

lemma idle_moves:
  assumes "closed s" "i < length (workers s)" "workers s ! i = idle"
  shows "(\<exists>t. take_next idle busy i s = Some t) \<or> (\<exists>t. leave idle gone i s = Some t)"
  using assms by (cases "queue s") (simp_all add: take_next_def leave_def)

text \<open>When everyone has left a stopped, not cancelled intake, no job is left open.\<close>

lemma all_gone_empty:
  assumes "settled s" "list_all (\<lambda>w. w = gone) (workers s)" "workers s \<noteq> []" "\<not> cancelled s"
  shows "queue s = []" "sum_list (map load (workers s)) = 0"
proof -
  have "gone \<in> set (workers s)" using assms(2,3) by (cases "workers s") auto
  then show "queue s = []" using assms(1,4) by (simp add: settled_def)
  have "map load (workers s) = map (\<lambda>w. 0) (workers s)"
    using assms(2) load_gone by (auto simp: list_all_iff)
  then show "sum_list (map load (workers s)) = 0" by simp
qed

end

end
