(* ===== verification/Backpressure.thy ===== *)
theory Backpressure
  imports Intake
begin

text \<open>
  The fourth stage of \<^verbatim>\<open>08-concurrency/examples\<close>, \<^verbatim>\<open>04-backpressure\<close>: workers on a bounded
  intake that sheds load, with the counters of \<^verbatim>\<open>Snapshot\<close>.
\<close>

subsection \<open>The processor\<close>

datatype slot = Idle | Busy string | Gone

record processor = "(string, slot) intake" +
  processed :: int64

text \<open>\<^verbatim>\<open>New\<close> and \<^verbatim>\<open>Start\<close>: a job is known by its name; a negative depth makes \<^verbatim>\<open>make\<close> panic.\<close>

definition start :: "int64 \<Rightarrow> int64 \<Rightarrow> processor option" where
  "start n queue_depth =
     (if sint queue_depth < 0 then None
      else Some \<lparr>queue = [], depth = nat (sint queue_depth), closed = False, cancelled = False,
                 workers = replicate (nat (sint n)) Idle, accepted = 0, rejected = 0, uncounted = 0,
                 processed = 0\<rparr>)"

definition finish_job :: "nat \<Rightarrow> processor \<Rightarrow> processor option" where
  "finish_job i p =
     (if i < length (workers p)
      then case workers p ! i of
          Busy j \<Rightarrow> Some (p\<lparr>processed := processed p + 1, workers := (workers p)[i := Idle]\<rparr>)
        | _ \<Rightarrow> None
      else None)"

definition snapshot :: "processor \<Rightarrow> int64 \<times> int64 \<times> int64" where
  "snapshot p = (accepted p, rejected p, processed p)"

text \<open>What the goroutines of the processor do, and what its callers do.\<close>

inductive work_step :: "processor \<Rightarrow> processor \<Rightarrow> bool" where
  take: "take_next Idle Busy i p = Some q \<Longrightarrow> work_step p q"
| finish: "finish_job i p = Some q \<Longrightarrow> work_step p q"
| leave: "leave Idle Gone i p = Some q \<Longrightarrow> work_step p q"
| count: "count_accepted p = Some q \<Longrightarrow> work_step p q"

inductive call_step :: "processor \<Rightarrow> processor \<Rightarrow> bool" where
  submit: "submit Idle Busy h j p = (r, q) \<Longrightarrow> r \<noteq> Panicked \<Longrightarrow> call_step p q"
| stop: "stop p = Some q \<Longrightarrow> call_step p q"
| cancel: "call_step p (cancel p)"

definition step :: "processor \<Rightarrow> processor \<Rightarrow> bool" where
  "step p q \<longleftrightarrow> work_step p q \<or> call_step p q"

subsection \<open>Lemmas\<close>

fun slot_load :: "slot \<Rightarrow> nat" where
  "slot_load (Busy j) = 1"
| "slot_load _ = 0"

interpretation bp: carrier Idle Busy Gone slot_load
  by unfold_locales simp_all

definition busy_workers :: "processor \<Rightarrow> nat" where
  "busy_workers p = length (filter (\<lambda>w. w \<noteq> Idle \<and> w \<noteq> Gone) (workers p))"

lemma load_busy_workers: "sum_list (map slot_load ws) = length (filter (\<lambda>w. w \<noteq> Idle \<and> w \<noteq> Gone) ws)"
proof (induction ws)
  case (Cons w ws)
  then show ?case by (cases w) simp_all
qed simp

text \<open>The jobs taken in are processed or still open; the queue never exceeds its depth.\<close>

definition proc_inv :: "nat \<Rightarrow> nat \<Rightarrow> processor \<Rightarrow> bool" where
  [inv_defs]: "proc_inv n d p \<longleftrightarrow>
     processed p + bp.open_jobs p = 0 \<and> bp.bounded p \<and> bp.settled p \<and> depth p = d \<and> length (workers p) = n"

lemma take_processed: "take_next Idle Busy i p = Some q \<Longrightarrow> processed q = processed p"
  by (auto simp: take_next_def split: list.splits if_splits)

lemma leave_processed: "leave Idle Gone i p = Some q \<Longrightarrow> processed q = processed p"
  by (auto simp: leave_def split: if_splits)

lemma count_processed: "count_accepted p = Some q \<Longrightarrow> processed q = processed p"
  by (auto simp: count_accepted_def split: if_splits)

lemma submit_processed: "submit Idle Busy h j p = (r, q) \<Longrightarrow> processed q = processed p"
  by (auto simp: submit_def split: if_splits option.splits)

lemma finish_inv:
  assumes "finish_job i p = Some q" "proc_inv n d p"
  shows "proc_inv n d q"
proof -
  obtain j where j: "i < length (workers p)" "workers p ! i = Busy j"
    "q = p\<lparr>processed := processed p + 1, workers := (workers p)[i := Idle]\<rparr>"
    using assms(1) by (auto simp: finish_job_def split: if_splits slot.splits)
  have "sum_list (map slot_load (workers p)) = sum_list (map slot_load ((workers p)[i := Idle])) + 1"
    using bp.load_update [OF j(1), of Idle] j(2) by simp
  then have "processed q + bp.open_jobs q = processed p + bp.open_jobs p"
    unfolding j(3) bp.open_jobs_def by (simp add: algebra_simps)
  moreover have "bp.settled q"
    using assms(2) bp.gone_update [of "workers p" i Idle] by (auto simp: proc_inv_def bp.settled_def j(3))
  ultimately show ?thesis using assms(2) unfolding proc_inv_def by (simp add: j(3) bp.bounded_def)
qed

lemma step_inv:
  assumes "step p q" "proc_inv n d p"
  shows "proc_inv n d q"
proof -
  from assms(1) consider "work_step p q" | "call_step p q" unfolding step_def by blast
  then show ?thesis
  proof cases
    case 1
    then show ?thesis
    proof cases
      case (take i)
      with assms(2) bp.take_keeps bp.take_settled take_processed show ?thesis unfolding proc_inv_def by metis
    next
      case (finish i)
      then show ?thesis using assms(2) by (rule finish_inv)
    next
      case (leave i)
      with assms(2) bp.leave_keeps bp.leave_settled leave_processed show ?thesis unfolding proc_inv_def by metis
    next
      case count
      with assms(2) bp.count_keeps bp.count_settled count_processed show ?thesis unfolding proc_inv_def by metis
    qed
  next
    case 2
    then show ?thesis
    proof cases
      case (submit h j r)
      with assms(2) bp.submit_keeps bp.submit_settled submit_processed show ?thesis unfolding proc_inv_def by metis
    qed (use assms(2) in \<open>auto simp: proc_inv_def bp.open_jobs_def bp.bounded_def bp.settled_def stop_def cancel_def split: if_splits\<close>)
  qed
qed

lemma start_inv: "start n d = Some p \<Longrightarrow> proc_inv (nat (sint n)) (nat (sint d)) p"
  by (auto simp: start_def proc_inv_def bp.open_jobs_def bp.bounded_def bp.settled_def sum_list_replicate split: if_splits)

lemma run_inv:
  assumes "start n d = Some p" "step\<^sup>*\<^sup>* p q"
  shows "proc_inv (nat (sint n)) (nat (sint d)) q"
  using assms(2) by (induction rule: rtranclp_induct) (use start_inv [OF assms(1)] step_inv in blast)+

text \<open>Termination: every step of the goroutines uses up work.\<close>

fun slot_work :: "slot \<Rightarrow> nat" where
  "slot_work Idle = 1"
| "slot_work (Busy j) = 2"
| "slot_work Gone = 0"

definition proc_work :: "processor \<Rightarrow> nat" where
  "proc_work p = 2 * length (queue p) + sum_list (map slot_work (workers p)) + uncounted p"

lemma work_step_less: "work_step p q \<Longrightarrow> proc_work q < proc_work p"
proof (induction rule: work_step.induct)
  case (take i p q)
  then obtain j js where "queue p = j # js" by (auto simp: take_next_def split: list.splits)
  with take show ?case using sum_list_map_update [of i "workers p" slot_work "Busy j"]
    by (auto simp: take_next_def proc_work_def split: if_splits)
next
  case (finish i p q)
  then show ?case using sum_list_map_update [of i "workers p" slot_work Idle]
    by (auto simp: finish_job_def proc_work_def split: slot.splits if_splits)
next
  case (leave i p q)
  then show ?case using sum_list_map_update [of i "workers p" slot_work Gone]
    by (auto simp: leave_def proc_work_def split: if_splits)
next
  case (count p q)
  then show ?case by (auto simp: count_accepted_def proc_work_def split: if_splits)
qed

lemma work_steps_bound: "(work_step ^^ k) p q \<Longrightarrow> k + proc_work q \<le> proc_work p"
proof (induction k arbitrary: q)
  case (Suc k)
  then obtain u where "(work_step ^^ k) p u" "work_step u q" by auto
  with Suc.IH [of u] work_step_less [of u q] show ?case by linarith
qed simp

lemma work_step_frame:
  "work_step p q \<Longrightarrow> closed q = closed p \<and> cancelled q = cancelled p \<and> rejected q = rejected p"
  by (induction rule: work_step.induct)
    (auto simp: take_next_def finish_job_def leave_def count_accepted_def split: list.splits slot.splits if_splits)

lemma work_steps_frame: "work_step\<^sup>*\<^sup>* p q \<Longrightarrow> closed q = closed p \<and> cancelled q = cancelled p"
  by (induction rule: rtranclp_induct) (auto dest: work_step_frame)

lemma slot_moves:
  assumes "closed p" "i < length (workers p)" "workers p ! i \<noteq> Gone"
  shows "\<exists>q. work_step p q"
proof (cases "workers p ! i")
  case Idle
  then show ?thesis using bp.idle_moves [OF assms(1,2)] work_step.take work_step.leave by blast
next
  case (Busy j)
  then have "\<exists>q. finish_job i p = Some q" using assms(2) by (simp add: finish_job_def)
  then show ?thesis using work_step.finish by blast
qed (use assms(3) in simp)

lemma work_stuck:
  assumes "closed p" "\<nexists>q. work_step p q"
  shows "list_all (\<lambda>w. w = Gone) (workers p)" "uncounted p = 0"
proof -
  show "list_all (\<lambda>w. w = Gone) (workers p)"
    unfolding list_all_length using slot_moves [OF assms(1)] assms(2) by blast
  show "uncounted p = 0"
    using assms(2) work_step.count [of p] by (cases "uncounted p = 0") (auto simp: count_accepted_def)
qed

subsection \<open>Properties\<close>

text \<open>C29: memory stays bounded and the counters account for every job.  In every reachable state the
queue holds at most its depth and the workers at most one job each, and the jobs whose submission
succeeded (counted, or on the way to the counter) are those processed, queued and in work, up to
the wrap-around of the 64-bit counters.\<close>

theorem load_bounded:
  assumes "start n d = Some p" "step\<^sup>*\<^sup>* p q"
  shows "length (queue q) \<le> nat (sint d) \<and> length (queue q) + busy_workers q \<le> nat (sint d) + nat (sint n) \<and>
    accepted q + of_nat (uncounted q) = processed q + of_nat (length (queue q) + busy_workers q)"
proof -
  have inv: "proc_inv (nat (sint n)) (nat (sint d)) q" using assms by (rule run_inv)
  have "busy_workers q \<le> nat (sint n)"
    using inv length_filter_le [of _ "workers q"] by (simp add: busy_workers_def proc_inv_def)
  moreover have "length (queue q) \<le> nat (sint d)" using inv by (simp add: proc_inv_def bp.bounded_def)
  moreover have "processed q + bp.open_jobs q = 0" using inv by (simp add: proc_inv_def)
  then have "accepted q + of_nat (uncounted q) = processed q + of_nat (length (queue q) + busy_workers q)"
    unfolding bp.open_jobs_def load_busy_workers busy_workers_def by (simp add: algebra_simps)
  ultimately show ?thesis by linarith
qed

definition demo :: processor where
  "demo = \<lparr>queue = [''a''], depth = 1, closed = False, cancelled = False, workers = [Idle], accepted = 0,
           rejected = 0, uncounted = 1, processed = 0\<rparr>"

lemma demo_reached: "\<exists>p. start 1 1 = Some p \<and> step p demo"
  by (auto simp: start_def step_def demo_def submit_def intro!: disjI2 call_step.submit [of None "''a''" _ Accepted])

theorem load_bounded_witness: "length (queue demo) + busy_workers demo \<le> 2"
proof -
  obtain p where p: "start 1 1 = Some p" "step p demo" using demo_reached by blast
  from load_bounded [OF p(1) r_into_rtranclp, OF p(2)] show ?thesis by simp
qed

text \<open>\<^verbatim>\<open>Stop\<close> drains.  Once the intake is closed and unless the context is cancelled, the
goroutines take finitely many further steps, in any order; when none is left every worker has
returned (so \<^verbatim>\<open>Stop\<close> returns), the queue is empty, and accepted equals processed.\<close>

theorem stop_drains:
  assumes "start n d = Some p" "0 < sint n" "step\<^sup>*\<^sup>* p q" "closed q" "\<not> cancelled q"
    and "(work_step ^^ k) q r"
  shows "k \<le> proc_work q \<and>
    ((\<nexists>t. work_step r t) \<longrightarrow>
       queue r = [] \<and> list_all (\<lambda>w. w = Gone) (workers r) \<and> accepted r = processed r)"
proof (intro conjI impI)
  show "k \<le> proc_work q" using work_steps_bound [OF assms(6)] by simp
  have qr: "work_step\<^sup>*\<^sup>* q r" using assms(6) by (rule relpowp_imp_rtranclp)
  then have "step\<^sup>*\<^sup>* q r" by (rule rtranclp_mono [THEN predicate2D, rotated]) (auto simp: step_def)
  with assms(3) have "step\<^sup>*\<^sup>* p r" by (rule rtranclp_trans)
  with assms(1) have inv: "proc_inv (nat (sint n)) (nat (sint d)) r" by (rule run_inv)
  assume stuck: "\<nexists>t. work_step r t"
  have r: "closed r" "\<not> cancelled r" using work_steps_frame [OF qr] assms(4,5) by blast+
  have gone: "list_all (\<lambda>w. w = Gone) (workers r)" and un: "uncounted r = 0"
    using work_stuck [OF r(1) stuck] by blast+
  from gone show "list_all (\<lambda>w. w = Gone) (workers r)" .
  have "length (workers r) = nat (sint n)" using inv by (simp add: proc_inv_def)
  then have "workers r \<noteq> []" using assms(2) by auto
  moreover have "bp.settled r" using inv by (simp add: proc_inv_def)
  ultimately have e: "queue r = []" "sum_list (map slot_load (workers r)) = 0"
    using bp.all_gone_empty gone r(2) by blast+
  then show "queue r = []" by blast
  have "processed r + bp.open_jobs r = 0" using inv by (simp add: proc_inv_def)
  then show "accepted r = processed r" by (simp add: bp.open_jobs_def e un)
qed

theorem stop_drains_witness:
  "let r = demo\<lparr>queue := [], closed := True, workers := [Gone], accepted := 1, uncounted := 0, processed := 1\<rparr>
   in work_step\<^sup>*\<^sup>* (demo\<lparr>closed := True\<rparr>) r \<and> accepted r = processed r"
proof -
  let ?q = "demo\<lparr>closed := True\<rparr>"
  let ?q1 = "?q\<lparr>accepted := 1, uncounted := 0\<rparr>"
  let ?q2 = "?q1\<lparr>queue := [], workers := [Busy ''a'']\<rparr>"
  let ?q3 = "?q2\<lparr>processed := 1, workers := [Idle]\<rparr>"
  let ?r = "demo\<lparr>queue := [], closed := True, workers := [Gone], accepted := 1, uncounted := 0, processed := 1\<rparr>"
  have "work_step ?q ?q1" by (rule work_step.count) (simp add: count_accepted_def demo_def)
  moreover have "work_step ?q1 ?q2" by (rule work_step.take [of 0]) (simp add: take_next_def demo_def)
  moreover have "work_step ?q2 ?q3" by (rule work_step.finish [of 0]) (simp add: finish_job_def demo_def)
  moreover have "work_step ?q3 ?r" by (rule work_step.leave [of 0]) (simp add: leave_def demo_def)
  ultimately have run: "work_step\<^sup>*\<^sup>* ?q ?r" by (meson converse_rtranclp_into_rtranclp rtranclp.rtrancl_refl)
  then obtain k where k: "(work_step ^^ k) ?q ?r" by (auto dest: rtranclp_imp_relpowp)
  have stuck: "\<nexists>t. work_step ?r t"
    by (auto elim!: work_step.cases
        simp: demo_def take_next_def finish_job_def leave_def count_accepted_def split: if_splits)
  obtain p where p: "start 1 1 = Some p" "step p demo" using demo_reached by blast
  have "step demo ?q" by (auto simp: step_def stop_def demo_def intro: call_step.stop)
  with p(2) have reach: "step\<^sup>*\<^sup>* p ?q" by (meson converse_rtranclp_into_rtranclp rtranclp.rtrancl_refl)
  have "closed ?q" "\<not> cancelled ?q" by (simp_all add: demo_def)
  from conjunct2 [OF stop_drains [OF p(1) _ reach this k]] stuck have "accepted ?r = processed ?r" by simp
  with run show ?thesis unfolding Let_def by blast
qed

end
