(* ===== verification/Backpressure_Main.thy ===== *)
theory Backpressure_Main
  imports Backpressure
begin

text \<open>
  \<^verbatim>\<open>main\<close> of \<^verbatim>\<open>08-concurrency/examples/04-backpressure\<close>: twenty jobs for two workers and four slots, then
  \<^verbatim>\<open>Stop\<close> and \<^verbatim>\<open>Snapshot\<close>, interleaved with the workers.
\<close>

subsection \<open>The program\<close>

text \<open>Where \<^verbatim>\<open>main\<close> is: at a submission, between its send and its counter, in \<^verbatim>\<open>Stop\<close>, or done.\<close>

datatype main_pc = Submitting nat | Counting nat | Draining | Printed "int64 \<times> int64 \<times> int64"

definition main_job :: "nat \<Rightarrow> string" where
  "main_job i = ''job-'' @ int_text (int i)"

inductive main_step :: "main_pc \<times> processor \<Rightarrow> main_pc \<times> processor \<Rightarrow> bool" where
  worker: "work_step p q \<Longrightarrow> uncounted q = uncounted p \<Longrightarrow> main_step (pc, p) (pc, q)"
| send: "i < 20 \<Longrightarrow> submit Idle Busy h (main_job i) p = (Accepted, q) \<Longrightarrow> main_step (Submitting i, p) (Counting i, q)"
| shed: "i < 20 \<Longrightarrow> submit Idle Busy h (main_job i) p = (Overloaded, q) \<Longrightarrow> main_step (Submitting i, p) (Submitting (i + 1), q)"
| add: "count_accepted p = Some q \<Longrightarrow> main_step (Counting i, p) (Submitting (i + 1), q)"
| stop: "stop p = Some q \<Longrightarrow> main_step (Submitting 20, p) (Draining, q)"
| wait: "list_all (\<lambda>w. w = Gone) (workers p) \<Longrightarrow> main_step (Draining, p) (Printed (snapshot p), p)"

subsection \<open>Invariant\<close>

text \<open>Of the submissions so far \<open>a\<close> were accepted, the rest rejected, and that only with a full queue of
  accepted jobs.\<close>

definition tally :: "nat \<Rightarrow> nat \<Rightarrow> processor \<Rightarrow> bool" where
  "tally i a p \<longleftrightarrow>
     a \<le> i \<and> accepted p = of_nat a \<and> rejected p = of_nat (i - a) \<and> (i = a \<or> 4 \<le> a) \<and>
     length (queue p) + sum_list (map slot_load (workers p)) \<le> a + uncounted p"

fun at_pc :: "main_pc \<Rightarrow> processor \<Rightarrow> bool" where
  "at_pc (Submitting i) p \<longleftrightarrow> i \<le> 20 \<and> (\<exists>a. tally i a p) \<and> uncounted p = 0 \<and> \<not> closed p"
| "at_pc (Counting i) p \<longleftrightarrow> i < 20 \<and> (\<exists>a. tally i a p) \<and> uncounted p = 1 \<and> \<not> closed p"
| "at_pc Draining p \<longleftrightarrow> (\<exists>a. tally 20 a p) \<and> uncounted p = 0 \<and> closed p"
| "at_pc (Printed s) p \<longleftrightarrow> s = snapshot p \<and> (\<exists>a. tally 20 a p \<and> processed p = of_nat a) \<and> list_all (\<lambda>w. w = Gone) (workers p)"

definition main_inv :: "main_pc \<times> processor \<Rightarrow> bool" where
  [inv_defs]: "main_inv = (\<lambda>(pc, p). proc_inv 2 4 p \<and> \<not> cancelled p \<and> at_pc pc p)"

lemma slot_load_update:
  "i < length ws \<Longrightarrow> sum_list (map slot_load (ws[i := w])) + slot_load (ws ! i) = sum_list (map slot_load ws) + slot_load w"
  by (rule bp.load_update)

lemma worker_tally:
  assumes "work_step p q" "uncounted q = uncounted p" "tally i a p"
  shows "tally i a q"
  using assms
proof (induction rule: work_step.induct)
  case (take k p q)
  then obtain j js where "queue p = j # js" by (auto simp: take_next_def split: list.splits)
  with take show ?case using slot_load_update [of k "workers p" "Busy j"]
    by (auto simp: take_next_def tally_def split: if_splits)
next
  case (finish k p q)
  then obtain j where "k < length (workers p)" "workers p ! k = Busy j"
    by (auto simp: finish_job_def split: if_splits slot.splits)
  with finish show ?case using slot_load_update [of k "workers p" Idle]
    by (auto simp: finish_job_def tally_def)
next
  case (leave k p q)
  then show ?case using slot_load_update [of k "workers p" Gone]
    by (auto simp: leave_def tally_def split: if_splits)
qed (auto simp: count_accepted_def split: if_splits)

lemma all_gone_stuck: "work_step p q \<Longrightarrow> uncounted q = uncounted p \<Longrightarrow> \<not> list_all (\<lambda>w. w = Gone) (workers p)"
  by (induction rule: work_step.induct)
    (auto simp: take_next_def finish_job_def leave_def count_accepted_def list_all_length split: list.splits slot.splits if_splits)

lemma worker_pc:
  assumes "work_step p q" "uncounted q = uncounted p" "at_pc pc p"
  shows "at_pc pc q"
  using assms worker_tally [OF assms(1,2)] work_step_frame [OF assms(1)] all_gone_stuck [OF assms(1,2)]
  by (cases pc) auto

lemma submit_effect:
  assumes "submit Idle Busy h j p = (r, q)" "depth p = 4" "\<not> closed p"
  shows "if length (queue p) < 4 then r = Accepted \<and> q = p\<lparr>queue := queue p @ [j], uncounted := uncounted p + 1\<rparr>
    else r = Overloaded \<and> q = p\<lparr>rejected := rejected p + 1\<rparr>"
  using assms by (auto simp: submit_def split: option.splits if_splits)

lemma main_inv_step:
  assumes "main_step s t" "main_inv s"
  shows "main_inv t"
  using assms
proof (induction rule: main_step.induct)
  case (worker p q pc)
  then have "step p q" by (simp add: step_def)
  with worker show ?case using step_inv [of p q] worker_pc [of p q pc] work_step_frame [of p q] by (simp add: main_inv_def)
next
  case (send i h p q)
  then have "step p q" by (auto simp: step_def intro: call_step.submit)
  then have "proc_inv 2 4 q" using send step_inv [of p q] by (simp add: main_inv_def)
  moreover have "length (queue p) < 4 \<and> q = p\<lparr>queue := queue p @ [main_job i], uncounted := uncounted p + 1\<rparr>"
    using submit_effect [OF send(2)] send(3) by (auto simp: main_inv_def proc_inv_def split: if_splits)
  ultimately show ?case using send by (auto simp: main_inv_def tally_def)
next
  case (shed i h p q)
  then have "step p q" by (auto simp: step_def intro: call_step.submit)
  then have "proc_inv 2 4 q" using shed step_inv [of p q] by (simp add: main_inv_def)
  moreover have q: "4 \<le> length (queue p) \<and> q = p\<lparr>rejected := rejected p + 1\<rparr>"
    using submit_effect [OF shed(2)] shed(3) by (auto simp: main_inv_def proc_inv_def split: if_splits)
  moreover obtain a where a: "tally i a p" "uncounted p = 0" using shed(3) by (auto simp: main_inv_def)
  then have "tally (i + 1) a q" using q by (auto simp: tally_def Suc_diff_le)
  ultimately show ?case using shed by (auto simp: main_inv_def)
next
  case (add p q i)
  then have "step p q" by (auto simp: step_def intro: work_step.count)
  then have "proc_inv 2 4 q" using add step_inv [of p q] by (simp add: main_inv_def)
  moreover obtain a where a: "tally i a p" "uncounted p = 1" using add(2) by (auto simp: main_inv_def)
  then have "tally (i + 1) (a + 1) q" using add(1) by (auto simp: tally_def count_accepted_def)
  ultimately show ?case using add by (auto simp: main_inv_def count_accepted_def)
next
  case (stop p q)
  then have "step p q" by (auto simp: step_def intro: call_step.stop)
  then have "proc_inv 2 4 q" using stop step_inv [of p q] by (simp add: main_inv_def)
  then show ?case using stop by (auto simp: main_inv_def stop_def tally_def split: if_splits)
next
  case (wait p)
  then have inv: "proc_inv 2 4 p" "\<not> cancelled p" "bp.settled p" "workers p \<noteq> []" by (auto simp: main_inv_def proc_inv_def)
  then have e: "queue p = []" "sum_list (map slot_load (workers p)) = 0"
    using bp.all_gone_empty wait(1) by blast+
  have un: "uncounted p = 0" using wait(2) by (simp add: main_inv_def)
  have "processed p + bp.open_jobs p = 0" using inv(1) by (simp add: proc_inv_def)
  then have "accepted p = processed p" by (simp add: bp.open_jobs_def e un)
  then show ?case using wait by (auto simp: main_inv_def tally_def)
qed

subsection \<open>Termination\<close>

fun pc_work :: "main_pc \<Rightarrow> nat" where
  "pc_work (Submitting i) = 5 * (20 - i) + 3"
| "pc_work (Counting i) = 5 * (20 - i) - 1"
| "pc_work Draining = 2"
| "pc_work (Printed s) = 1"

definition main_work :: "main_pc \<times> processor \<Rightarrow> nat" where
  "main_work = (\<lambda>(pc, p). pc_work pc + proc_work p)"

lemma main_step_less:
  assumes "main_step s t" "main_inv s"
  shows "main_work t < main_work s"
  using assms
proof (induction rule: main_step.induct)
  case (worker p q pc)
  then show ?case using work_step_less [of p q] by (simp add: main_work_def)
next
  case (send i h p q)
  then have "q = p\<lparr>queue := queue p @ [main_job i], uncounted := uncounted p + 1\<rparr>"
    using submit_effect [OF send(2)] by (auto simp: main_inv_def proc_inv_def split: if_splits)
  then show ?case using send(1) by (simp add: main_work_def proc_work_def)
next
  case (shed i h p q)
  then have "q = p\<lparr>rejected := rejected p + 1\<rparr>"
    using submit_effect [OF shed(2)] by (auto simp: main_inv_def proc_inv_def split: if_splits)
  then show ?case using shed(1) by (simp add: main_work_def proc_work_def)
next
  case (add p q i)
  then have "uncounted p = 1" "i < 20" by (auto simp: main_inv_def)
  then show ?case using add(1) by (auto simp: main_work_def proc_work_def count_accepted_def)
qed (auto simp: main_work_def proc_work_def stop_def split: if_splits)

lemma main_steps:
  "(main_step ^^ k) s t \<Longrightarrow> main_inv s \<Longrightarrow> main_inv t \<and> k + main_work t \<le> main_work s"
proof (induction k arbitrary: t)
  case (Suc k)
  then obtain u where "(main_step ^^ k) s u" "main_step u t" by auto
  with Suc.IH [of u] Suc.prems(2) main_inv_step [of u t] main_step_less [of u t] show ?case by fastforce
qed simp

lemma main_moves:
  assumes "main_inv (pc, p)" "\<nexists>t. main_step (pc, p) t"
  shows "\<exists>s. pc = Printed s"
proof (cases pc)
  case (Submitting i)
  show ?thesis
  proof (cases "i = 20")
    case True
    then have "main_step (pc, p) (Draining, p\<lparr>closed := True\<rparr>)"
      using assms(1) Submitting by (auto simp: main_inv_def stop_def intro: main_step.stop)
    then show ?thesis using assms(2) by blast
  next
    case False
    then have i: "i < 20" "\<not> closed p" using assms(1) Submitting by (auto simp: main_inv_def)
    obtain r q where s: "submit Idle Busy None (main_job i) p = (r, q)" by (cases "submit Idle Busy None (main_job i) p")
    then have "r \<noteq> Panicked" using i by (auto simp: submit_def split: if_splits)
    then show ?thesis using s i assms(2) Submitting main_step.send main_step.shed by (cases r) blast+
  qed
next
  case (Counting i)
  then have "\<exists>q. count_accepted p = Some q" using assms(1) by (auto simp: main_inv_def count_accepted_def)
  then show ?thesis using assms(2) Counting main_step.add by blast
next
  case Draining
  then have d: "closed p" "uncounted p = 0" using assms(1) by (auto simp: main_inv_def)
  show ?thesis
  proof (cases "list_all (\<lambda>w. w = Gone) (workers p)")
    case True
    then show ?thesis using assms(2) Draining main_step.wait by blast
  next
    case False
    then obtain i where "i < length (workers p)" "workers p ! i \<noteq> Gone" by (auto simp: list_all_length)
    then obtain q where q: "work_step p q" using slot_moves [OF d(1)] by blast
    then have "uncounted q = uncounted p"
      using d(2) by (auto elim!: work_step.cases simp: take_next_def finish_job_def leave_def count_accepted_def
          split: list.splits slot.splits if_splits)
    then show ?thesis using q assms(2) main_step.worker by blast
  qed
next
  case (Printed s)
  then show ?thesis by blast
qed

subsection \<open>Properties\<close>

text \<open>C30: \<^verbatim>\<open>main\<close> always gets to its last line, and what it prints adds up.  However it interleaves with
  the workers, it takes at most 105 steps; it can stop only after printing; and then the jobs accepted and
  rejected are the twenty submitted, at least the four of an empty queue accepted, and every accepted
  one processed.\<close>

theorem main_prints:
  assumes "start 2 4 = Some p" "(main_step ^^ k) (Submitting 0, p) (pc, q)"
  shows "k \<le> 105 \<and>
    ((\<nexists>t. main_step (pc, q) t) \<longrightarrow> (\<exists>a. 4 \<le> a \<and> a \<le> 20 \<and> pc = Printed (of_nat a, of_nat (20 - a), of_nat a)))"
proof (intro conjI impI)
  have "proc_inv 2 4 p" using start_inv [OF assms(1)] by simp
  moreover have p: "p = \<lparr>queue = [], depth = 4, closed = False, cancelled = False, workers = [Idle, Idle],
      accepted = 0, rejected = 0, uncounted = 0, processed = 0\<rparr>"
    using assms(1) by (simp add: start_def numeral_2_eq_2)
  moreover have "tally 0 0 p" by (simp add: p tally_def)
  then have "\<exists>a. tally 0 a p" by blast
  ultimately have "main_inv (Submitting 0, p)" by (simp add: main_inv_def)
  note run = main_steps [OF assms(2) this]
  have "main_work (Submitting 0, p) = 105" by (simp add: p main_work_def proc_work_def)
  then show "k \<le> 105" using run by linarith
  assume "\<nexists>t. main_step (pc, q) t"
  then obtain s where "pc = Printed s" using main_moves run by blast
  then obtain a where "tally 20 a q" "processed q = of_nat a" "pc = Printed (snapshot q)"
    using run by (auto simp: main_inv_def)
  then show "\<exists>a. 4 \<le> a \<and> a \<le> 20 \<and> pc = Printed (of_nat a, of_nat (20 - a), of_nat a)"
    by (intro exI [of _ a]) (auto simp: tally_def snapshot_def)
qed

text \<open>A run cannot go on for ever, so one of them gets to the printed line.\<close>

theorem main_prints_witness:
  "\<exists>p k q a. start 2 4 = Some p \<and>
    (main_step ^^ k) (Submitting 0, p) (Printed (of_nat a, of_nat (20 - a), of_nat a), q) \<and> k \<le> 105 \<and> 4 \<le> a \<and> a \<le> 20"
proof -
  obtain p where p: "start 2 4 = Some p" by (simp add: start_def)
  have "\<exists>k t. (main_step ^^ k) (Submitting 0, p) t \<and> (\<nexists>u. main_step t u)"
  proof (rule ccontr)
    assume "\<not> (\<exists>k t. (main_step ^^ k) (Submitting 0, p) t \<and> (\<nexists>u. main_step t u))"
    then have go: "(main_step ^^ k) (Submitting 0, p) t \<Longrightarrow> \<exists>u. main_step t u" for k t by blast
    have "\<exists>t. (main_step ^^ k) (Submitting 0, p) t" for k
    proof (induction k)
      case (Suc k)
      then show ?case using go by (meson relpowp_Suc_I)
    qed simp
    then obtain pc q where "(main_step ^^ 106) (Submitting 0, p) (pc, q)" by (metis surj_pair)
    from conjunct1 [OF main_prints [OF p this]] show False by simp
  qed
  then obtain k pc q where run: "(main_step ^^ k) (Submitting 0, p) (pc, q)" "\<nexists>u. main_step (pc, q) u"
    by (metis surj_pair)
  from main_prints [OF p run(1)] run(2) obtain a where
    "k \<le> 105" "4 \<le> a" "a \<le> 20" "pc = Printed (of_nat a, of_nat (20 - a), of_nat a)" by blast
  with p run(1) show ?thesis by blast
qed

end
