(* ===== verification/Jobproc.thy ===== *)
theory Jobproc
  imports Intake
begin

text \<open>
  The fifth stage of \<^verbatim>\<open>08-concurrency/examples\<close>, \<^verbatim>\<open>05-jobprocessor\<close>: the bounded intake with
  retries, backoff, metrics and graceful shutdown.  A handler is an arbitrary function of the
  attempt; an attempt ends in one step.  Attempts are counted in \<open>nat\<close>: the counter of the code
  would wrap only after \<open>2 ^ 63\<close> attempts at one job.
\<close>

subsection \<open>Errors and handlers\<close>

datatype jerror = Plain string | Wrapped string jerror | Permanent jerror | Ctx_canceled | Ctx_deadline

fun error_text :: "jerror \<Rightarrow> string" where
  "error_text (Plain t) = t"
| "error_text (Wrapped t e) = t @ error_text e"
| "error_text (Permanent e) = ''permanent: '' @ error_text e"
| "error_text Ctx_canceled = ''context canceled''"
| "error_text Ctx_deadline = ''context deadline exceeded''"

fun cause :: "jerror \<Rightarrow> jerror option" where
  "cause (Wrapped t e) = Some e"
| "cause (Permanent e) = Some e"
| "cause _ = None"

text \<open>\<^verbatim>\<open>errors.As\<close> for \<^verbatim>\<open>*PermanentError\<close> and \<^verbatim>\<open>errors.Is\<close> for \<^verbatim>\<open>context.Canceled\<close>, along the chain.\<close>

fun is_permanent :: "jerror \<Rightarrow> bool" where
  "is_permanent (Permanent e) = True"
| "is_permanent (Wrapped t e) = is_permanent e"
| "is_permanent _ = False"

fun is_canceled :: "jerror \<Rightarrow> bool" where
  "is_canceled Ctx_canceled = True"
| "is_canceled (Wrapped t e) = is_canceled e"
| "is_canceled (Permanent e) = is_canceled e"
| "is_canceled _ = False"

datatype outcome = Returns "jerror option" | Panics string

record job =
  job_id :: string
  job_run :: "nat \<Rightarrow> outcome"

definition safe_run :: "job \<Rightarrow> nat \<Rightarrow> jerror option" where
  "safe_run j n =
     (case job_run j n of
        Returns e \<Rightarrow> e
      | Panics r \<Rightarrow> Some (Plain (''job '' @ job_id j @ '' panicked: '' @ r)))"

subsection \<open>The retry policy\<close>

record policy =
  max_attempts :: int64
  backoff :: duration

definition with_defaults :: "policy \<Rightarrow> policy" where
  "with_defaults p =
     (let p1 = (if sint (max_attempts p) \<le> 0 then p\<lparr>max_attempts := 1\<rparr> else p)
      in if backoff p1 \<le> 0 then p1\<lparr>backoff := 100000000\<rparr> else p1)"

abbreviation max_tries :: "policy \<Rightarrow> nat" where
  "max_tries p \<equiv> nat (sint (max_attempts p))"

datatype verdict = Succeed | Give_up "jerror option" | Again jerror

text \<open>What \<^verbatim>\<open>runWithRetries\<close> does with the end of attempt \<open>n\<close>, \<open>lasterr\<close> being \<^verbatim>\<open>lastErr\<close> so far.\<close>

definition judge :: "policy \<Rightarrow> nat \<Rightarrow> jerror option \<Rightarrow> jerror option \<Rightarrow> verdict" where
  "judge p n lasterr result =
     (case result of
        None \<Rightarrow> Succeed
      | Some e \<Rightarrow>
          if is_permanent e \<or> is_canceled e then Give_up lasterr
          else if n < max_tries p then Again e else Give_up (Some e))"

subsection \<open>The processor\<close>

datatype slot =
    Fresh | Idle | Attempt job nat "jerror option" | Waiting job nat jerror | Gone

datatype entry = Retrying string nat jerror duration | Failed string "jerror option"

record processor = "(job, slot) intake" +
  pol :: policy
  succeeded :: int64
  failed :: int64
  retried :: int64
  in_flight :: int64
  ctx_err :: jerror
  log :: "entry list"

abbreviation first_try :: "job \<Rightarrow> slot" where
  "first_try j \<equiv> Attempt j 1 None"

definition new_processor :: "int64 \<Rightarrow> int64 \<Rightarrow> policy \<Rightarrow> jerror \<Rightarrow> processor option" where
  "new_processor n queue_depth p err =
     (if sint queue_depth < 0 then None
      else Some \<lparr>queue = [], depth = nat (sint queue_depth), closed = False, cancelled = False,
                 workers = replicate (nat (sint n)) Fresh, accepted = 0, rejected = 0, uncounted = 0,
                 pol = with_defaults p, succeeded = 0, failed = 0, retried = 0, in_flight = 0,
                 ctx_err = err, log = []\<rparr>)"

definition set_worker :: "nat \<Rightarrow> slot \<Rightarrow> processor \<Rightarrow> processor" where
  "set_worker i w p = p\<lparr>workers := (workers p)[i := w]\<rparr>"

definition fail :: "job \<Rightarrow> jerror option \<Rightarrow> processor \<Rightarrow> processor" where
  "fail j e p = p\<lparr>failed := failed p + 1, log := log p @ [Failed (job_id j) e]\<rparr>"

definition begin_worker :: "nat \<Rightarrow> processor \<Rightarrow> processor option" where
  "begin_worker i p =
     (if i < length (workers p) \<and> workers p ! i = Fresh
      then Some (set_worker i Idle (p\<lparr>in_flight := in_flight p + 1\<rparr>)) else None)"

definition end_worker :: "nat \<Rightarrow> processor \<Rightarrow> processor option" where
  "end_worker i p = map_option (\<lambda>q. q\<lparr>in_flight := in_flight q - 1\<rparr>) (leave Idle Gone i p)"

text \<open>One attempt at a job, up to the next select.\<close>

definition attempt_job :: "nat \<Rightarrow> processor \<Rightarrow> processor option" where
  "attempt_job i p =
     (if i < length (workers p)
      then case workers p ! i of
          Attempt j n lasterr \<Rightarrow>
            Some (case judge (pol p) n lasterr (safe_run j n) of
                Succeed \<Rightarrow> set_worker i Idle (p\<lparr>succeeded := succeeded p + 1\<rparr>)
              | Give_up e \<Rightarrow> set_worker i Idle (fail j e p)
              | Again e \<Rightarrow> set_worker i (Waiting j n e)
                  (p\<lparr>retried := retried p + 1, log := log p @ [Retrying (job_id j) n e (backoff (pol p))]\<rparr>))
        | _ \<Rightarrow> None
      else None)"

text \<open>The select between the backoff timer and the context.\<close>

definition timer_fires :: "nat \<Rightarrow> processor \<Rightarrow> processor option" where
  "timer_fires i p =
     (if i < length (workers p)
      then case workers p ! i of
          Waiting j n e \<Rightarrow> Some (set_worker i (Attempt j (n + 1) (Some e)) p)
        | _ \<Rightarrow> None
      else None)"

definition wait_cancelled :: "nat \<Rightarrow> processor \<Rightarrow> processor option" where
  "wait_cancelled i p =
     (if i < length (workers p) \<and> cancelled p
      then case workers p ! i of
          Waiting j n e \<Rightarrow> Some (set_worker i Idle (fail j (Some (ctx_err p)) p))
        | _ \<Rightarrow> None
      else None)"

definition submit_job :: "nat option \<Rightarrow> job \<Rightarrow> processor \<Rightarrow> submit_result \<times> processor" where
  "submit_job h j p = submit Idle first_try h j p"

text \<open>\<^verbatim>\<open>Metrics.Snapshot\<close> builds a new \<^verbatim>\<open>Metrics\<close> of six zero counters.\<close>

definition metrics_snapshot :: "processor \<Rightarrow> int64 list" where
  "metrics_snapshot p = replicate 6 0"

inductive work_step :: "processor \<Rightarrow> processor \<Rightarrow> bool" where
  start: "begin_worker i p = Some q \<Longrightarrow> work_step p q"
| take: "take_next Idle first_try i p = Some q \<Longrightarrow> work_step p q"
| attempt: "attempt_job i p = Some q \<Longrightarrow> work_step p q"
| timer: "timer_fires i p = Some q \<Longrightarrow> work_step p q"
| wait_end: "wait_cancelled i p = Some q \<Longrightarrow> work_step p q"
| leave: "end_worker i p = Some q \<Longrightarrow> work_step p q"
| count: "count_accepted p = Some q \<Longrightarrow> work_step p q"

inductive call_step :: "processor \<Rightarrow> processor \<Rightarrow> bool" where
  submit: "submit_job h j p = (r, q) \<Longrightarrow> r \<noteq> Panicked \<Longrightarrow> call_step p q"
| stop: "stop p = Some q \<Longrightarrow> call_step p q"
| cancel: "call_step p (cancel p)"

definition step :: "processor \<Rightarrow> processor \<Rightarrow> bool" where
  "step p q \<longleftrightarrow> work_step p q \<or> call_step p q"

subsection \<open>Lemmas\<close>

fun slot_load :: "slot \<Rightarrow> nat" where
  "slot_load (Attempt j n e) = 1"
| "slot_load (Waiting j n e) = 1"
| "slot_load _ = 0"

interpretation jp: carrier Idle first_try Gone slot_load
  by unfold_locales simp_all

lemma with_defaults_pos: "0 < sint (max_attempts (with_defaults p))" "0 < backoff (with_defaults p)"
  by (auto simp: with_defaults_def Let_def)

text \<open>A worker stays within the policy's attempts, remembers the last error, and is counted in
  \<^verbatim>\<open>InFlight\<close> while it lives.\<close>

fun slot_ok :: "policy \<Rightarrow> slot \<Rightarrow> bool" where
  "slot_ok p (Attempt j n e) \<longleftrightarrow> 1 \<le> n \<and> n \<le> max_tries p \<and> (e = None \<longleftrightarrow> n = 1)"
| "slot_ok p (Waiting j n e) \<longleftrightarrow> 1 \<le> n \<and> n < max_tries p"
| "slot_ok p _ \<longleftrightarrow> True"

fun slot_live :: "slot \<Rightarrow> nat" where
  "slot_live Fresh = 0"
| "slot_live Gone = 0"
| "slot_live _ = 1"

definition live :: "processor \<Rightarrow> nat" where
  "live p = sum_list (map slot_live (workers p))"

lemma live_update:
  "i < length (workers p) \<Longrightarrow> sum_list (map slot_live ((workers p)[i := w])) + slot_live (workers p ! i) = live p + slot_live w"
  unfolding live_def by (rule sum_list_map_update)

definition counted :: "processor \<Rightarrow> int64" where
  "counted p = succeeded p + failed p + jp.open_jobs p"

definition proc_inv :: "nat \<Rightarrow> policy \<Rightarrow> processor \<Rightarrow> bool" where
  [inv_defs]: "proc_inv n c p \<longleftrightarrow>
     counted p = 0 \<and> jp.bounded p \<and> jp.settled p \<and> length (workers p) = n \<and> pol p = c \<and>
     0 < max_tries c \<and> in_flight p = of_nat (live p) \<and> (\<forall>w \<in> set (workers p). slot_ok c w)"

lemma slots_update:
  "\<forall>w \<in> set ws. slot_ok c w \<Longrightarrow> slot_ok c v \<Longrightarrow> \<forall>w \<in> set (ws[i := v]). slot_ok c w"
  using set_update_subset_insert [of ws i v] by auto

text \<open>A worker's own step: what it no longer carries is counted as succeeded or failed.\<close>

lemma worker_update_inv:
  assumes inv: "proc_inv n c p" and i: "i < length (workers p)"
    and w: "workers q = (workers p)[i := w]" "w \<noteq> Gone" "slot_ok c w"
    and same: "queue q = queue p" "depth q = depth p" "closed q = closed p" "cancelled q = cancelled p"
      "accepted q = accepted p" "uncounted q = uncounted p" "pol q = pol p"
    and tally: "succeeded q + failed q = succeeded p + failed p + of_nat d"
      "slot_load (workers p ! i) = slot_load w + d"
    and alive: "in_flight q + of_nat (slot_live (workers p ! i)) = in_flight p + of_nat (slot_live w)"
  shows "proc_inv n c q"
proof -
  have "sum_list (map slot_load (workers q)) + d = sum_list (map slot_load (workers p))"
    using jp.load_update [OF i, of w] tally(2) w(1) by simp
  then have "(of_nat (sum_list (map slot_load (workers p))) :: int64) =
      of_nat (sum_list (map slot_load (workers q))) + of_nat d" by (metis of_nat_add)
  then have "counted q = counted p"
    using tally(1) by (simp add: counted_def jp.open_jobs_def same algebra_simps)
  moreover have "live q + slot_live (workers p ! i) = live p + slot_live w"
    using live_update [OF i, of w] w(1) by (simp add: live_def)
  then have "(of_nat (live q) :: int64) + of_nat (slot_live (workers p ! i)) = of_nat (live p) + of_nat (slot_live w)"
    by (metis of_nat_add)
  then have "in_flight q = of_nat (live q)"
    using alive inv unfolding proc_inv_def by (metis add_right_cancel)
  moreover have "jp.settled q"
    using inv jp.gone_update [of "workers p" i w] w(2)
    by (auto simp: proc_inv_def jp.settled_def w(1) same)
  moreover have "\<forall>v \<in> set (workers q). slot_ok c v"
    unfolding w(1) using inv w(3) by (intro slots_update) (auto simp: proc_inv_def)
  ultimately show ?thesis using inv unfolding proc_inv_def by (simp add: jp.bounded_def same w(1))
qed

lemmas worker_ops = set_worker_def fail_def

lemma begin_inv: "begin_worker i p = Some q \<Longrightarrow> proc_inv n c p \<Longrightarrow> proc_inv n c q"
  by (erule_tac i = i and d = 0 and w = Idle in worker_update_inv)
    (auto simp: begin_worker_def worker_ops split: if_splits)

lemma slot_at: "proc_inv n c p \<Longrightarrow> i < length (workers p) \<Longrightarrow> slot_ok c (workers p ! i) \<and> pol p = c"
  by (auto simp: proc_inv_def)

lemma attempt_inv:
  assumes step: "attempt_job i p = Some q" and inv: "proc_inv n c p"
  shows "proc_inv n c q"
proof -
  obtain j k le where j: "i < length (workers p)" "workers p ! i = Attempt j k le"
    using step by (auto simp: attempt_job_def split: if_splits slot.splits)
  note ok = slot_at [OF inv j(1)]
  show ?thesis
  proof (cases "judge (pol p) k le (safe_run j k)")
    case Succeed
    then show ?thesis using step j ok
      by (intro worker_update_inv [OF inv j(1), where d = 1 and w = Idle]) (auto simp: attempt_job_def worker_ops)
  next
    case (Give_up e)
    then show ?thesis using step j ok
      by (intro worker_update_inv [OF inv j(1), where d = 1 and w = Idle]) (auto simp: attempt_job_def worker_ops)
  next
    case (Again e)
    then have "k < max_tries c" using ok by (auto simp: judge_def split: option.splits if_splits)
    then show ?thesis using step j ok Again
      by (intro worker_update_inv [OF inv j(1), where d = 0 and w = "Waiting j k e"]) (auto simp: attempt_job_def worker_ops)
  qed
qed

lemma timer_inv:
  assumes step: "timer_fires i p = Some q" and inv: "proc_inv n c p"
  shows "proc_inv n c q"
proof -
  obtain j k e where j: "i < length (workers p)" "workers p ! i = Waiting j k e"
    using step by (auto simp: timer_fires_def split: if_splits slot.splits)
  show ?thesis using step j slot_at [OF inv j(1)]
    by (intro worker_update_inv [OF inv j(1), where d = 0 and w = "Attempt j (k + 1) (Some e)"])
      (auto simp: timer_fires_def worker_ops)
qed

lemma wait_inv:
  assumes step: "wait_cancelled i p = Some q" and inv: "proc_inv n c p"
  shows "proc_inv n c q"
proof -
  obtain j k e where j: "i < length (workers p)" "workers p ! i = Waiting j k e"
    using step by (auto simp: wait_cancelled_def split: if_splits slot.splits)
  show ?thesis using step j
    by (intro worker_update_inv [OF inv j(1), where d = 1 and w = Idle])
      (auto simp: wait_cancelled_def worker_ops split: if_splits)
qed

text \<open>The steps of the intake leave the rest of the processor alone.\<close>

lemma intake_inv:
  assumes inv: "proc_inv n c p"
    and keeps: "jp.open_jobs q = jp.open_jobs p" "jp.bounded q" "jp.settled q" "length (workers q) = length (workers p)"
    and same: "succeeded q = succeeded p" "failed q = failed p" "pol q = pol p" "in_flight q = in_flight p"
    and slots: "live q = live p" "\<forall>w \<in> set (workers q). slot_ok c w"
  shows "proc_inv n c q"
  using inv keeps slots unfolding proc_inv_def counted_def by (simp add: same)

lemma first_try_ok: "proc_inv n c p \<Longrightarrow> slot_ok c (first_try j)"
  by (auto simp: proc_inv_def)

lemma slots_of: "proc_inv n c p \<Longrightarrow> slot_ok c v \<Longrightarrow> \<forall>w \<in> set ((workers p)[i := v]). slot_ok c w"
  by (rule slots_update) (auto simp: proc_inv_def)

lemma take_inv:
  assumes step: "take_next Idle first_try i p = Some q" and inv: "proc_inv n c p"
  shows "proc_inv n c q"
proof -
  obtain j js where q: "queue p = j # js" using step by (auto simp: take_next_def split: list.splits)
  then have e: "i < length (workers p)" "workers p ! i = Idle"
    "q = p\<lparr>queue := js, workers := (workers p)[i := first_try j]\<rparr>"
    using step by (auto simp: take_next_def split: if_splits)
  have "live q = live p" using live_update [OF e(1), of "first_try j"] e(2,3) by (simp add: live_def)
  moreover have "\<forall>w \<in> set (workers q). slot_ok c w"
    using slots_of [OF inv first_try_ok [OF inv]] by (simp add: e(3))
  moreover have "jp.bounded q" "jp.settled q"
    using inv jp.take_keeps [OF step] jp.take_settled [OF step] by (simp_all add: proc_inv_def)
  ultimately show ?thesis using jp.take_keeps [OF step]
    by (intro intake_inv [OF inv]) (simp_all add: e(3))
qed

lemma submit_inv:
  assumes step: "submit_job h j p = (r, q)" and inv: "proc_inv n c p"
  shows "proc_inv n c q"
proof -
  have s: "submit Idle first_try h j p = (r, q)" using step by (simp only: submit_job_def)
  have frame: "succeeded q = succeeded p \<and> failed q = failed p \<and> pol q = pol p \<and> in_flight q = in_flight p \<and>
      (workers q = workers p \<or> (\<exists>i. i < length (workers p) \<and> workers p ! i = Idle \<and> workers q = (workers p)[i := first_try j]))"
    using s by (auto simp: submit_def split: if_splits option.splits)
  have "live q = live p \<and> (\<forall>w \<in> set (workers q). slot_ok c w)"
  proof (cases "workers q = workers p")
    case True
    then show ?thesis using inv by (simp add: proc_inv_def live_def)
  next
    case False
    then obtain i where i: "i < length (workers p)" "workers p ! i = Idle" "workers q = (workers p)[i := first_try j]"
      using frame by blast
    have "live q = live p" using live_update [OF i(1), of "first_try j"] i(2,3) by (simp add: live_def)
    moreover have "\<forall>w \<in> set (workers q). slot_ok c w"
      using slots_of [OF inv first_try_ok [OF inv]] by (simp add: i(3))
    ultimately show ?thesis by blast
  qed
  moreover have "jp.bounded q" "jp.settled q"
    using inv jp.submit_keeps [OF s] jp.submit_settled [OF s] by (simp_all add: proc_inv_def)
  ultimately show ?thesis using jp.submit_keeps [OF s] frame
    by (intro intake_inv [OF inv]) blast+
qed

lemma count_inv:
  assumes step: "count_accepted p = Some q" and inv: "proc_inv n c p"
  shows "proc_inv n c q"
proof -
  have "succeeded q = succeeded p" "failed q = failed p" "pol q = pol p" "in_flight q = in_flight p"
    using step by (auto simp: count_accepted_def split: if_splits)
  moreover have "jp.bounded q" "jp.settled q"
    using inv jp.count_keeps [OF step] jp.count_settled [OF step] by (simp_all add: proc_inv_def)
  ultimately show ?thesis using jp.count_keeps [OF step] inv
    by (intro intake_inv [OF inv]) (simp_all add: proc_inv_def live_def)
qed

lemma leave_inv:
  assumes step: "end_worker i p = Some q" and inv: "proc_inv n c p"
  shows "proc_inv n c q"
proof -
  obtain u where u: "leave Idle Gone i p = Some u" "q = u\<lparr>in_flight := in_flight u - 1\<rparr>"
    using step by (auto simp: end_worker_def)
  then have e: "i < length (workers p)" "workers p ! i = Idle" "u = p\<lparr>workers := (workers p)[i := Gone]\<rparr>"
    by (auto simp: leave_def split: if_splits)
  have "live q + 1 = live p" using live_update [OF e(1), of Gone] e(2,3) u(2) by (simp add: live_def)
  then have "(of_nat (live q) :: int64) + 1 = of_nat (live p)" by (metis of_nat_1 of_nat_add)
  then have "in_flight q = of_nat (live q)" using inv e(3) u(2) by (auto simp: proc_inv_def algebra_simps)
  moreover have "\<forall>w \<in> set (workers q). slot_ok c w"
    using inv slots_update [of "workers p" c Gone i] by (simp add: proc_inv_def u(2) e(3))
  moreover have "counted q = counted p"
    using jp.leave_keeps [OF u(1)] by (simp add: counted_def u(2) e(3) jp.open_jobs_def)
  moreover have "jp.bounded q" "jp.settled q"
    using inv jp.leave_keeps [OF u(1)] jp.leave_settled [OF u(1)]
    by (simp_all add: proc_inv_def u(2) jp.bounded_def jp.settled_def)
  ultimately show ?thesis using inv by (simp add: proc_inv_def u(2) e(3))
qed

lemma work_inv: "work_step p q \<Longrightarrow> proc_inv n c p \<Longrightarrow> proc_inv n c q"
  by (induction rule: work_step.induct)
    (blast intro: begin_inv take_inv attempt_inv timer_inv wait_inv leave_inv count_inv)+

lemma call_inv: "call_step p q \<Longrightarrow> proc_inv n c p \<Longrightarrow> proc_inv n c q"
proof (induction rule: call_step.induct)
  case (submit h j p r q)
  then show ?case by (rule_tac submit_inv)
qed (auto simp: proc_inv_def counted_def live_def jp.open_jobs_def jp.bounded_def jp.settled_def stop_def cancel_def split: if_splits)

lemma new_inv: "new_processor n d p e = Some s \<Longrightarrow> proc_inv (nat (sint n)) (with_defaults p) s"
  using with_defaults_pos [of p]
  by (auto simp: new_processor_def proc_inv_def counted_def live_def jp.open_jobs_def jp.bounded_def jp.settled_def
      sum_list_replicate split: if_splits)

lemma job_run_inv:
  assumes "new_processor n d p e = Some s" "step\<^sup>*\<^sup>* s t"
  shows "proc_inv (nat (sint n)) (with_defaults p) t"
  using assms(2)
  by (induction rule: rtranclp_induct) (use new_inv [OF assms(1)] work_inv call_inv in \<open>auto simp: step_def\<close>)

subsection \<open>Termination\<close>

text \<open>What a worker, and what a queued job, can still cost under the policy.\<close>

fun slot_work :: "policy \<Rightarrow> slot \<Rightarrow> nat" where
  "slot_work c Fresh = 2"
| "slot_work c Idle = 1"
| "slot_work c (Attempt j n e) = 2 * (max_tries c - n) + 2"
| "slot_work c (Waiting j n e) = 2 * (max_tries c - n) + 1"
| "slot_work c Gone = 0"

definition proc_work :: "processor \<Rightarrow> nat" where
  "proc_work p = 2 * max_tries (pol p) * length (queue p) + sum_list (map (slot_work (pol p)) (workers p)) + uncounted p"

lemma proc_work_update:
  assumes "i < length (workers p)" "workers q = (workers p)[i := w]" "queue q = queue p" "pol q = pol p"
    "uncounted q = uncounted p" "slot_work (pol p) w < slot_work (pol p) (workers p ! i)"
  shows "proc_work q < proc_work p"
  using sum_list_map_update [OF assms(1), of "slot_work (pol p)" w] assms(2-6) by (simp add: proc_work_def)

lemma job_step_less:
  assumes "work_step p q" "proc_inv n c p"
  shows "proc_work q < proc_work p"
  using assms
proof (induction rule: work_step.induct)
  case (start i p q)
  then show ?case
    by (intro proc_work_update [where i = i and w = Idle]) (auto simp: begin_worker_def worker_ops split: if_splits)
next
  case (take i p q)
  then obtain j js where "queue p = j # js" by (auto simp: take_next_def split: list.splits)
  moreover have "0 < max_tries (pol p)" using take by (simp add: proc_inv_def)
  moreover from this have "2 * (max_tries (pol p) - 1) + 2 = 2 * max_tries (pol p)" by linarith
  ultimately show ?case using take sum_list_map_update [of i "workers p" "slot_work (pol p)" "first_try j"]
    by (auto simp: take_next_def proc_work_def algebra_simps split: if_splits)
next
  case (attempt i p q)
  then obtain j k le where j: "i < length (workers p)" "workers p ! i = Attempt j k le"
    by (auto simp: attempt_job_def split: if_splits slot.splits)
  obtain w where "workers q = (workers p)[i := w]" "w = Idle \<or> (\<exists>e. w = Waiting j k e)"
    "queue q = queue p" "pol q = pol p" "uncounted q = uncounted p"
    using attempt j by (auto simp: attempt_job_def worker_ops split: verdict.splits)
  then show ?case using j by (intro proc_work_update [OF j(1)]) auto
next
  case (timer i p q)
  then obtain j k e where j: "i < length (workers p)" "workers p ! i = Waiting j k e"
    by (auto simp: timer_fires_def split: if_splits slot.splits)
  have "k < max_tries (pol p)" using slot_at [OF timer(2) j(1)] j(2) by simp
  then show ?case using timer j
    by (intro proc_work_update [OF j(1), where w = "Attempt j (k + 1) (Some e)"]) (auto simp: timer_fires_def worker_ops)
next
  case (wait_end i p q)
  then obtain j k e where j: "i < length (workers p)" "workers p ! i = Waiting j k e"
    by (auto simp: wait_cancelled_def split: if_splits slot.splits)
  then show ?case using wait_end slot_at [OF wait_end(2) j(1)]
    by (intro proc_work_update [OF j(1), where w = Idle]) (auto simp: wait_cancelled_def worker_ops split: if_splits)
next
  case (leave i p q)
  then show ?case
    by (intro proc_work_update [where i = i and w = Gone]) (auto simp: end_worker_def leave_def split: if_splits)
next
  case (count p q)
  then show ?case by (auto simp: count_accepted_def proc_work_def split: if_splits)
qed

lemma job_steps_bound: "(work_step ^^ k) p q \<Longrightarrow> proc_inv n c p \<Longrightarrow> k + proc_work q \<le> proc_work p \<and> proc_inv n c q"
proof (induction k arbitrary: q)
  case (Suc k)
  then obtain u where "(work_step ^^ k) p u" "work_step u q" by auto
  with Suc.IH [of u] Suc.prems(2) job_step_less [of u q n c] work_inv [of u q n c] show ?case by auto
qed simp

lemma work_frame:
  "work_step p q \<Longrightarrow> closed q = closed p \<and> cancelled q = cancelled p"
  by (induction rule: work_step.induct)
    (auto simp: begin_worker_def take_next_def attempt_job_def timer_fires_def wait_cancelled_def end_worker_def
       leave_def count_accepted_def worker_ops split: list.splits slot.splits verdict.splits if_splits)

lemma job_steps_frame: "work_step\<^sup>*\<^sup>* p q \<Longrightarrow> closed q = closed p \<and> cancelled q = cancelled p"
  by (induction rule: rtranclp_induct) (auto dest: work_frame)

lemma job_slot_moves:
  assumes "closed p" "i < length (workers p)" "workers p ! i \<noteq> Gone"
  shows "\<exists>q. work_step p q"
proof (cases "workers p ! i")
  case Fresh
  then have "\<exists>q. begin_worker i p = Some q" using assms(2) by (simp add: begin_worker_def)
  then show ?thesis using work_step.start by blast
next
  case Idle
  from jp.idle_moves [OF assms(1,2) Idle] show ?thesis
  proof
    assume "\<exists>t. leave Idle Gone i p = Some t"
    then have "\<exists>t. end_worker i p = Some t" by (auto simp: end_worker_def)
    then show ?thesis using work_step.leave by blast
  qed (use work_step.take in blast)
next
  case (Attempt j n e)
  then have "\<exists>q. attempt_job i p = Some q" using assms(2) by (simp add: attempt_job_def)
  then show ?thesis using work_step.attempt by blast
next
  case (Waiting j n e)
  then have "\<exists>q. timer_fires i p = Some q" using assms(2) by (simp add: timer_fires_def)
  then show ?thesis using work_step.timer by blast
qed (use assms(3) in simp)

lemma job_work_stuck:
  assumes "closed p" "\<nexists>q. work_step p q"
  shows "list_all (\<lambda>w. w = Gone) (workers p)" "uncounted p = 0"
proof -
  show "list_all (\<lambda>w. w = Gone) (workers p)"
    unfolding list_all_length using job_slot_moves [OF assms(1)] assms(2) by blast
  show "uncounted p = 0"
    using assms(2) work_step.count [of p] by (cases "uncounted p = 0") (auto simp: count_accepted_def)
qed

lemma all_gone_live: "list_all (\<lambda>w. w = Gone) (workers p) \<Longrightarrow> live p = 0"
proof -
  assume "list_all (\<lambda>w. w = Gone) (workers p)"
  then have "map slot_live (workers p) = map (\<lambda>w. 0) (workers p)" by (auto simp: list_all_iff)
  then show ?thesis by (simp add: live_def)
qed

text \<open>The error of a permanent failure is not the one reported: \<^verbatim>\<open>lastErr\<close> is set only after the check,
  so a first attempt that fails for good is reported with no error at all.\<close>

lemma permanent_error_lost:
  "is_permanent e \<Longrightarrow> judge p 1 None (Some e) = Give_up None \<and> judge p 2 (Some e1) (Some e) = Give_up (Some e1)"
  by (simp add: judge_def)

text \<open>\<^verbatim>\<open>Snapshot\<close> reports zeros whatever the counters are.\<close>

lemma snapshot_zero: "\<exists>p. 0 < sint (accepted p) \<and> metrics_snapshot p = [0, 0, 0, 0, 0, 0]"
  by (rule exI [of _ "undefined\<lparr>accepted := 5\<rparr>"]) (simp add: metrics_snapshot_def eval_nat_numeral)

subsection \<open>Properties\<close>

text \<open>The counters account for every job and every retry is bounded.  In every reachable state the
jobs taken in (counted, or on the way to the counter) are those succeeded, failed, queued and held
by a worker; \<^verbatim>\<open>InFlight\<close> is the number of running workers, not of jobs; the queue is within its
depth; and a worker never makes more attempts at a job than the policy allows, nor waits after the
last.\<close>

theorem processor_accounts:
  assumes "new_processor n d c e = Some p" "step\<^sup>*\<^sup>* p q"
  shows "accepted q + of_nat (uncounted q) =
      succeeded q + failed q + of_nat (length (queue q) + sum_list (map slot_load (workers q))) \<and>
    in_flight q = of_nat (live q) \<and> length (queue q) \<le> depth q \<and>
    (\<forall>w \<in> set (workers q). slot_ok (with_defaults c) w)"
proof -
  have inv: "proc_inv (nat (sint n)) (with_defaults c) q" using assms by (rule job_run_inv)
  then have "succeeded q + failed q + jp.open_jobs q = 0" by (simp add: proc_inv_def counted_def)
  then have "accepted q + of_nat (uncounted q) =
      succeeded q + failed q + of_nat (length (queue q) + sum_list (map slot_load (workers q)))"
    unfolding jp.open_jobs_def by (simp add: algebra_simps)
  with inv show ?thesis by (simp add: proc_inv_def jp.bounded_def)
qed

text \<open>A job that fails once and succeeds on the second attempt, under a policy of two.\<close>

definition demo_job :: job where
  "demo_job = \<lparr>job_id = ''a'', job_run = (\<lambda>n. Returns (if n = 1 then Some (Plain ''busy'') else None))\<rparr>"

definition demo :: processor where
  "demo = \<lparr>queue = [demo_job], depth = 1, closed = False, cancelled = False, workers = [Fresh], accepted = 0,
           rejected = 0, uncounted = 1, pol = \<lparr>max_attempts = 2, backoff = 1\<rparr>, succeeded = 0, failed = 0,
           retried = 0, in_flight = 0, ctx_err = Ctx_canceled, log = []\<rparr>"

lemma job_demo_reached: "\<exists>p. new_processor 1 1 \<lparr>max_attempts = 2, backoff = 1\<rparr> Ctx_canceled = Some p \<and> step p demo"
  by (auto simp: new_processor_def with_defaults_def Let_def step_def demo_def submit_job_def submit_def
      intro!: disjI2 call_step.submit [of None demo_job _ Accepted])

theorem processor_accounts_witness: "accepted demo + 1 = succeeded demo + failed demo + 1"
proof -
  obtain p where p: "new_processor 1 1 \<lparr>max_attempts = 2, backoff = 1\<rparr> Ctx_canceled = Some p" "step p demo"
    using job_demo_reached by blast
  from processor_accounts [OF p(1) r_into_rtranclp, OF p(2)] show ?thesis by (simp add: demo_def)
qed

text \<open>C23: graceful shutdown of a processor with at least one worker.  After \<^verbatim>\<open>Stop\<close> has closed the intake,
with the context not cancelled, the
goroutines run out of steps whatever the handlers return and however the retries interleave; then
every worker has returned, the queue is empty, every accepted job has succeeded or failed, and
\<^verbatim>\<open>InFlight\<close> is back at zero.\<close>

theorem shutdown_drains:
  assumes "new_processor n d c e = Some p" "0 < sint n" "step\<^sup>*\<^sup>* p q" "closed q" "\<not> cancelled q"
    and run: "(work_step ^^ k) q r"
  shows "k \<le> proc_work q \<and>
    ((\<nexists>t. work_step r t) \<longrightarrow>
       queue r = [] \<and> list_all (\<lambda>w. w = Gone) (workers r) \<and> accepted r = succeeded r + failed r \<and> in_flight r = 0)"
proof (intro conjI impI)
  have "proc_inv (nat (sint n)) (with_defaults c) q" using assms(1,3) by (rule job_run_inv)
  from job_steps_bound [OF run this] have inv: "proc_inv (nat (sint n)) (with_defaults c) r"
    and "k + proc_work r \<le> proc_work q" by blast+
  then show "k \<le> proc_work q" by linarith
  assume stuck: "\<nexists>t. work_step r t"
  have r: "closed r" "\<not> cancelled r"
    using job_steps_frame [OF relpowp_imp_rtranclp, OF run] assms(4,5) by blast+
  have gone: "list_all (\<lambda>w. w = Gone) (workers r)" and un: "uncounted r = 0"
    using job_work_stuck [OF r(1) stuck] by blast+
  from gone show "list_all (\<lambda>w. w = Gone) (workers r)" .
  have "length (workers r) = nat (sint n)" using inv by (simp add: proc_inv_def)
  then have "workers r \<noteq> []" using assms(2) by auto
  moreover have "jp.settled r" using inv by (simp add: proc_inv_def)
  ultimately have e: "queue r = []" "sum_list (map slot_load (workers r)) = 0"
    using jp.all_gone_empty gone r(2) by blast+
  then show "queue r = []" by blast
  have "succeeded r + failed r + jp.open_jobs r = 0" using inv by (simp add: proc_inv_def counted_def)
  then show "accepted r = succeeded r + failed r" by (simp add: jp.open_jobs_def e un algebra_simps)
  show "in_flight r = 0" using inv all_gone_live [OF gone] by (simp add: proc_inv_def)
qed

theorem shutdown_drains_witness:
  "\<exists>q r. step\<^sup>*\<^sup>* demo q \<and> work_step q r \<and> closed r \<and> 1 \<le> proc_work q"
proof -
  let ?q = "demo\<lparr>closed := True\<rparr>"
  obtain p where p: "new_processor 1 1 \<lparr>max_attempts = 2, backoff = 1\<rparr> Ctx_canceled = Some p" "step p demo"
    using job_demo_reached by blast
  have dq: "step demo ?q" by (auto simp: step_def stop_def demo_def intro: call_step.stop)
  with p(2) have reach: "step\<^sup>*\<^sup>* p ?q" by (meson converse_rtranclp_into_rtranclp rtranclp.rtrancl_refl)
  have on: "closed ?q" "\<not> cancelled ?q" by (simp_all add: demo_def)
  have w: "work_step ?q (set_worker 0 Idle (?q\<lparr>in_flight := 1\<rparr>))"
    by (rule work_step.start [of 0]) (simp add: begin_worker_def demo_def)
  then have "(work_step ^^ 1) ?q (set_worker 0 Idle (?q\<lparr>in_flight := 1\<rparr>))" by (simp only: relpowp_1)
  from conjunct1 [OF shutdown_drains [OF p(1) _ reach on this]] have "1 \<le> proc_work ?q" by simp
  moreover have "closed (set_worker 0 Idle (?q\<lparr>in_flight := 1\<rparr>))" by (simp add: set_worker_def)
  ultimately show ?thesis using dq w by blast
qed

text \<open>Shutdown as \<^verbatim>\<open>main\<close> performs it, cancelling the context before \<^verbatim>\<open>Stop\<close>, does not drain: a worker
  may see the context first, and an accepted job is neither run nor counted.\<close>

lemma cancelled_shutdown_abandons:
  "\<exists>p r. new_processor 1 1 \<lparr>max_attempts = 2, backoff = 1\<rparr> Ctx_canceled = Some p \<and> step\<^sup>*\<^sup>* p r \<and>
     closed r \<and> list_all (\<lambda>w. w = Gone) (workers r) \<and> queue r = [demo_job] \<and>
     accepted r = 1 \<and> succeeded r = 0 \<and> failed r = 0"
proof -
  obtain p where p: "new_processor 1 1 \<lparr>max_attempts = 2, backoff = 1\<rparr> Ctx_canceled = Some p" "step p demo"
    using job_demo_reached by blast
  let ?a = "set_worker 0 Idle (demo\<lparr>in_flight := 1\<rparr>)"
  let ?b = "?a\<lparr>accepted := 1, uncounted := 0\<rparr>"
  let ?c = "?b\<lparr>cancelled := True\<rparr>"
  let ?d = "?c\<lparr>closed := True\<rparr>"
  let ?e = "?d\<lparr>workers := [Gone], in_flight := 0\<rparr>"
  have "step demo ?a" unfolding step_def
    by (rule disjI1, rule work_step.start [of 0]) (simp add: begin_worker_def demo_def)
  moreover have "step ?a ?b" unfolding step_def
    by (rule disjI1, rule work_step.count) (simp add: count_accepted_def demo_def set_worker_def)
  moreover have "step ?b ?c" unfolding step_def using call_step.cancel [of ?b] by (simp add: cancel_def)
  moreover have "step ?c ?d" unfolding step_def
    by (rule disjI2, rule call_step.stop) (simp add: stop_def demo_def set_worker_def)
  moreover have "step ?d ?e" unfolding step_def
    by (rule disjI1, rule work_step.leave [of 0]) (simp add: end_worker_def leave_def demo_def set_worker_def)
  ultimately have "step\<^sup>*\<^sup>* p ?e" using p(2)
    by (meson converse_rtranclp_into_rtranclp rtranclp.rtrancl_refl)
  moreover have "closed ?e \<and> list_all (\<lambda>w. w = Gone) (workers ?e) \<and> queue ?e = [demo_job] \<and>
      accepted ?e = 1 \<and> succeeded ?e = 0 \<and> failed ?e = 0" by (simp add: demo_def set_worker_def)
  ultimately show ?thesis using p(1) by blast
qed

end
