(* ===== verification/Jobproc_Retries.thy ===== *)
theory Jobproc_Retries
  imports Jobproc
begin

text \<open>
  \<^verbatim>\<open>runWithRetries\<close> of \<^verbatim>\<open>08-concurrency/examples/05-jobprocessor\<close> as the sequential function it is
  written as, and the processor's interleaved steps as an implementation of it: what every worker does,
  however the goroutines interleave, is a sequence of complete runs of that function, the last one
  perhaps unfinished, and the counters and the log are those of the runs.
\<close>

subsection \<open>The function\<close>

text \<open>The effects of a run: an attempt made, and what is counted and logged.\<close>

datatype effect = Tried nat | Success | Failure "jerror option" | Retry nat jerror

text \<open>The loop from attempt \<open>n\<close> on.  \<open>ended\<close> is the pause in which the select sees the end of the context, if
  it ever does, and \<open>err\<close> is then \<^verbatim>\<open>ctx.Err()\<close>.\<close>

function retry_loop :: "policy \<Rightarrow> jerror \<Rightarrow> nat option \<Rightarrow> job \<Rightarrow> nat \<Rightarrow> jerror option \<Rightarrow> effect list" where
  "retry_loop c err ended j n lasterr =
     (if n \<le> max_tries c
      then Tried n # (case safe_run j n of
          None \<Rightarrow> [Success]
        | Some e \<Rightarrow>
            if is_permanent e \<or> is_canceled e then [Failure lasterr]
            else if n < max_tries c
            then Retry n e #
              (if ended = Some n then [Failure (Some err)] else retry_loop c err ended j (n + 1) (Some e))
            else retry_loop c err ended j (n + 1) (Some e))
      else [Failure lasterr])"
  by pat_completeness auto
termination by (relation "measure (\<lambda>(c, err, ended, j, n, lasterr). Suc (max_tries c) - n)") auto

declare retry_loop.simps [simp del]

definition run_with_retries :: "policy \<Rightarrow> jerror \<Rightarrow> nat option \<Rightarrow> job \<Rightarrow> effect list" where
  "run_with_retries c err ended j = retry_loop c err ended j 1 None"

subsection \<open>The steps with their effects\<close>

datatype jevent = Take nat job | Act nat job effect

fun worker_of :: "jevent \<Rightarrow> nat" where
  "worker_of (Take i j) = i"
| "worker_of (Act i j x) = i"

abbreviation by_worker :: "nat \<Rightarrow> jevent list \<Rightarrow> jevent list" where
  "by_worker i es \<equiv> filter (\<lambda>e. worker_of e = i) es"

fun slot_acts :: "policy \<Rightarrow> nat \<Rightarrow> slot \<Rightarrow> jevent list" where
  "slot_acts c i (Attempt j n lasterr) =
     map (Act i j) (Tried n # (case judge c n lasterr (safe_run j n) of
        Succeed \<Rightarrow> [Success] | Give_up e \<Rightarrow> [Failure e] | Again e \<Rightarrow> [Retry n e]))"
| "slot_acts c i s = []"

fun cut_acts :: "jerror \<Rightarrow> nat \<Rightarrow> slot \<Rightarrow> jevent list" where
  "cut_acts err i (Waiting j n e) = [Act i j (Failure (Some err))]"
| "cut_acts err i s = []"

inductive act_step :: "processor \<Rightarrow> jevent list \<Rightarrow> processor \<Rightarrow> bool" where
  start: "begin_worker i p = Some q \<Longrightarrow> act_step p [] q"
| take: "take_next Idle first_try i p = Some q \<Longrightarrow> act_step p [Take i (hd (queue p))] q"
| attempt: "attempt_job i p = Some q \<Longrightarrow> act_step p (slot_acts (pol p) i (workers p ! i)) q"
| timer: "timer_fires i p = Some q \<Longrightarrow> act_step p [] q"
| wait_end: "wait_cancelled i p = Some q \<Longrightarrow> act_step p (cut_acts (ctx_err p) i (workers p ! i)) q"
| leave: "end_worker i p = Some q \<Longrightarrow> act_step p [] q"
| count: "count_accepted p = Some q \<Longrightarrow> act_step p [] q"
| submit: "submit_job h j p = (r, q) \<Longrightarrow> r \<noteq> Panicked \<Longrightarrow>
    act_step p (if workers q = workers p then [] else [Take (the h) j]) q"
| stop: "stop p = Some q \<Longrightarrow> act_step p [] q"
| cancel: "act_step p [] (cancel p)"

inductive acts :: "processor \<Rightarrow> jevent list \<Rightarrow> processor \<Rightarrow> bool" where
  none: "acts p [] p"
| more: "acts p es q \<Longrightarrow> act_step q es1 r \<Longrightarrow> acts p (es @ es1) r"

text \<open>They are the steps of the processor.\<close>

lemma act_step_iff: "(\<exists>es. act_step p es q) \<longleftrightarrow> step p q"
proof
  show "\<exists>es. act_step p es q \<Longrightarrow> step p q"
    by (auto simp: step_def elim!: act_step.cases intro: work_step.intros call_step.intros)
  assume "step p q"
  then consider "work_step p q" | "call_step p q" by (auto simp: step_def)
  then show "\<exists>es. act_step p es q"
  proof cases
    case 1
    then show ?thesis by (cases rule: work_step.cases) (blast intro: act_step.intros)+
  next
    case 2
    then show ?thesis by (cases rule: call_step.cases) (blast intro: act_step.intros)+
  qed
qed

lemma acts_iff: "(\<exists>es. acts p es q) \<longleftrightarrow> step\<^sup>*\<^sup>* p q"
proof
  assume "\<exists>es. acts p es q"
  then obtain es where "acts p es q" by blast
  then show "step\<^sup>*\<^sup>* p q"
    by (induction rule: acts.induct) (auto intro: rtranclp.rtrancl_into_rtrancl act_step_iff [THEN iffD1])
next
  show "step\<^sup>*\<^sup>* p q \<Longrightarrow> \<exists>es. acts p es q"
    by (induction rule: rtranclp_induct) (blast intro: acts.intros dest: act_step_iff [THEN iffD2])+
qed

subsection \<open>What a worker has done\<close>

text \<open>A complete run: the job taken and the effects of the function on it.\<close>

definition job_acts :: "policy \<Rightarrow> jerror \<Rightarrow> nat \<Rightarrow> nat option \<times> job \<Rightarrow> jevent list" where
  "job_acts c err i = (\<lambda>(ended, j). Take i j # map (Act i j) (run_with_retries c err ended j))"

text \<open>The part of a run a worker has done: whatever the select may still choose, the loop does the rest.\<close>

fun unfinished :: "policy \<Rightarrow> jerror \<Rightarrow> nat \<Rightarrow> slot \<Rightarrow> jevent list \<Rightarrow> bool" where
  "unfinished c err i (Attempt j n e) pre \<longleftrightarrow>
     (\<forall>ended. (\<forall>m. ended = Some m \<longrightarrow> n \<le> m) \<longrightarrow>
        job_acts c err i (ended, j) = pre @ map (Act i j) (retry_loop c err ended j n e))"
| "unfinished c err i (Waiting j n e) pre \<longleftrightarrow>
     (\<forall>ended. (\<forall>m. ended = Some m \<longrightarrow> n \<le> m) \<longrightarrow>
        job_acts c err i (ended, j) = pre @ map (Act i j)
          (if ended = Some n then [Failure (Some err)] else retry_loop c err ended j (n + 1) (Some e)))"
| "unfinished c err i s pre \<longleftrightarrow> pre = []"

definition worker_ok :: "policy \<Rightarrow> jerror \<Rightarrow> bool \<Rightarrow> nat \<Rightarrow> slot \<Rightarrow> jevent list \<Rightarrow> bool" where
  "worker_ok c err over i s h \<longleftrightarrow>
     (\<exists>runs pre. h = concat (map (job_acts c err i) runs) @ pre \<and> unfinished c err i s pre \<and>
        (\<forall>r \<in> set runs. fst r \<noteq> None \<longrightarrow> over))"

lemma worker_okI:
  "h = concat (map (job_acts c err i) runs) @ pre \<Longrightarrow> unfinished c err i s pre \<Longrightarrow>
   \<forall>r \<in> set runs. fst r \<noteq> None \<longrightarrow> over \<Longrightarrow> worker_ok c err over i s h"
  unfolding worker_ok_def by blast

lemma worker_ok_over: "worker_ok c err over i s h \<Longrightarrow> over \<longrightarrow> over' \<Longrightarrow> worker_ok c err over' i s h"
  unfolding worker_ok_def by blast

lemma worker_ok_parked:
  "worker_ok c err over i s h \<Longrightarrow> s \<in> {Fresh, Idle, Gone} \<Longrightarrow> s' \<in> {Fresh, Idle, Gone} \<Longrightarrow> worker_ok c err over i s' h"
proof -
  assume s: "s \<in> {Fresh, Idle, Gone}" "s' \<in> {Fresh, Idle, Gone}" and ok: "worker_ok c err over i s h"
  have "unfinished c err i s' pre \<longleftrightarrow> unfinished c err i s pre" for pre using s by auto
  with ok show ?thesis unfolding worker_ok_def by blast
qed

lemma loop_end: "max_tries c < n \<Longrightarrow> retry_loop c err ended j n le = [Failure le]"
  by (subst retry_loop.simps) simp

text \<open>One turn of the loop is the step's verdict.\<close>

lemma loop_judge:
  "n \<le> max_tries c \<Longrightarrow> retry_loop c err ended j n le =
     Tried n # (case judge c n le (safe_run j n) of
        Succeed \<Rightarrow> [Success] | Give_up e \<Rightarrow> [Failure e]
      | Again e \<Rightarrow> Retry n e # (if ended = Some n then [Failure (Some err)] else retry_loop c err ended j (n + 1) (Some e)))"
  by (subst retry_loop.simps)
    (auto simp: judge_def loop_end split: option.splits)

lemma worker_takes:
  "worker_ok c err over i Idle h \<Longrightarrow> worker_ok c err over i (first_try j) (h @ [Take i j])"
  unfolding worker_ok_def by (fastforce simp: job_acts_def run_with_retries_def)

lemma run_ends:
  assumes "worker_ok c err over i s h" "ended \<noteq> None \<longrightarrow> over"
    and "\<And>pre. unfinished c err i s pre \<Longrightarrow> job_acts c err i (ended, j) = pre @ es"
  shows "worker_ok c err over i Idle (h @ es)"
proof -
  obtain runs pre where r: "h = concat (map (job_acts c err i) runs) @ pre" "unfinished c err i s pre"
    "\<forall>r \<in> set runs. fst r \<noteq> None \<longrightarrow> over" using assms(1) unfolding worker_ok_def by blast
  then show ?thesis using assms(2,3)
    by (intro worker_okI [where runs = "runs @ [(ended, j)]" and pre = "[]"]) auto
qed

lemma worker_attempts:
  assumes ok: "worker_ok c err over i (Attempt j n le) h" and n: "n \<le> max_tries c"
    and s: "s = (case judge c n le (safe_run j n) of Again e \<Rightarrow> Waiting j n e | _ \<Rightarrow> Idle)"
  shows "worker_ok c err over i s (h @ slot_acts c i (Attempt j n le))"
proof (cases "judge c n le (safe_run j n)")
  case Succeed
  then show ?thesis using s loop_judge [OF n, of err None j le]
    by (auto intro!: run_ends [OF ok, where ended = None and j = j])
next
  case (Give_up e)
  then show ?thesis using s loop_judge [OF n, of err None j le]
    by (auto intro!: run_ends [OF ok, where ended = None and j = j])
next
  case (Again e)
  obtain runs pre where r: "h = concat (map (job_acts c err i) runs) @ pre" "unfinished c err i (Attempt j n le) pre"
    "\<forall>r \<in> set runs. fst r \<noteq> None \<longrightarrow> over" using ok unfolding worker_ok_def by blast
  have "unfinished c err i (Waiting j n e) (pre @ [Act i j (Tried n), Act i j (Retry n e)])"
    using r(2) loop_judge [OF n, of err _ j le] Again by simp
  then show ?thesis using r Again s by (intro worker_okI [where runs = runs]) auto
qed

lemma worker_resumes:
  assumes "worker_ok c err over i (Waiting j n e) h"
  shows "worker_ok c err over i (Attempt j (n + 1) (Some e)) h"
proof -
  have "unfinished c err i (Attempt j (n + 1) (Some e)) pre" if "unfinished c err i (Waiting j n e) pre" for pre
    unfolding unfinished.simps
  proof (intro allI impI)
    fix ended assume late: "\<forall>m. ended = Some m \<longrightarrow> n + 1 \<le> m"
    then have "\<forall>m. ended = Some m \<longrightarrow> n \<le> m" "ended \<noteq> Some n" by auto
    then show "job_acts c err i (ended, j) = pre @ map (Act i j) (retry_loop c err ended j (n + 1) (Some e))"
      using that by simp
  qed
  with assms show ?thesis unfolding worker_ok_def by blast
qed

lemma worker_cut:
  "worker_ok c err over i (Waiting j n e) h \<Longrightarrow> over \<Longrightarrow>
   worker_ok c err over i Idle (h @ [Act i j (Failure (Some err))])"
  by (rule run_ends [where ended = "Some n" and j = j]) auto

subsection \<open>Every step continues the workers' runs\<close>

lemma worker_step:
  assumes "worker_ok c err (cancelled p) k (workers p ! k) h"
    and "workers q = (workers p)[i := w]" "i < length (workers p)" "\<forall>e \<in> set es. worker_of e = i" "cancelled p \<longrightarrow> cancelled q"
    and "k = i \<Longrightarrow> worker_ok c err (cancelled p) i w (h @ es)"
  shows "worker_ok c err (cancelled q) k (workers q ! k) (h @ by_worker k es)"
proof (cases "k = i")
  case True
  then have "by_worker k es = es" using assms(4) by (simp add: filter_id_conv)
  then show ?thesis using True assms by (auto intro: worker_ok_over)
next
  case False
  then have "by_worker k es = []" using assms(4) by (auto simp: filter_empty_conv)
  then show ?thesis using False assms by (auto intro: worker_ok_over)
qed

lemma worker_same:
  "worker_ok c err (cancelled p) k (workers p ! k) h \<Longrightarrow> workers q = workers p \<Longrightarrow> cancelled p \<longrightarrow> cancelled q \<Longrightarrow>
   worker_ok c err (cancelled q) k (workers q ! k) (h @ by_worker k [])"
  by (auto intro: worker_ok_over)

lemma slot_acts_worker: "\<forall>e \<in> set (slot_acts c i s). worker_of e = i"
  by (cases s) (auto split: verdict.splits)

lemma cut_acts_worker: "\<forall>e \<in> set (cut_acts err i s). worker_of e = i"
  by (cases s) auto

lemma handed_over:
  assumes "submit idle busy hand j p = (r, q)" "workers q \<noteq> workers p"
  shows "\<exists>i. hand = Some i \<and> i < length (workers p) \<and> workers p ! i = idle \<and>
    workers q = (workers p)[i := busy j] \<and> cancelled q = cancelled p"
proof (cases "closed p \<or> length (queue p) < depth p")
  case True
  then have "workers q = workers p" using assms(1) by (auto simp: submit_def split: if_splits)
  then show ?thesis using assms(2) by blast
next
  case False
  then show ?thesis using assms by (cases hand) (auto simp: submit_def split: if_splits)
qed

lemma attempt_worker:
  assumes step: "attempt_job i p = Some q" and inv: "proc_inv m c p"
    and ok: "worker_ok c (ctx_err p) (cancelled p) k (workers p ! k) h"
  shows "worker_ok c (ctx_err p) (cancelled q) k (workers q ! k) (h @ by_worker k (slot_acts (pol p) i (workers p ! i)))"
proof -
  obtain j n le where j: "i < length (workers p)" "workers p ! i = Attempt j n le"
    using step by (auto simp: attempt_job_def split: if_splits slot.splits)
  let ?w = "case judge c n le (safe_run j n) of Again e \<Rightarrow> Waiting j n e | _ \<Rightarrow> Idle"
  have n: "n \<le> max_tries c" and c: "pol p = c" using slot_at [OF inv j(1)] j(2) by simp_all
  have q: "workers q = (workers p)[i := ?w]" "cancelled q = cancelled p"
    using step j c by (auto simp: attempt_job_def worker_ops split: verdict.splits)
  have "worker_ok c (ctx_err p) (cancelled p) i ?w (h @ slot_acts c i (workers p ! i))" if "k = i"
    using worker_attempts [OF _ n refl, of "ctx_err p" "cancelled p" i j le h] ok j that by simp
  then show ?thesis unfolding c
    by (intro worker_step [OF ok q(1) j(1)]) (auto simp: q(2) slot_acts_worker simp del: slot_acts.simps)
qed

lemma submit_worker:
  assumes step: "submit_job hand j p = (r, q)" and ok: "worker_ok c (ctx_err p) (cancelled p) k (workers p ! k) h"
  shows "worker_ok c (ctx_err p) (cancelled q) k (workers q ! k)
    (h @ by_worker k (if workers q = workers p then [] else [Take (the hand) j]))"
proof (cases "workers q = workers p")
  case True
  have "cancelled q = cancelled p"
    using step by (auto simp: submit_job_def submit_def split: if_splits option.splits)
  then have "worker_ok c (ctx_err p) (cancelled q) k (workers q ! k) (h @ by_worker k [])"
    by (intro worker_same [OF ok True]) simp
  then show ?thesis by (simp only: True if_True refl)
next
  case False
  then obtain i where i: "hand = Some i" "i < length (workers p)" "workers p ! i = Idle"
    "workers q = (workers p)[i := first_try j]" "cancelled q = cancelled p"
    using handed_over [OF step [unfolded submit_job_def] False] by blast
  have "worker_ok c (ctx_err p) (cancelled p) i (first_try j) (h @ [Take i j])" if "k = i"
    using worker_takes [of c "ctx_err p" "cancelled p" i h j] ok i(3) that by simp
  then have "worker_ok c (ctx_err p) (cancelled q) k (workers q ! k) (h @ by_worker k [Take i j])"
    by (intro worker_step [OF ok i(4,2)]) (simp_all add: i(5))
  then show ?thesis by (simp only: False if_False i(1) option.sel)
qed

lemma act_step_worker:
  assumes "act_step p es q" "proc_inv m c p" "worker_ok c (ctx_err p) (cancelled p) k (workers p ! k) h"
  shows "worker_ok c (ctx_err p) (cancelled q) k (workers q ! k) (h @ by_worker k es)"
  using assms
proof (induction rule: act_step.induct)
  case (start i p q)
  then show ?case
    by (intro worker_step [where p = p and i = i and w = Idle])
      (auto simp: begin_worker_def worker_ops intro: worker_ok_parked [of _ _ _ _ Fresh] split: if_splits)
next
  case (take i p q)
  then obtain j js where "queue p = j # js" by (auto simp: take_next_def split: list.splits)
  then show ?case using take
    by (intro worker_step [where p = p and i = i and w = "first_try j"])
      (auto simp: take_next_def intro: worker_takes [simplified] split: if_splits)
next
  case (attempt i p q)
  then show ?case by (intro attempt_worker)
next
  case (timer i p q)
  then obtain j n e where j: "i < length (workers p)" "workers p ! i = Waiting j n e"
    by (auto simp: timer_fires_def split: if_splits slot.splits)
  then show ?case using timer
    by (intro worker_step [where p = p and i = i and w = "Attempt j (n + 1) (Some e)"])
      (auto simp: timer_fires_def worker_ops intro: worker_resumes [simplified])
next
  case (wait_end i p q)
  then obtain j n e where j: "i < length (workers p)" "workers p ! i = Waiting j n e" "cancelled p"
    by (auto simp: wait_cancelled_def split: if_splits slot.splits)
  then show ?case using wait_end
    by (intro worker_step [where p = p and i = i and w = Idle])
      (auto simp: wait_cancelled_def worker_ops intro: worker_cut [simplified])
next
  case (leave i p q)
  then show ?case
    by (intro worker_step [where p = p and i = i and w = Gone])
      (auto simp: end_worker_def leave_def intro: worker_ok_parked [of _ _ _ _ Idle] split: if_splits)
next
  case (count p q)
  then show ?case by (intro worker_same) (auto simp: count_accepted_def split: if_splits)
next
  case (submit hand j p r q)
  then show ?case by (intro submit_worker)
next
  case (stop p q)
  then show ?case by (intro worker_same) (auto simp: stop_def split: if_splits)
next
  case (cancel p)
  then show ?case by (intro worker_same) (auto simp: cancel_def)
qed

subsection \<open>Every step counts and logs its effects\<close>

fun succeeds :: "jevent \<Rightarrow> bool" where
  "succeeds (Act i j Success) = True"
| "succeeds e = False"

fun fails :: "jevent \<Rightarrow> bool" where
  "fails (Act i j (Failure e)) = True"
| "fails e = False"

fun retries :: "jevent \<Rightarrow> bool" where
  "retries (Act i j (Retry n e)) = True"
| "retries e = False"

fun entries_of :: "policy \<Rightarrow> jevent \<Rightarrow> entry list" where
  "entries_of c (Act i j (Failure e)) = [Failed (job_id j) e]"
| "entries_of c (Act i j (Retry n e)) = [Retrying (job_id j) n e (backoff c)]"
| "entries_of c e = []"

definition told :: "policy \<Rightarrow> jevent list \<Rightarrow> processor \<Rightarrow> bool" where
  "told c es p \<longleftrightarrow>
     succeeded p = of_nat (length (filter succeeds es)) \<and> failed p = of_nat (length (filter fails es)) \<and>
     retried p = of_nat (length (filter retries es)) \<and> log p = concat (map (entries_of c) es)"

lemma told_same:
  "told c es p \<Longrightarrow> succeeded q = succeeded p \<Longrightarrow> failed q = failed p \<Longrightarrow> retried q = retried p \<Longrightarrow> log q = log p \<Longrightarrow>
   told c es q"
  by (simp add: told_def)

lemma told_take: "told c (es @ [Take i j]) p \<longleftrightarrow> told c es p" "told c (es @ []) p \<longleftrightarrow> told c es p"
  by (simp_all add: told_def)

lemma attempt_told:
  assumes "attempt_job i p = Some q" "told (pol p) es p"
  shows "told (pol p) (es @ slot_acts (pol p) i (workers p ! i)) q"
  using assms by (auto simp: attempt_job_def told_def worker_ops split: if_splits slot.splits verdict.splits)

lemma cut_told:
  assumes "wait_cancelled i p = Some q" "told (pol p) es p"
  shows "told (pol p) (es @ cut_acts (ctx_err p) i (workers p ! i)) q"
  using assms by (auto simp: wait_cancelled_def told_def worker_ops split: if_splits slot.splits)

lemma act_step_told:
  assumes "act_step p es1 q" "told (pol p) es p"
  shows "told (pol p) (es @ es1) q"
  using assms
proof (induction rule: act_step.induct)
  case (submit h j p r q)
  then have "told (pol p) es q"
    by (auto simp: submit_job_def submit_def intro: told_same split: if_splits option.splits)
  then show ?case by (simp add: told_take)
qed (auto simp: attempt_told cut_told told_take begin_worker_def take_next_def timer_fires_def end_worker_def leave_def
      count_accepted_def stop_def cancel_def worker_ops intro: told_same split: if_splits slot.splits list.splits)

lemma act_step_frame: "act_step p es q \<Longrightarrow> pol q = pol p \<and> ctx_err q = ctx_err p \<and> length (workers q) = length (workers p)"
  by (induction rule: act_step.induct)
    (auto simp: begin_worker_def take_next_def attempt_job_def timer_fires_def wait_cancelled_def end_worker_def leave_def
       count_accepted_def stop_def cancel_def submit_job_def submit_def worker_ops
       split: list.splits slot.splits verdict.splits if_splits option.splits)

lemma acts_invariant:
  assumes "acts p es q" "new_processor n d c e = Some p"
  shows "proc_inv (nat (sint n)) (with_defaults c) q \<and> ctx_err q = e \<and> told (with_defaults c) es q \<and>
    (\<forall>i < length (workers q). worker_ok (with_defaults c) e (cancelled q) i (workers q ! i) (by_worker i es))"
  using assms
proof (induction rule: acts.induct)
  case (none p)
  then have "proc_inv (nat (sint n)) (with_defaults c) p" by (rule new_inv)
  moreover have "ctx_err p = e" "told (with_defaults c) [] p" "\<forall>i < length (workers p). workers p ! i = Fresh"
    using none by (auto simp: new_processor_def told_def split: if_splits)
  ultimately show ?case by (auto intro!: worker_okI [where runs = "[]"])
next
  case (more p es q es1 r)
  note ih = more.IH [OF more.prems]
  have pol: "pol q = with_defaults c" using ih by (simp add: proc_inv_def)
  have "proc_inv (nat (sint n)) (with_defaults c) r"
    using ih act_step_iff [of q r] more.hyps(2) work_inv call_inv by (auto simp: step_def)
  moreover have "told (with_defaults c) (es @ es1) r"
    using act_step_told [OF more.hyps(2), of es] ih pol by simp
  moreover have "worker_ok (with_defaults c) e (cancelled r) i (workers r ! i) (by_worker i (es @ es1))"
    if "i < length (workers r)" for i
    using act_step_worker [OF more.hyps(2), of _ _ i "by_worker i es"] ih that act_step_frame [OF more.hyps(2)] by auto
  ultimately show ?case using act_step_frame [OF more.hyps(2)] ih by blast
qed

lemma unfinished_prefix:
  assumes "unfinished c err i s pre"
  shows "pre = [] \<or> slot_load s = 1 \<and> (\<exists>r rest. job_acts c err i r = pre @ rest)"
proof (cases s)
  case (Attempt j n e)
  with assms have "job_acts c err i (None, j) = pre @ map (Act i j) (retry_loop c err None j n e)" by simp
  with Attempt show ?thesis by auto
next
  case (Waiting j n e)
  with assms have "job_acts c err i (None, j) = pre @ map (Act i j) (retry_loop c err None j (n + 1) (Some e))" by simp
  with Waiting show ?thesis by auto
qed (use assms in auto)

subsection \<open>A run in closed form\<close>

text \<open>The attempt at which a run stops: success, a failure for good, the last attempt, or the pause cut short.\<close>

definition stops_at :: "policy \<Rightarrow> nat option \<Rightarrow> job \<Rightarrow> nat \<Rightarrow> bool" where
  "stops_at c ended j n \<longleftrightarrow>
     (case safe_run j n of None \<Rightarrow> True | Some e \<Rightarrow> is_permanent e \<or> is_canceled e) \<or> n = max_tries c \<or> ended = Some n"

definition last_acts :: "policy \<Rightarrow> jerror \<Rightarrow> job \<Rightarrow> nat \<Rightarrow> jerror option \<Rightarrow> effect list" where
  "last_acts c err j n lasterr =
     (case safe_run j n of
        None \<Rightarrow> [Success]
      | Some e \<Rightarrow>
          if is_permanent e \<or> is_canceled e then [Failure lasterr]
          else if n = max_tries c then [Failure (Some e)] else [Retry n e, Failure (Some err)])"

definition retried_acts :: "job \<Rightarrow> nat \<Rightarrow> effect list" where
  "retried_acts j n = [Tried n, Retry n (the (safe_run j n))]"

lemma loop_closed_form:
  assumes "n \<le> k" "k \<le> max_tries c" "stops_at c ended j k" "\<And>m. n \<le> m \<Longrightarrow> m < k \<Longrightarrow> \<not> stops_at c ended j m"
  shows "retry_loop c err ended j n le =
    concat (map (retried_acts j) [n..<k]) @ Tried k # last_acts c err j k (if n = k then le else safe_run j (k - 1))"
  using assms
proof (induction "k - n" arbitrary: n le)
  case 0
  then have "n = k" by simp
  then show ?case using 0
    by (subst retry_loop.simps) (auto simp: stops_at_def last_acts_def loop_end split: option.splits)
next
  case (Suc d)
  then have n: "n < k" by simp
  then obtain e where e: "safe_run j n = Some e" "\<not> is_permanent e" "\<not> is_canceled e" "n \<noteq> max_tries c" "ended \<noteq> Some n"
    using Suc.prems(4) [of n, unfolded stops_at_def] by (cases "safe_run j n") simp_all
  have "retry_loop c err ended j n le = Tried n # Retry n e # retry_loop c err ended j (n + 1) (Some e)"
    using e n Suc.prems(2) by (subst retry_loop.simps) simp
  also have "retry_loop c err ended j (n + 1) (Some e) =
      concat (map (retried_acts j) [n + 1..<k]) @
      Tried k # last_acts c err j k (if n + 1 = k then Some e else safe_run j (k - 1))"
    using Suc.prems n Suc.hyps(2) by (intro Suc.hyps(1)) auto
  finally show ?case using n e(1) by (auto simp: retried_acts_def upt_conv_Cons)
qed

text \<open>A worker can make every run of the function, the context having ended where the run needs it.\<close>

lemma acts_Cons: "acts q es1 r \<Longrightarrow> act_step p es q \<Longrightarrow> acts p (es @ es1) r"
proof (induction rule: acts.induct)
  case (none q)
  then show ?case using acts.more [OF acts.none] by fastforce
next
  case (more q es1 r es2 t)
  then show ?case using acts.more [of p "es @ es1" r es2 t] by simp
qed

lemma run_realized:
  assumes "i < length (workers p)" "workers p ! i = Attempt j n le" "n \<le> max_tries (pol p)"
    and "ended \<noteq> None \<longrightarrow> cancelled p"
  shows "\<exists>q. acts p (map (Act i j) (retry_loop (pol p) (ctx_err p) ended j n le)) q \<and> workers q = (workers p)[i := Idle]"
  using assms
proof (induction "max_tries (pol p) - n" arbitrary: p n le rule: less_induct)
  case less
  let ?v = "judge (pol p) n le (safe_run j n)"
  let ?es = "slot_acts (pol p) i (workers p ! i)"
  obtain q where q: "attempt_job i p = Some q" using less.prems by (simp add: attempt_job_def)
  then have s1: "act_step p ?es q" by (rule act_step.attempt)
  note loop = loop_judge [OF less.prems(3), of "ctx_err p" ended j le]
  show ?case
  proof (cases ?v)
    case (Again e)
    then have n: "n < max_tries (pol p)" by (auto simp: judge_def split: option.splits if_splits)
    have w: "workers q = (workers p)[i := Waiting j n e]" "pol q = pol p" "ctx_err q = ctx_err p" "cancelled q = cancelled p"
      using q less.prems Again by (auto simp: attempt_job_def worker_ops)
    show ?thesis
    proof (cases "ended = Some n")
      case True
      then obtain r where r: "wait_cancelled i q = Some r" using less.prems w by (simp add: wait_cancelled_def)
      from acts_Cons [OF acts.none act_step.wait_end [OF r]] have "acts q [Act i j (Failure (Some (ctx_err p)))] r"
        using w less.prems(1) by simp
      from acts_Cons [OF this s1] have "acts p (map (Act i j) (retry_loop (pol p) (ctx_err p) ended j n le)) r"
        using less.prems(2) Again True loop by simp
      moreover have "workers r = (workers p)[i := Idle]"
        using r w less.prems(1) by (auto simp: wait_cancelled_def worker_ops split: if_splits)
      ultimately show ?thesis by blast
    next
      case False
      obtain r where r: "timer_fires i q = Some r" using less.prems w by (simp add: timer_fires_def)
      then have wr: "workers r = (workers p)[i := Attempt j (n + 1) (Some e)]" "pol r = pol p" "ctx_err r = ctx_err p"
        "cancelled r = cancelled p" using w less.prems(1) by (auto simp: timer_fires_def worker_ops split: if_splits)
      obtain t where t: "acts r (map (Act i j) (retry_loop (pol p) (ctx_err p) ended j (n + 1) (Some e))) t"
        "workers t = (workers p)[i := Idle]"
        using less.hyps [of r "n + 1" "Some e"] wr less.prems n diff_less_mono2 [of n "n + 1" "max_tries (pol p)"]
        by (auto intro: that)
      from acts_Cons [OF acts_Cons [OF t(1) act_step.timer [OF r]] s1]
      have "acts p (?es @ map (Act i j) (retry_loop (pol p) (ctx_err p) ended j (n + 1) (Some e))) t" by simp
      then show ?thesis using less.prems(2) Again False loop t(2) by auto
    qed
  next
    case Succeed
    then have "workers q = (workers p)[i := Idle]" using q less.prems by (auto simp: attempt_job_def worker_ops)
    then show ?thesis using acts_Cons [OF acts.none s1] less.prems(2) Succeed loop by auto
  next
    case (Give_up e)
    then have "workers q = (workers p)[i := Idle]" using q less.prems by (auto simp: attempt_job_def worker_ops)
    then show ?thesis using acts_Cons [OF acts.none s1] less.prems(2) Give_up loop by auto
  qed
qed

subsection \<open>Properties\<close>

text \<open>C24: the processor implements \<^verbatim>\<open>runWithRetries\<close>.  However submitters, workers, timers and the context
  interleave, what a worker does is a sequence of complete runs of the function on the jobs it takes, and
  a beginning of one while it holds a job; a run is cut short only once the context has ended.  The
  counters and the log are those of the runs.\<close>

theorem workers_refine:
  assumes "new_processor n d c e = Some p" "acts p es q"
  shows "told (with_defaults c) es q \<and>
    (\<forall>i < length (workers q). \<exists>runs pre.
       by_worker i es = concat (map (job_acts (with_defaults c) e i) runs) @ pre \<and>
       (pre = [] \<or> slot_load (workers q ! i) = 1 \<and> (\<exists>r rest. job_acts (with_defaults c) e i r = pre @ rest)) \<and>
       (\<forall>r \<in> set runs. fst r \<noteq> None \<longrightarrow> cancelled q))"
proof -
  note inv = acts_invariant [OF assms(2,1)]
  have "\<exists>runs pre. by_worker i es = concat (map (job_acts (with_defaults c) e i) runs) @ pre \<and>
      (pre = [] \<or> slot_load (workers q ! i) = 1 \<and> (\<exists>r rest. job_acts (with_defaults c) e i r = pre @ rest)) \<and>
      (\<forall>r \<in> set runs. fst r \<noteq> None \<longrightarrow> cancelled q)" if "i < length (workers q)" for i
  proof -
    from inv that have "worker_ok (with_defaults c) e (cancelled q) i (workers q ! i) (by_worker i es)" by blast
    then show ?thesis unfolding worker_ok_def using unfinished_prefix by blast
  qed
  with inv show ?thesis by blast
qed

text \<open>A job that is busy at first, run to its end.\<close>

lemma demo_acts:
  "\<exists>p q. new_processor 1 1 \<lparr>max_attempts = 2, backoff = 1\<rparr> Ctx_canceled = Some p \<and>
     acts p [Take 0 demo_job, Act 0 demo_job (Tried 1), Act 0 demo_job (Retry 1 (Plain ''busy'')),
       Act 0 demo_job (Tried 2), Act 0 demo_job Success] q \<and> workers q = [Idle]"
proof -
  let ?p = "demo\<lparr>queue := [], uncounted := 0\<rparr>"
  have new: "new_processor 1 1 \<lparr>max_attempts = 2, backoff = 1\<rparr> Ctx_canceled = Some ?p"
    by (simp add: new_processor_def with_defaults_def Let_def demo_def)
  have p: "submit_job None demo_job ?p = (Accepted, demo)" by (simp add: submit_job_def submit_def demo_def)
  let ?a = "set_worker 0 Idle (demo\<lparr>in_flight := 1\<rparr>)"
  let ?b = "?a\<lparr>queue := [], workers := [first_try demo_job]\<rparr>"
  have a: "begin_worker 0 demo = Some ?a" by (simp add: begin_worker_def demo_def)
  have b: "take_next Idle first_try 0 ?a = Some ?b" by (simp add: take_next_def demo_def set_worker_def)
  have "retry_loop (pol ?b) (ctx_err ?b) None demo_job 1 None = [Tried 1, Retry 1 (Plain ''busy''), Tried 2, Success]"
    by (simp add: retry_loop.simps demo_def demo_job_def set_worker_def safe_run_def)
  with run_realized [of 0 ?b demo_job 1 None None] obtain q where
    q: "acts ?b (map (Act 0 demo_job) [Tried 1, Retry 1 (Plain ''busy''), Tried 2, Success]) q" "workers q = [Idle]"
    by (auto simp: demo_def set_worker_def)
  from acts_Cons [OF acts_Cons [OF q(1) act_step.take [OF b]] act_step.start [OF a]]
  have "acts demo [Take 0 demo_job, Act 0 demo_job (Tried 1), Act 0 demo_job (Retry 1 (Plain ''busy'')),
       Act 0 demo_job (Tried 2), Act 0 demo_job Success] q" by (simp add: set_worker_def demo_def)
  from acts_Cons [OF this act_step.submit [OF p]] new q(2) show ?thesis by auto
qed

theorem workers_refine_witness:
  "\<exists>runs. concat (map (job_acts \<lparr>max_attempts = 2, backoff = 1\<rparr> Ctx_canceled 0) runs) =
     [Take 0 demo_job, Act 0 demo_job (Tried 1), Act 0 demo_job (Retry 1 (Plain ''busy'')),
      Act 0 demo_job (Tried 2), Act 0 demo_job Success]"
proof -
  obtain p q where "new_processor 1 1 \<lparr>max_attempts = 2, backoff = 1\<rparr> Ctx_canceled = Some p"
    and "acts p [Take 0 demo_job, Act 0 demo_job (Tried 1), Act 0 demo_job (Retry 1 (Plain ''busy'')),
      Act 0 demo_job (Tried 2), Act 0 demo_job Success] q" and q: "workers q = [Idle]"
    using demo_acts by blast
  from conjunct2 [OF workers_refine [OF this(1,2)]] q show ?thesis
    by (fastforce simp: with_defaults_def Let_def)
qed

text \<open>C25: a run of \<^verbatim>\<open>runWithRetries\<close> makes the attempts up to the first that ends it, each but that one counted
  and logged as a retry: it ends with the first success; with a permanent or cancelled failure, reported
  as the error of the attempt before it, or as none; with the last attempt's own error; or with the
  context's, when that ends during the pause, and then the last attempt counts as a retry too.\<close>

theorem retries_closed_form:
  assumes "1 \<le> k" "k \<le> max_tries c" "stops_at c ended j k" "\<And>m. 1 \<le> m \<Longrightarrow> m < k \<Longrightarrow> \<not> stops_at c ended j m"
  shows "run_with_retries c err ended j =
    concat (map (retried_acts j) [1..<k]) @ Tried k # last_acts c err j k (if k = 1 then None else safe_run j (k - 1))"
  using loop_closed_form [OF assms, of err None] by (simp add: run_with_retries_def eq_commute [of 1 k])

theorem retries_closed_form_witness:
  "run_with_retries \<lparr>max_attempts = 3, backoff = 1\<rparr> Ctx_canceled None
     \<lparr>job_id = ''a'', job_run = (\<lambda>n. Returns (Some (if n = 1 then Plain ''busy'' else Permanent (Plain ''bad''))))\<rparr> =
   [Tried 1, Retry 1 (Plain ''busy''), Tried 2, Failure (Some (Plain ''busy''))]"
  by (subst retries_closed_form [of 2])
    (simp_all add: stops_at_def last_acts_def retried_acts_def safe_run_def upt_conv_Cons less_Suc_eq numeral_2_eq_2)

end
