(* ===== verification/Jobproc_Main.thy ===== *)
theory Jobproc_Main
  imports Jobproc
begin

text \<open>
  \<^verbatim>\<open>main\<close> of \<^verbatim>\<open>08-concurrency/examples/05-jobprocessor\<close>: eight jobs that all succeed, for four workers and
  sixteen slots, then the wait for the interrupt, \<^verbatim>\<open>Stop\<close> and the counters, interleaved with the workers and
  with the signal, which may come at any moment.
\<close>

subsection \<open>The program\<close>

text \<open>Where \<^verbatim>\<open>main\<close> is: at a submission (at the eighth: waiting for the context), between a send and its counter,
  in \<^verbatim>\<open>Stop\<close>, or past its last line.\<close>

datatype main_pc = Submitting nat | Counting nat | Draining | Reported "int64 \<times> int64 \<times> int64"

definition sleep_job :: "nat \<Rightarrow> job" where
  "sleep_job i = \<lparr>job_id = ''job-'' @ int_text (int i), job_run = (\<lambda>n. Returns None)\<rparr>"

definition main_policy :: policy where
  "main_policy = \<lparr>max_attempts = 3, backoff = 20000000\<rparr>"

inductive main_step :: "main_pc \<times> processor \<Rightarrow> main_pc \<times> processor \<Rightarrow> bool" where
  worker: "work_step p q \<Longrightarrow> uncounted q = uncounted p \<Longrightarrow> main_step (pc, p) (pc, q)"
| signal: "\<not> cancelled p \<Longrightarrow> main_step (pc, p) (pc, cancel p)"
| send: "i < 8 \<Longrightarrow> submit_job h (sleep_job i) p = (Accepted, q) \<Longrightarrow> main_step (Submitting i, p) (Counting i, q)"
| shed: "i < 8 \<Longrightarrow> submit_job h (sleep_job i) p = (Overloaded, q) \<Longrightarrow> main_step (Submitting i, p) (Submitting (i + 1), q)"
| add: "count_accepted p = Some q \<Longrightarrow> main_step (Counting i, p) (Submitting (i + 1), q)"
| stop: "cancelled p \<Longrightarrow> stop p = Some q \<Longrightarrow> main_step (Submitting 8, p) (Draining, q)"
| wait: "list_all (\<lambda>w. w = Gone) (workers p) \<Longrightarrow>
    main_step (Draining, p) (Reported (succeeded p, failed p, retried p), p)"

subsection \<open>Invariant\<close>

text \<open>Nothing fails, is retried or is shed.\<close>

fun calm_slot :: "slot \<Rightarrow> bool" where
  "calm_slot (Attempt j n e) \<longleftrightarrow> (\<forall>m. job_run j m = Returns None)"
| "calm_slot (Waiting j n e) \<longleftrightarrow> False"
| "calm_slot _ \<longleftrightarrow> True"

definition calm :: "processor \<Rightarrow> bool" where
  "calm p \<longleftrightarrow>
     (\<forall>j \<in> set (queue p). \<forall>m. job_run j m = Returns None) \<and> (\<forall>w \<in> set (workers p). calm_slot w) \<and>
     failed p = 0 \<and> retried p = 0 \<and> rejected p = 0 \<and> depth p = 16"

definition tally :: "nat \<Rightarrow> processor \<Rightarrow> bool" where
  "tally i p \<longleftrightarrow>
     accepted p = of_nat i \<and> length (queue p) + sum_list (map slot_load (workers p)) \<le> i + uncounted p"

fun at_pc :: "main_pc \<Rightarrow> processor \<Rightarrow> bool" where
  "at_pc (Submitting i) p \<longleftrightarrow> i \<le> 8 \<and> tally i p \<and> uncounted p = 0 \<and> \<not> closed p"
| "at_pc (Counting i) p \<longleftrightarrow> i < 8 \<and> tally i p \<and> uncounted p = 1 \<and> \<not> closed p"
| "at_pc Draining p \<longleftrightarrow> tally 8 p \<and> uncounted p = 0 \<and> closed p \<and> cancelled p"
| "at_pc (Reported s) p \<longleftrightarrow>
     s = (succeeded p, 0, 0) \<and> tally 8 p \<and> uncounted p = 0 \<and> cancelled p \<and> list_all (\<lambda>w. w = Gone) (workers p)"

definition main_inv :: "main_pc \<times> processor \<Rightarrow> bool" where
  [inv_defs]: "main_inv = (\<lambda>(pc, p). proc_inv 4 main_policy p \<and> calm p \<and> at_pc pc p)"

lemma calm_update: "\<forall>w \<in> set ws. calm_slot w \<Longrightarrow> calm_slot v \<Longrightarrow> \<forall>w \<in> set (ws[i := v]). calm_slot w"
  using set_update_subset_insert [of ws i v] by auto

text \<open>An attempt ends in success, and nobody waits for a timer.\<close>

lemma calm_attempt:
  assumes "attempt_job i p = Some q" "calm p"
  shows "i < length (workers p) \<and> slot_load (workers p ! i) = 1 \<and> q = set_worker i Idle (p\<lparr>succeeded := succeeded p + 1\<rparr>)"
proof -
  obtain j n e where j: "i < length (workers p)" "workers p ! i = Attempt j n e"
    using assms(1) by (auto simp: attempt_job_def split: if_splits slot.splits)
  then have "calm_slot (Attempt j n e)" using assms(2) unfolding calm_def by (metis nth_mem)
  then have "safe_run j n = None" by (simp add: safe_run_def)
  then show ?thesis using assms(1) j by (simp add: attempt_job_def judge_def)
qed

lemma calm_no_wait:
  assumes "calm p"
  shows "timer_fires i p = None" "wait_cancelled i p = None"
proof -
  have "i < length (workers p) \<Longrightarrow> calm_slot (workers p ! i)" using assms by (simp add: calm_def)
  then show "timer_fires i p = None" "wait_cancelled i p = None"
    by (auto simp: timer_fires_def wait_cancelled_def split: slot.splits)
qed

lemma calm_worker:
  assumes "work_step p q" "calm p"
  shows "calm q"
  using assms
proof (induction rule: work_step.induct)
  case (start i p q)
  then show ?case using calm_update [of "workers p" Idle i]
    by (auto simp: begin_worker_def worker_ops calm_def split: if_splits)
next
  case (take i p q)
  then obtain j js where "queue p = j # js" by (auto simp: take_next_def split: list.splits)
  with take show ?case using calm_update [of "workers p" "first_try j" i]
    by (auto simp: take_next_def calm_def split: if_splits)
next
  case (attempt i p q)
  then show ?case using calm_attempt [of i p q] calm_update [of "workers p" Idle i] by (simp add: calm_def worker_ops)
next
  case (leave i p q)
  then show ?case using calm_update [of "workers p" Gone i]
    by (auto simp: end_worker_def leave_def calm_def split: if_splits)
qed (auto simp: calm_no_wait count_accepted_def calm_def split: if_splits)

lemma job_load_update:
  "i < length ws \<Longrightarrow> sum_list (map slot_load (ws[i := w])) + slot_load (ws ! i) = sum_list (map slot_load ws) + slot_load w"
  by (rule jp.load_update)

lemma tally_worker:
  assumes "work_step p q" "uncounted q = uncounted p" "calm p" "tally i p"
  shows "tally i q"
  using assms
proof (induction rule: work_step.induct)
  case (start k p q)
  then show ?case using job_load_update [of k "workers p" Idle]
    by (auto simp: begin_worker_def worker_ops tally_def split: if_splits)
next
  case (take k p q)
  then obtain j js where "queue p = j # js" by (auto simp: take_next_def split: list.splits)
  with take show ?case using job_load_update [of k "workers p" "first_try j"]
    by (auto simp: take_next_def tally_def split: if_splits)
next
  case (attempt k p q)
  then show ?case using calm_attempt [of k p q] job_load_update [of k "workers p" Idle] by (simp add: tally_def worker_ops)
next
  case (leave k p q)
  then show ?case using job_load_update [of k "workers p" Gone]
    by (auto simp: end_worker_def leave_def tally_def split: if_splits)
qed (auto simp: calm_no_wait count_accepted_def split: if_splits)

lemma gone_work: "work_step p q \<Longrightarrow> uncounted p = 0 \<Longrightarrow> \<not> list_all (\<lambda>w. w = Gone) (workers p)"
  by (induction rule: work_step.induct)
    (auto simp: begin_worker_def take_next_def attempt_job_def timer_fires_def wait_cancelled_def end_worker_def leave_def
       count_accepted_def list_all_length split: list.splits slot.splits if_splits)

lemma pc_worker:
  assumes "work_step p q" "uncounted q = uncounted p" "calm p" "at_pc pc p"
  shows "at_pc pc q"
  using assms tally_worker [OF assms(1-3)] work_frame [OF assms(1)] gone_work [OF assms(1)]
  by (cases pc) auto

lemma submit_room:
  assumes "submit_job h j p = (r, q)" "length (queue p) < depth p" "\<not> closed p"
  shows "r = Accepted \<and> q = p\<lparr>queue := queue p @ [j], uncounted := uncounted p + 1\<rparr>"
  using assms by (auto simp: submit_job_def submit_def)

text \<open>There is always room.\<close>

lemma main_submit:
  assumes "main_inv (Submitting i, p)" "i < 8" "submit_job h j p = (r, q)"
  shows "r = Accepted \<and> q = p\<lparr>queue := queue p @ [j], uncounted := uncounted p + 1\<rparr>"
  using assms by (intro submit_room [OF assms(3)]) (auto simp: main_inv_def calm_def tally_def)

lemma jobmain_inv_step:
  assumes "main_step s t" "main_inv s"
  shows "main_inv t"
  using assms
proof (induction rule: main_step.induct)
  case (worker p q pc)
  then show ?case using work_inv [of p q] calm_worker [of p q] pc_worker [of p q pc] by (simp add: main_inv_def)
next
  case (signal p pc)
  then have "proc_inv 4 main_policy (cancel p)" using call_inv [OF call_step.cancel] by (simp add: main_inv_def)
  with signal show ?case by (cases pc) (auto simp: main_inv_def cancel_def calm_def tally_def)
next
  case (send i h p q)
  then have q: "q = p\<lparr>queue := queue p @ [sleep_job i], uncounted := uncounted p + 1\<rparr>" using main_submit by blast
  have "proc_inv 4 main_policy q" using send submit_inv by (simp add: main_inv_def)
  with send q show ?case by (auto simp: main_inv_def calm_def tally_def sleep_job_def)
next
  case (shed i h p q)
  then have False using main_submit by blast
  then show ?case ..
next
  case (add p q i)
  then have "proc_inv 4 main_policy q" using count_inv by (simp add: main_inv_def)
  with add show ?case by (auto simp: main_inv_def count_accepted_def calm_def tally_def split: if_splits)
next
  case (stop p q)
  then have "proc_inv 4 main_policy q" using call_inv [OF call_step.stop] by (simp add: main_inv_def)
  with stop show ?case by (auto simp: main_inv_def stop_def calm_def tally_def split: if_splits)
next
  case (wait p)
  then show ?case by (simp add: main_inv_def calm_def)
qed

subsection \<open>Termination\<close>

fun pc_work :: "main_pc \<Rightarrow> nat" where
  "pc_work (Submitting i) = 8 * (8 - i) + 3"
| "pc_work (Counting i) = 8 * (8 - i) - 5"
| "pc_work Draining = 2"
| "pc_work (Reported s) = 1"

definition main_work :: "main_pc \<times> processor \<Rightarrow> nat" where
  "main_work = (\<lambda>(pc, p). pc_work pc + proc_work p + (if cancelled p then 0 else 1))"

lemma max_tries_main: "proc_inv n main_policy p \<Longrightarrow> max_tries (pol p) = 3"
  by (simp add: proc_inv_def main_policy_def)

lemma jobmain_step_less:
  assumes "main_step s t" "main_inv s"
  shows "main_work t < main_work s"
  using assms
proof (induction rule: main_step.induct)
  case (worker p q pc)
  then show ?case using job_step_less [of p q] work_frame [of p q] by (fastforce simp: main_work_def main_inv_def)
next
  case (send i h p q)
  then have "q = p\<lparr>queue := queue p @ [sleep_job i], uncounted := uncounted p + 1\<rparr>" using main_submit by blast
  moreover have "max_tries (pol p) = 3" using send(3) max_tries_main by (auto simp: main_inv_def)
  ultimately show ?case using send(1) by (simp add: main_work_def proc_work_def)
next
  case (shed i h p q)
  then have False using main_submit by blast
  then show ?case ..
next
  case (add p q i)
  then have "uncounted p = 1" "i < 8" by (auto simp: main_inv_def)
  then show ?case using add(1) by (auto simp: main_work_def proc_work_def count_accepted_def)
qed (auto simp: main_work_def proc_work_def stop_def cancel_def split: if_splits)

lemma jobmain_steps:
  "(main_step ^^ k) s t \<Longrightarrow> main_inv s \<Longrightarrow> main_inv t \<and> k + main_work t \<le> main_work s"
proof (induction k arbitrary: t)
  case (Suc k)
  then obtain u where "(main_step ^^ k) s u" "main_step u t" by auto
  with Suc.IH [of u] Suc.prems(2) jobmain_inv_step [of u t] jobmain_step_less [of u t] show ?case by fastforce
qed simp

lemma jobmain_moves:
  assumes inv: "main_inv (pc, p)" and stuck: "\<nexists>t. main_step (pc, p) t"
  shows "\<exists>s. pc = Reported s"
proof (cases pc)
  case (Submitting i)
  have c: "cancelled p" using stuck main_step.signal by blast
  show ?thesis
  proof (cases "i = 8")
    case True
    then have "stop p = Some (p\<lparr>closed := True\<rparr>)" using inv Submitting by (simp add: main_inv_def stop_def)
    then show ?thesis using stuck Submitting True main_step.stop [OF c] by blast
  next
    case False
    then have i: "i < 8" using inv Submitting by (simp add: main_inv_def)
    obtain r q where "submit_job None (sleep_job i) p = (r, q)" by (cases "submit_job None (sleep_job i) p")
    then have "main_step (pc, p) (Counting i, q)" using main_submit i inv main_step.send [OF i] unfolding Submitting by blast
    then show ?thesis using stuck by blast
  qed
next
  case (Counting i)
  then have "\<exists>q. count_accepted p = Some q" using inv by (simp add: main_inv_def count_accepted_def)
  then show ?thesis using stuck Counting main_step.add by blast
next
  case Draining
  then have d: "closed p" "uncounted p = 0" using inv by (auto simp: main_inv_def)
  show ?thesis
  proof (cases "list_all (\<lambda>w. w = Gone) (workers p)")
    case True
    then show ?thesis using stuck Draining main_step.wait by blast
  next
    case False
    then obtain i where "i < length (workers p)" "workers p ! i \<noteq> Gone" by (auto simp: list_all_length)
    then obtain q where q: "work_step p q" using job_slot_moves [OF d(1)] by blast
    then have "uncounted q = uncounted p"
      using d(2) by (induction rule: work_step.induct)
        (auto simp: begin_worker_def take_next_def attempt_job_def timer_fires_def wait_cancelled_def end_worker_def
          leave_def count_accepted_def worker_ops split: list.splits slot.splits verdict.splits if_splits)
    then show ?thesis using q stuck main_step.worker by blast
  qed
next
  case (Reported s)
  then show ?thesis by blast
qed

lemma main_start:
  assumes "new_processor 4 16 main_policy Ctx_canceled = Some p"
  shows "main_inv (Submitting 0, p)" "main_work (Submitting 0, p) = 76"
proof -
  have d: "with_defaults main_policy = main_policy" by (simp add: with_defaults_def main_policy_def)
  have p: "queue p = []" "depth p = 16" "\<not> closed p" "\<not> cancelled p" "workers p = [Fresh, Fresh, Fresh, Fresh]"
    "accepted p = 0" "rejected p = 0" "uncounted p = 0" "failed p = 0" "retried p = 0" "pol p = main_policy"
    using assms d by (auto simp: new_processor_def eval_nat_numeral)
  have "proc_inv 4 main_policy p" using new_inv [OF assms] d by simp
  then show "main_inv (Submitting 0, p)" by (simp add: main_inv_def calm_def tally_def p)
  show "main_work (Submitting 0, p) = 76" by (simp add: main_work_def proc_work_def p)
qed

lemma lost_jobs:
  assumes inv: "proc_inv n c p" and "list_all (\<lambda>w. w = Gone) (workers p)" "uncounted p = 0" "failed p = 0" "tally 8 p"
  shows "length (queue p) \<le> 8 \<and> succeeded p = of_nat (8 - length (queue p))"
proof -
  have "map slot_load (workers p) = map (\<lambda>w. 0) (workers p)" using assms(2) by (auto simp: list_all_iff)
  then have load: "sum_list (map slot_load (workers p)) = 0" by simp
  have len: "length (queue p) \<le> 8" using assms(3,5) by (simp add: tally_def)
  have "succeeded p + (of_nat (length (queue p)) - 8) = 0"
    using inv load assms(3-5) by (simp add: proc_inv_def counted_def jp.open_jobs_def tally_def)
  then have "succeeded p + of_nat (length (queue p)) = 8" by (simp add: algebra_simps)
  with len show ?thesis by (simp add: of_nat_diff algebra_simps)
qed

subsection \<open>Properties\<close>

text \<open>C28: \<^verbatim>\<open>main\<close> comes down after the interrupt, and reports what it did.  However the submissions, the
  workers and the signal interleave, it takes at most 76 steps and sheds no job; it can stop only after its
  last line, and only once the signal has come; that line names no failure and no retry, every worker has
  left, and the jobs that did not succeed are those still in the queue.\<close>

theorem main_reports:
  assumes "new_processor 4 16 main_policy Ctx_canceled = Some p" "(main_step ^^ k) (Submitting 0, p) (pc, q)"
  shows "k \<le> 76 \<and> rejected q = 0 \<and>
    ((\<nexists>t. main_step (pc, q) t) \<longrightarrow>
       cancelled q \<and> list_all (\<lambda>w. w = Gone) (workers q) \<and> length (queue q) \<le> 8 \<and>
       pc = Reported (of_nat (8 - length (queue q)), 0, 0))"
proof -
  note run = jobmain_steps [OF assms(2) main_start(1) [OF assms(1)]]
  have "k \<le> 76" "rejected q = 0" using run main_start(2) [OF assms(1)] by (auto simp: main_inv_def calm_def)
  moreover have "cancelled q \<and> list_all (\<lambda>w. w = Gone) (workers q) \<and> length (queue q) \<le> 8 \<and>
       pc = Reported (of_nat (8 - length (queue q)), 0, 0)" if stuck: "\<nexists>t. main_step (pc, q) t"
  proof -
    obtain s where s: "pc = Reported s" using jobmain_moves stuck run by blast
    then show ?thesis using run lost_jobs [of 4 main_policy q] by (auto simp: main_inv_def calm_def)
  qed
  ultimately show ?thesis by blast
qed

text \<open>A run in which every worker sees the signal before it takes a job.\<close>

definition idle_state :: "slot list \<Rightarrow> nat \<Rightarrow> int64 \<Rightarrow> bool \<Rightarrow> bool \<Rightarrow> processor" where
  "idle_state ws i f c cl =
     \<lparr>queue = map sleep_job [0..<i], depth = 16, closed = cl, cancelled = c, workers = ws, accepted = of_nat i,
      rejected = 0, uncounted = 0, pol = main_policy, succeeded = 0, failed = 0, retried = 0, in_flight = f,
      ctx_err = Ctx_canceled, log = []\<rparr>"

abbreviation four :: "slot \<Rightarrow> slot list" where
  "four w \<equiv> [w, w, w, w]"

lemma all_submitted:
  "i \<le> 8 \<Longrightarrow> main_step\<^sup>*\<^sup>* (Submitting 0, idle_state ws 0 f c False) (Submitting i, idle_state ws i f c False)"
proof (induction i)
  case (Suc i)
  let ?p = "idle_state ws i f c False"
  let ?q = "?p\<lparr>queue := queue ?p @ [sleep_job i], uncounted := 1\<rparr>"
  have "submit_job None (sleep_job i) ?p = (Accepted, ?q)"
    using Suc.prems by (simp add: submit_job_def submit_def idle_state_def)
  then have 1: "main_step (Submitting i, ?p) (Counting i, ?q)" using Suc.prems by (intro main_step.send) auto
  have "count_accepted ?q = Some (idle_state ws (Suc i) f c False)" by (simp add: count_accepted_def idle_state_def)
  then have 2: "main_step (Counting i, ?q) (Submitting (Suc i), idle_state ws (Suc i) f c False)"
    using main_step.add by fastforce
  from Suc.IH Suc.prems have "main_step\<^sup>*\<^sup>* (Submitting 0, idle_state ws 0 f c False) (Submitting i, ?p)" by simp
  from rtranclp.rtrancl_into_rtrancl [OF rtranclp.rtrancl_into_rtrancl [OF this 1] 2] show ?case .
qed simp

lemma worker_begins:
  assumes "ws ! i = Fresh" "i < length ws"
  shows "main_step (pc, idle_state ws n f c cl) (pc, idle_state (ws[i := Idle]) n (f + 1) c cl)"
  using assms by (intro main_step.worker work_step.start [of i]) (simp_all add: begin_worker_def worker_ops idle_state_def)

lemma worker_leaves:
  assumes "ws ! i = Idle" "i < length ws"
  shows "main_step (pc, idle_state ws n f True cl) (pc, idle_state (ws[i := Gone]) n (f - 1) True cl)"
  using assms by (intro main_step.worker work_step.leave [of i]) (simp_all add: end_worker_def leave_def idle_state_def)

lemma interrupted_run:
  "\<exists>p q. new_processor 4 16 main_policy Ctx_canceled = Some p \<and>
     main_step\<^sup>*\<^sup>* (Submitting 0, p) (Reported (0, 0, 0), q) \<and> length (queue q) = 8"
proof -
  let ?s = idle_state
  have new: "new_processor 4 16 main_policy Ctx_canceled = Some (?s (four Fresh) 0 0 False False)"
    by (simp add: new_processor_def with_defaults_def main_policy_def idle_state_def eval_nat_numeral)
  have "main_step\<^sup>*\<^sup>* (Submitting 0, ?s (four Fresh) 0 0 False False) (Submitting 8, ?s (four Fresh) 8 0 False False)"
    by (rule all_submitted) simp
  also have "main_step\<^sup>*\<^sup>* (Submitting 8, ?s (four Fresh) 8 0 False False) (Submitting 8, ?s (four Idle) 8 4 False False)"
    using worker_begins [of "four Fresh" 0 "Submitting 8" 8 0 False False]
      worker_begins [of "[Idle, Fresh, Fresh, Fresh]" 1 "Submitting 8" 8 1 False False]
      worker_begins [of "[Idle, Idle, Fresh, Fresh]" 2 "Submitting 8" 8 2 False False]
      worker_begins [of "[Idle, Idle, Idle, Fresh]" 3 "Submitting 8" 8 3 False False]
    by (simp add: eval_nat_numeral)
  also have "main_step (Submitting 8, ?s (four Idle) 8 4 False False) (Submitting 8, ?s (four Idle) 8 4 True False)"
    using main_step.signal [of "?s (four Idle) 8 4 False False"] by (simp add: idle_state_def cancel_def)
  also have "main_step (Submitting 8, ?s (four Idle) 8 4 True False) (Draining, ?s (four Idle) 8 4 True True)"
    by (rule main_step.stop) (simp_all add: idle_state_def stop_def)
  also have "main_step\<^sup>*\<^sup>* (Draining, ?s (four Idle) 8 4 True True) (Draining, ?s (four Gone) 8 0 True True)"
    using worker_leaves [of "four Idle" 0 Draining 8 4 True]
      worker_leaves [of "[Gone, Idle, Idle, Idle]" 1 Draining 8 3 True]
      worker_leaves [of "[Gone, Gone, Idle, Idle]" 2 Draining 8 2 True]
      worker_leaves [of "[Gone, Gone, Gone, Idle]" 3 Draining 8 1 True]
    by (simp add: eval_nat_numeral)
  also have "main_step (Draining, ?s (four Gone) 8 0 True True) (Reported (0, 0, 0), ?s (four Gone) 8 0 True True)"
    using main_step.wait [of "?s (four Gone) 8 0 True True"] by (simp add: idle_state_def)
  finally show ?thesis using new by (intro exI conjI) (auto simp: idle_state_def)
qed

theorem main_reports_witness:
  "\<exists>k p q. new_processor 4 16 main_policy Ctx_canceled = Some p \<and>
     (main_step ^^ k) (Submitting 0, p) (Reported (0, 0, 0), q) \<and> length (queue q) = 8 \<and> k \<le> 76 \<and> rejected q = 0"
proof -
  obtain p q k where p: "new_processor 4 16 main_policy Ctx_canceled = Some p"
    "(main_step ^^ k) (Submitting 0, p) (Reported (0, 0, 0), q)" "length (queue q) = 8"
    using interrupted_run rtranclp_imp_relpowp by metis
  from main_reports [OF p(1,2)] p show ?thesis by blast
qed

end
