(* ===== verification/Api.thy ===== *)
theory Api
  imports Middleware
begin

text \<open>
  The payments API of \<^verbatim>\<open>12-http-networking/examples/api/main.go\<close>: the store and its interface, the
  JSON boundary, the middleware, the handlers, the stack \<^verbatim>\<open>Handler\<close> assembles with the standard
  \<^verbatim>\<open>TimeoutHandler\<close>, and the lifecycle of \<^verbatim>\<open>main\<close>.  Handlers, writers and requests are those of
  the theory Middleware.  JSON decoding and encoding and the case table beyond ASCII are parameters.
\<close>

subsection \<open>The domain and the store\<close>

datatype api_error = Not_found | Validation_error string | Other string

record payment =
  pid :: string
  customer :: string
  amount :: int64
  currency :: string
  status :: string

record 's store_ops =
  st_create :: "payment \<Rightarrow> 's \<Rightarrow> (api_error + payment) \<times> 's"
  st_get :: "string \<Rightarrow> 's \<Rightarrow> (api_error + payment) \<times> 's"

record memory_store =
  by_id :: "string \<rightharpoonup> payment"
  seq :: int64

definition new_memory_store :: memory_store where
  "new_memory_store = \<lparr>by_id = Map.empty, seq = 0\<rparr>"

definition mem_create :: "payment \<Rightarrow> memory_store \<Rightarrow> (api_error + payment) \<times> memory_store" where
  "mem_create p m =
     (let n = seq m + 1; p1 = p\<lparr>pid := pay_name n, status := ''created''\<rparr>
      in (Inr p1, m\<lparr>seq := n, by_id := (by_id m)(pid p1 \<mapsto> p1)\<rparr>))"

definition mem_get :: "string \<Rightarrow> memory_store \<Rightarrow> (api_error + payment) \<times> memory_store" where
  "mem_get i m = (case by_id m i of None \<Rightarrow> Inl Not_found | Some p \<Rightarrow> Inr p, m)"

definition memory_ops :: "memory_store store_ops" where
  "memory_ops = \<lparr>st_create = mem_create, st_get = mem_get\<rparr>"

subsection \<open>The JSON boundary\<close>

definition write_json :: "int \<Rightarrow> string \<Rightarrow> wop list" where
  "write_json code encoded =
     [Set_header ''Content-Type'' ''application/json; charset=utf-8'', Write_header code, Write_body encoded]"

text \<open>\<^verbatim>\<open>decodeJSON\<close>: one value, unknown fields disallowed, from a body cut off after a mebibyte; the second
  component of the reader is whether reading beyond what it holds fails.\<close>

definition decode_json :: "(bool \<Rightarrow> string \<times> bool \<Rightarrow> 'e + 'a) \<Rightarrow> string \<Rightarrow> 'a option" where
  "decode_json decoder content =
     (case decoder True (take (2 ^ 20) content, 2 ^ 20 < length content) of Inl e \<Rightarrow> None | Inr v \<Rightarrow> Some v)"

fun write_error :: "api_error \<Rightarrow> wop list" where
  "write_error (Validation_error msg) = http_error msg 422"
| "write_error Not_found = http_error ''payment not found'' 404"
| "write_error (Other msg) = http_error ''internal error'' 500"

subsection \<open>Middleware\<close>

type_synonym access = "string \<times> string \<times> int"

record 's world =
  repo :: 's
  ready :: bool
  access_log :: "access list"

definition api_chain :: "'s handler \<Rightarrow> ('s handler \<Rightarrow> 's handler) list \<Rightarrow> 's handler" where
  "api_chain h mws = foldl (\<lambda>h i. (mws ! i) h) h (rev [0..<length mws])"

text \<open>\<^verbatim>\<open>statusWriter\<close>: the first status written, 200 for a bare write.\<close>

fun sw_write :: "int \<Rightarrow> wop \<Rightarrow> int" where
  "sw_write st (Set_header k v) = st"
| "sw_write st (Write_header code) = (if st = 0 then code else st)"
| "sw_write st (Write_body b) = (if st = 0 then 200 else st)"

definition sw_status :: "wop list \<Rightarrow> int" where
  "sw_status ops = foldl sw_write 0 ops"

definition api_recover :: "'s handler \<Rightarrow> 's handler" where
  "api_recover h r s =
     (case h r s of
        ((ops, None), s1) \<Rightarrow> ((ops, None), s1)
      | ((ops, Some p), s1) \<Rightarrow>
          ((ops @ (if sw_status ops = 0 then http_error ''internal error'' 500 else []), None), s1))"

definition request_id :: "int \<Rightarrow> 's handler \<Rightarrow> 's handler" where
  "request_id nanos h r s =
     (case h r s of ((ops, p), s1) \<Rightarrow> ((Set_header ''X-Request-ID'' (''req_'' @ int_text nanos) # ops, p), s1))"

definition logging :: "'s world handler \<Rightarrow> 's world handler" where
  "logging h r s =
     (case h r s of
        ((ops, None), s1) \<Rightarrow>
          ((ops, None), s1\<lparr>access_log := access_log s1 @ [(req_method r, req_path r, sw_status ops)]\<rparr>)
      | ((ops, Some p), s1) \<Rightarrow> ((ops, Some p), s1))"

text \<open>\<^verbatim>\<open>http.TimeoutHandler\<close> buffers what the handler writes.  When the time is over, or the client has
  gone, it answers 503 and the handler's goroutine still runs to its end; the handler's panic is
  raised again only when it comes in time.\<close>

datatype ending = In_time | Overrun | Client_gone

fun headers :: "wop list \<Rightarrow> wop list" where
  "headers [] = []"
| "headers (Set_header k v # ops) = Set_header k v # headers ops"
| "headers (_ # ops) = headers ops"

fun bodies :: "wop list \<Rightarrow> string" where
  "bodies [] = []"
| "bodies (Write_body b # ops) = b @ bodies ops"
| "bodies (_ # ops) = bodies ops"

fun first_code :: "wop list \<Rightarrow> int" where
  "first_code [] = 200"
| "first_code (Set_header k v # ops) = first_code ops"
| "first_code (Write_header code # ops) = code"
| "first_code (Write_body b # ops) = 200"

definition timeout_handler :: "(request \<Rightarrow> ending) \<Rightarrow> string \<Rightarrow> 's handler \<Rightarrow> 's handler" where
  "timeout_handler clock msg h r s =
     (case h r s of
        ((ops, p), s1) \<Rightarrow>
          (case clock r of
             Overrun \<Rightarrow> (([Write_header 503, Write_body msg], None), s1)
           | Client_gone \<Rightarrow> (([Write_header 503], None), s1)
           | In_time \<Rightarrow>
               (case p of
                  Some x \<Rightarrow> (([], Some x), s1)
                | None \<Rightarrow> ((headers ops @ [Write_header (first_code ops), Write_body (bodies ops)], None), s1))))"

subsection \<open>The server\<close>

record create_request =
  req_customer :: string
  req_amount :: int64
  req_currency :: string

record 's server =
  store :: "'s store_ops"
  decode :: "string \<Rightarrow> create_request option"
  encode :: "payment \<Rightarrow> string"
  upper :: "string \<Rightarrow> string"

definition validate :: "(string \<Rightarrow> string) \<Rightarrow> create_request \<Rightarrow> string list" where
  "validate uu q =
     (if req_customer q = [] then [''customer_id is required''] else []) @
     (if sint (req_amount q) \<le> 0 then [''amount_minor must be positive''] else []) @
     (if length (req_currency q) \<noteq> 3 \<or> to_upper uu (req_currency q) \<noteq> req_currency q
      then [''currency must be a 3-letter uppercase code''] else [])"

fun join_with :: "string \<Rightarrow> string list \<Rightarrow> string" where
  "join_with sep [] = []"
| "join_with sep [x] = x"
| "join_with sep (x # xs) = x @ sep @ join_with sep xs"

definition handle_create :: "'s server \<Rightarrow> 's world handler" where
  "handle_create srv r s =
     (case decode srv (req_body r) of
        None \<Rightarrow> ((http_error ''invalid request body'' 400, None), s)
      | Some q \<Rightarrow>
          (let verrs = validate (upper srv) q
           in if verrs \<noteq> [] then ((write_error (Validation_error (join_with ''; '' verrs)), None), s)
              else (case st_create (store srv)
                        \<lparr>pid = [], customer = req_customer q, amount = req_amount q,
                         currency = req_currency q, status = []\<rparr> (repo s) of
                      (Inl e, s1) \<Rightarrow> ((write_error e, None), s\<lparr>repo := s1\<rparr>)
                    | (Inr p, s1) \<Rightarrow>
                        ((Set_header ''Location'' (''/payments/'' @ pid p) # write_json 201 (encode srv p), None),
                         s\<lparr>repo := s1\<rparr>))))"

definition handle_get :: "'s server \<Rightarrow> string \<Rightarrow> 's world handler" where
  "handle_get srv i r s =
     (case st_get (store srv) i (repo s) of
        (Inl e, s1) \<Rightarrow> ((write_error e, None), s\<lparr>repo := s1\<rparr>)
      | (Inr p, s1) \<Rightarrow> ((write_json 200 (encode srv p), None), s\<lparr>repo := s1\<rparr>))"

definition handle_health :: "'s world handler" where
  "handle_health r s = (([Write_body (''ok'' @ [char_of (10 :: nat)])], None), s)"

definition handle_ready :: "'s world handler" where
  "handle_ready r s =
     (if \<not> ready s then ((http_error ''draining'' 503, None), s)
      else (([Write_body (''ok'' @ [char_of (10 :: nat)])], None), s))"

text \<open>The patterns of \<^verbatim>\<open>Handler\<close>, matched as \<^verbatim>\<open>ServeMux\<close> does on clean paths without escapes: \<^verbatim>\<open>GET\<close> also
  serves \<^verbatim>\<open>HEAD\<close>, a known path with another method is 405.\<close>

datatype route = Health | Ready | Payments | Payment string | Unrouted

definition route_of :: "string \<Rightarrow> route" where
  "route_of path =
     (let segs = tl (split_on (CHR ''/'') path)
      in if segs = [''healthz''] then Health
         else if segs = [''readyz''] then Ready
         else if segs = [''payments''] then Payments
         else if length segs = 2 \<and> segs ! 0 = ''payments'' \<and> segs ! 1 \<noteq> [] then Payment (segs ! 1)
         else Unrouted)"

definition on_get :: "'s handler \<Rightarrow> 's handler" where
  "on_get h r s =
     (if req_method r = ''GET'' \<or> req_method r = ''HEAD'' then h r s
      else ((Set_header ''Allow'' ''GET, HEAD'' # http_error ''Method Not Allowed'' 405, None), s))"

definition mux :: "'s server \<Rightarrow> 's world handler" where
  "mux srv r s =
     (case route_of (req_path r) of
        Health \<Rightarrow> on_get handle_health r s
      | Ready \<Rightarrow> on_get handle_ready r s
      | Payments \<Rightarrow>
          if req_method r = ''POST'' then handle_create srv r s
          else ((Set_header ''Allow'' ''POST'' # http_error ''Method Not Allowed'' 405, None), s)
      | Payment i \<Rightarrow> on_get (handle_get srv i) r s
      | Unrouted \<Rightarrow> ((http_error ''404 page not found'' 404, None), s))"

definition stack :: "(request \<Rightarrow> ending) \<Rightarrow> int \<Rightarrow> 's world handler \<Rightarrow> 's world handler" where
  "stack clock nanos h =
     api_chain (timeout_handler clock (''timeout'' @ [char_of (10 :: nat)]) h)
       [logging, request_id nanos, api_recover]"

definition server_handler :: "(request \<Rightarrow> ending) \<Rightarrow> int \<Rightarrow> 's server \<Rightarrow> 's world handler" where
  "server_handler clock nanos srv = stack clock nanos (mux srv)"

definition new_server :: "'s \<Rightarrow> 's world" where
  "new_server st = \<lparr>repo = st, ready = True, access_log = []\<rparr>"

text \<open>\<^verbatim>\<open>main\<close>, after the server has started: it fails to listen, or a signal comes and \<^verbatim>\<open>Shutdown\<close>
  returns in time or not.\<close>

datatype life = Serve_failed string | Signalled "string option"

definition run_main :: "life \<Rightarrow> 's world \<Rightarrow> int \<times> string list \<times> 's world" where
  "run_main l s =
     (case l of
        Serve_failed e \<Rightarrow> (1, [''server failed''], s)
      | Signalled None \<Rightarrow> (0, [''shutting down'', ''bye''], s\<lparr>ready := False\<rparr>)
      | Signalled (Some e) \<Rightarrow>
          (0, [''shutting down'', ''forced close after grace period'', ''bye''], s\<lparr>ready := False\<rparr>))"

text \<open>The requests the server gets, in the order it handles them.\<close>

fun serve :: "(request \<Rightarrow> ending) \<Rightarrow> 's server \<Rightarrow> request list \<Rightarrow> 's world \<Rightarrow> 's world" where
  "serve clock srv [] s = s"
| "serve clock srv (r # rs) s = serve clock srv rs (snd (server_handler clock 0 srv r s))"

subsection \<open>Middleware: lemmas\<close>

lemma sw_status_writer: "sw_status ops = status_writer 0 ops"
proof -
  have "foldl sw_write st ops = status_writer st ops" for st
    by (induction st ops rule: status_writer.induct) auto
  then show ?thesis by (simp add: sw_status_def)
qed

lemma stack_layers: "stack clock nanos h =
    logging (request_id nanos (api_recover (timeout_handler clock (''timeout'' @ [char_of (10 :: nat)]) h)))"
  by (simp add: stack_def api_chain_def upt_rec)

lemma first_code_wire: "final_ops ops \<Longrightarrow> first_code ops = wire_status ops"
  by (induction ops rule: first_code.induct) (auto simp: final_ops_def)

lemma wire_headers: "wire_status (headers ops @ [Write_header c, Write_body b]) = (if informational c then 200 else c)"
  by (induction ops rule: headers.induct) auto

lemma status_headers: "status_writer 0 (headers ops @ [Write_header c, Write_body b]) = (if c = 0 then 200 else c)"
  by (induction ops rule: headers.induct) auto

lemma final_wire: "final_ops ops \<Longrightarrow> \<not> informational (wire_status ops) \<and> wire_status ops \<noteq> 0"
  by (induction ops rule: wire_status.induct) (auto simp: final_ops_def informational_def)

text \<open>What the stack makes of a handler that ends in time.\<close>

lemma stack_in_time:
  assumes "h r s = ((ops, None), s1)" "clock r = In_time" "final_ops ops"
  shows "stack clock nanos h r s =
    ((Set_header ''X-Request-ID'' (''req_'' @ int_text nanos) # headers ops @
        [Write_header (wire_status ops), Write_body (bodies ops)], None),
     s1\<lparr>access_log := access_log s1 @ [(req_method r, req_path r, wire_status ops)]\<rparr>)"
  using assms final_wire [OF assms(3)]
  by (simp add: stack_layers logging_def request_id_def api_recover_def timeout_handler_def sw_status_writer
      first_code_wire status_headers)

lemma stack_repo:
  "repo (snd (stack clock nanos h r s)) = repo (snd (h r s))"
  by (cases "h r s"; cases "fst (h r s)"; cases "snd (fst (h r s))"; cases "clock r")
    (simp_all add: stack_layers logging_def request_id_def api_recover_def timeout_handler_def)

subsection \<open>What a store promises\<close>

text \<open>The contract of the interface \<^verbatim>\<open>Store\<close>: \<open>view\<close> is what can be read back, \<open>room\<close> the number of payments
  that can still be made before identifiers may repeat.\<close>

locale payment_repo =
  fixes ops :: "'s store_ops" and view :: "'s \<Rightarrow> string \<rightharpoonup> payment" and room :: "'s \<Rightarrow> nat"
  assumes create_law: "0 < room s \<Longrightarrow> \<exists>i t. st_create ops p s = (Inr (p\<lparr>pid := i, status := ''created''\<rparr>), t) \<and>
      view s i = None \<and> i \<noteq> [] \<and> CHR ''/'' \<notin> set i \<and>
      view t = (view s)(i \<mapsto> p\<lparr>pid := i, status := ''created''\<rparr>) \<and> room s \<le> room t + 1"
    and get_law: "st_get ops i s = (case view s i of None \<Rightarrow> Inl Not_found | Some p \<Rightarrow> Inr p, s)"
begin

definition kept :: "nat \<Rightarrow> 's \<Rightarrow> 's \<Rightarrow> bool" where
  "kept n s t \<longleftrightarrow> (\<forall>i p. view s i = Some p \<longrightarrow> view t i = Some p) \<and> room s \<le> room t + n"

lemma kept_refl: "kept n s s"
  by (simp add: kept_def)

lemma kept_trans: "kept m s t \<Longrightarrow> kept n t u \<Longrightarrow> kept (m + n) s u"
  by (auto simp: kept_def)

lemma get_kept: "store srv = ops \<Longrightarrow> repo (snd (handle_get srv i r s)) = repo s"
  by (auto simp: handle_get_def get_law split: option.split)

lemma create_kept:
  assumes "store srv = ops" "0 < room (repo s)"
  shows "kept 1 (repo s) (repo (snd (handle_create srv r s)))"
proof (cases "decode srv (req_body r)")
  case None
  then show ?thesis by (simp add: handle_create_def kept_refl)
next
  case (Some q)
  obtain i t where "st_create ops \<lparr>pid = [], customer = req_customer q, amount = req_amount q,
        currency = req_currency q, status = []\<rparr> (repo s) =
      (Inr \<lparr>pid = i, customer = req_customer q, amount = req_amount q, currency = req_currency q, status = ''created''\<rparr>, t)"
    "view (repo s) i = None" "view t = (view (repo s))(i \<mapsto> \<lparr>pid = i, customer = req_customer q, amount = req_amount q,
        currency = req_currency q, status = ''created''\<rparr>)" "room (repo s) \<le> room t + 1"
    using create_law [OF assms(2), of "\<lparr>pid = [], customer = req_customer q, amount = req_amount q,
        currency = req_currency q, status = []\<rparr>"] by auto
  then show ?thesis using Some assms(1) by (auto simp: handle_create_def Let_def kept_def)
qed

lemma mux_kept:
  assumes "store srv = ops" "0 < room (repo s)"
  shows "kept 1 (repo s) (repo (snd (mux srv r s)))"
  using create_kept [OF assms] get_kept [OF assms(1)] kept_refl
  by (auto simp: mux_def on_get_def handle_health_def handle_ready_def split: route.split)

lemma serve_kept:
  "store srv = ops \<Longrightarrow> length rs \<le> room (repo s) \<Longrightarrow> kept (length rs) (repo s) (repo (serve clock srv rs s))"
proof (induction rs arbitrary: s)
  case (Cons r rs)
  let ?s = "snd (server_handler clock 0 srv r s)"
  have r: "repo ?s = repo (snd (mux srv r s))" by (simp add: server_handler_def stack_repo)
  have one: "kept 1 (repo s) (repo ?s)" unfolding r using Cons.prems by (intro mux_kept) auto
  then have "length rs \<le> room (repo ?s)" using Cons.prems(2) by (simp add: kept_def)
  from kept_trans [OF one Cons.IH [OF Cons.prems(1) this]] show ?case by simp
qed (simp add: kept_refl)

lemma create_answer:
  assumes "store srv = ops" "0 < room (repo s)" "decode srv (req_body r) = Some q" "validate (upper srv) q = []"
  obtains i p t where "handle_create srv r s =
      ((Set_header ''Location'' (''/payments/'' @ i) # write_json 201 (encode srv p), None), s\<lparr>repo := t\<rparr>)"
    "p = \<lparr>pid = i, customer = req_customer q, amount = req_amount q, currency = req_currency q, status = ''created''\<rparr>"
    "view t i = Some p" "i \<noteq> []" "CHR ''/'' \<notin> set i" "view (repo s) i = None"
proof -
  let ?n = "\<lparr>pid = [], customer = req_customer q, amount = req_amount q, currency = req_currency q, status = []\<rparr>"
  obtain i t where t: "st_create ops ?n (repo s) = (Inr (?n\<lparr>pid := i, status := ''created''\<rparr>), t)"
    "view (repo s) i = None" "i \<noteq> []" "CHR ''/'' \<notin> set i" "view t = (view (repo s))(i \<mapsto> ?n\<lparr>pid := i, status := ''created''\<rparr>)"
    using create_law [OF assms(2), of ?n] by blast
  show thesis
    by (rule that [of i "?n\<lparr>pid := i, status := ''created''\<rparr>" t])
      (use t assms in \<open>simp_all add: handle_create_def Let_def\<close>)
qed

lemma get_answer:
  "store srv = ops \<Longrightarrow> view (repo s) i = Some p \<Longrightarrow> handle_get srv i r s = ((write_json 200 (encode srv p), None), s)"
  by (simp add: handle_get_def get_law)

end

text \<open>\<^verbatim>\<open>MemoryStore\<close> meets it: after \<open>n\<close> payments its identifiers are those of 1 to \<open>n\<close>.\<close>

definition mem_count :: "memory_store \<Rightarrow> nat \<Rightarrow> bool" where
  "mem_count m n \<longleftrightarrow> n < 2 ^ 63 \<and> seq m = of_nat n \<and> dom (by_id m) = (\<lambda>k. pay_name (of_nat k)) ` {1..n}"

definition mem_room :: "memory_store \<Rightarrow> nat" where
  "mem_room m = (if mem_count m (unat (seq m)) then 2 ^ 63 - 1 - unat (seq m) else 0)"

lemma mem_count_seq: "mem_count m n \<Longrightarrow> unat (seq m) = n"
  by (auto simp: mem_count_def unat_of_nat)

lemma pay_name_segment: "pay_name n \<noteq> [] \<and> CHR ''/'' \<notin> set (pay_name n)"
proof -
  have "CHR ''/'' \<notin> set (nat_text k)" for k
  proof
    assume "CHR ''/'' \<in> set (nat_text k)"
    then have "is_digit (CHR ''/'')" using nat_text_digits by blast
    then show False by (simp add: is_digit_def)
  qed
  then show ?thesis by (auto simp: pay_name_def Let_def)
qed

lemma mem_room_count: "mem_count m n \<Longrightarrow> mem_room m = 2 ^ 63 - 1 - n"
  using mem_count_seq [of m n] by (simp only: mem_room_def if_True)

lemma mem_room_pos:
  assumes "0 < mem_room m"
  shows "mem_count m (unat (seq m)) \<and> Suc (unat (seq m)) < 2 ^ 63"
proof (cases "mem_count m (unat (seq m))")
  case True
  then have "0 < 2 ^ 63 - 1 - unat (seq m)" using assms by (simp only: mem_room_count)
  then have "Suc (unat (seq m)) < 2 ^ 63" by linarith
  with True show ?thesis by blast
qed (use assms in \<open>simp add: mem_room_def\<close>)

lemma pay_name_next:
  assumes "Suc n < 2 ^ 63" "k \<le> n"
  shows "pay_name (of_nat (Suc n)) \<noteq> pay_name (of_nat k)"
proof
  assume eq: "pay_name (of_nat (Suc n)) = pay_name (of_nat k)"
  have "k < 2 ^ 63" using assms by linarith
  then have k: "digits_value (drop 4 (pay_name (of_nat k))) = k" by (rule pay_name_value)
  have "Suc n = digits_value (drop 4 (pay_name (of_nat (Suc n))))"
    using pay_name_value [OF assms(1)] by (rule sym)
  also have "\<dots> = k" unfolding eq by (rule k)
  finally show False using assms(2) by linarith
qed

lemma mem_create_law:
  assumes "0 < mem_room m"
  shows "\<exists>i t. mem_create p m = (Inr (p\<lparr>pid := i, status := ''created''\<rparr>), t) \<and> by_id m i = None \<and> i \<noteq> [] \<and>
     CHR ''/'' \<notin> set i \<and> by_id t = (by_id m)(i \<mapsto> p\<lparr>pid := i, status := ''created''\<rparr>) \<and> mem_room m \<le> mem_room t + 1"
proof -
  define n where "n = unat (seq m)"
  have c: "mem_count m n" and n: "Suc n < 2 ^ 63"
    using mem_room_pos [OF assms] by (simp_all only: n_def)
  define i where "i = pay_name (of_nat (Suc n))"
  let ?p = "p\<lparr>pid := i, status := ''created''\<rparr>"
  let ?t = "m\<lparr>seq := of_nat (Suc n), by_id := (by_id m)(i \<mapsto> ?p)\<rparr>"
  have dom: "seq m = of_nat n" "dom (by_id m) = (\<lambda>k. pay_name (of_nat k)) ` {1..n}"
    using c by (simp_all only: mem_count_def)
  have "seq m + 1 = of_nat (Suc n)" by (simp add: dom(1))
  then have run: "mem_create p m = (Inr ?p, ?t)" unfolding mem_create_def Let_def i_def by (simp del: of_nat_Suc)
  have "i \<notin> dom (by_id m)" unfolding dom(2) i_def using pay_name_next [OF n] by force
  then have fresh: "by_id m i = None" by blast
  have "dom (by_id ?t) = (\<lambda>k. pay_name (of_nat k)) ` {1..Suc n}"
    using dom(2) by (simp add: atLeastAtMostSuc_conv i_def)
  with n have "mem_count ?t (Suc n)" unfolding mem_count_def by simp
  then have "mem_room m \<le> mem_room ?t + 1"
    unfolding mem_room_count [OF c] by (simp only: mem_room_count)
  then show ?thesis using run fresh pay_name_segment [of "of_nat (Suc n)"] unfolding i_def [symmetric]
    by (intro exI [of _ i] exI [of _ ?t]) simp
qed

interpretation mr: payment_repo memory_ops by_id mem_room
proof
  fix s p assume "0 < mem_room s"
  from mem_create_law [OF this, of p]
  show "\<exists>i t. st_create memory_ops p s = (Inr (p\<lparr>pid := i, status := ''created''\<rparr>), t) \<and>
      by_id s i = None \<and> i \<noteq> [] \<and> CHR ''/'' \<notin> set i \<and>
      by_id t = (by_id s)(i \<mapsto> p\<lparr>pid := i, status := ''created''\<rparr>) \<and> mem_room s \<le> mem_room t + 1"
    by (simp only: memory_ops_def store_ops.simps)
next
  fix i s
  show "st_get memory_ops i s = (case by_id s i of None \<Rightarrow> Inl Not_found | Some p \<Rightarrow> Inr p, s)"
    by (simp add: memory_ops_def mem_get_def)
qed

subsection \<open>Routes and answers\<close>

lemma route_payment: "CHR ''/'' \<notin> set i \<Longrightarrow> i \<noteq> [] \<Longrightarrow> route_of (''/payments/'' @ i) = Payment i"
proof -
  assume i: "CHR ''/'' \<notin> set i" "i \<noteq> []"
  have "split_on (CHR ''/'') (''/payments/'' @ i) = [[], ''payments'', i]"
    using i split_on_three [of "CHR ''/''" "''/payments/'' @ i" "[]" "''payments''" i] by simp
  then show "route_of (''/payments/'' @ i) = Payment i" using i by (simp add: route_of_def Let_def)
qed

lemma route_payments: "route_of ''/payments'' = Payments"
  by (simp add: route_of_def Let_def)

lemma mux_get:
  assumes "req_method g = ''GET''" "req_path g = ''/payments/'' @ i" "CHR ''/'' \<notin> set i" "i \<noteq> []"
  shows "mux srv g s = handle_get srv i g s"
  unfolding mux_def assms(2) route_payment [OF assms(3,4)] on_get_def by (simp add: assms(1))

lemma final_json: "\<not> informational c \<Longrightarrow> c \<noteq> 0 \<Longrightarrow> final_ops (Set_header k v # write_json c b)"
  "\<not> informational c \<Longrightarrow> c \<noteq> 0 \<Longrightarrow> final_ops (write_json c b)"
  by (simp_all add: final_ops_def write_json_def)

lemma json_parts [simp]:
  "wire_status (write_json c b) = (if informational c then 200 else c)" "bodies (write_json c b) = b"
  by (simp_all add: write_json_def)

subsection \<open>Properties\<close>

text \<open>C21: the stack answers every request. Whatever handler it wraps (as long as it writes no
informational status), no panic gets through; the client gets 503 when the ten seconds are over or
the client has gone, 500 when the handler panics in time, even after it has begun to write, since
\<^verbatim>\<open>TimeoutHandler\<close> buffers, and the handler's own status otherwise; the access log gains one line with
exactly that status.\<close>

theorem stack_answers:
  assumes "h r s = ((ops, p), s1)" "final_ops ops"
  shows "\<exists>ops'. stack clock nanos h r s =
      ((ops', None), s1\<lparr>access_log := access_log s1 @ [(req_method r, req_path r, wire_status ops')]\<rparr>) \<and>
    wire_status ops' =
      (if clock r \<noteq> In_time then 503 else if p = None then wire_status ops else 500)"
proof (cases "clock r")
  case In_time
  show ?thesis
  proof (cases p)
    case None
    have "\<not> informational (wire_status ops)" using final_wire [OF assms(2)] by blast
    then show ?thesis
      using stack_in_time [of h r s ops s1 clock, OF assms(1) [unfolded None] In_time assms(2), of nanos] In_time None
      by (simp add: wire_headers)
  next
    case (Some x)
    then show ?thesis using assms(1) In_time
      by (simp add: stack_layers logging_def request_id_def api_recover_def timeout_handler_def sw_status_writer
          http_error_def informational_def)
  qed
next
  case Overrun
  then show ?thesis using assms(1)
    by (simp add: stack_layers logging_def request_id_def api_recover_def timeout_handler_def sw_status_writer informational_def)
next
  case Client_gone
  then show ?thesis using assms(1)
    by (simp add: stack_layers logging_def request_id_def api_recover_def timeout_handler_def sw_status_writer informational_def)
qed

definition demo_request :: "string \<Rightarrow> string \<Rightarrow> request" where
  "demo_request m path =
     \<lparr>req_method = m, req_path = path, req_pattern = [], req_authorization = [], req_body = ''{}''\<rparr>"

theorem stack_answers_witness:
  "wire_status (fst (fst (stack (\<lambda>r. In_time) 5 (\<lambda>r s. (([Write_body ''partial''], Some ''boom''), s))
     (demo_request ''GET'' ''/'') (new_server ())))) = 500"
proof -
  let ?h = "\<lambda>(r :: request) (s :: unit world). (([Write_body ''partial''], Some ''boom''), s)"
  from stack_answers [of ?h "demo_request ''GET'' ''/''" "new_server ()" "[Write_body ''partial'']" "Some ''boom''"
      "new_server ()" "\<lambda>r. In_time" 5]
  show ?thesis by (auto simp: final_ops_def)
qed

lemma get_in_time:
  assumes "store srv = memory_ops" "by_id (repo s) i = Some p" "i \<noteq> []" "CHR ''/'' \<notin> set i"
    and "req_method g = ''GET''" "req_path g = ''/payments/'' @ i" "clock g = In_time"
  shows "\<exists>ops w. server_handler clock n srv g s = ((ops, None), w) \<and> wire_status ops = 200 \<and> bodies ops = encode srv p"
proof -
  have "mux srv g s = handle_get srv i g s" using assms(5,6,4,3) by (rule mux_get)
  also have "\<dots> = ((write_json 200 (encode srv p), None), s)" by (rule mr.get_answer [OF assms(1,2)])
  finally have m: "mux srv g s = ((write_json 200 (encode srv p), None), s)" .
  have "final_ops (write_json 200 (encode srv p))" by (rule final_json) (simp_all add: informational_def)
  from stack_in_time [where h = "mux srv" and clock = clock, OF m assms(7) this, of n] show ?thesis
    by (simp add: server_handler_def informational_def write_json_def)
qed

lemma room_after:
  assumes "store srv = memory_ops" "w = serve clock srv rs (new_server new_memory_store)" "length rs + k < 2 ^ 63"
  shows "k \<le> mem_room (repo w)"
proof -
  have c0: "mem_count (repo (new_server new_memory_store)) 0"
    by (simp add: mem_count_def new_server_def new_memory_store_def)
  have "length rs \<le> mem_room (repo (new_server new_memory_store))"
    unfolding mem_room_count [OF c0] using assms(3) by linarith
  from mr.serve_kept [OF assms(1) this, of clock]
  have "mem_room (repo (new_server new_memory_store)) \<le> mem_room (repo w) + length rs"
    unfolding assms(2) mr.kept_def by blast
  then show ?thesis unfolding mem_room_count [OF c0] using assms(3) by linarith
qed

text \<open>C20: a payment that was created can be read back for good.  Let a server over a fresh
\<^verbatim>\<open>MemoryStore\<close> have handled any requests; a valid \<^verbatim>\<open>POST /payments\<close> in time gets 201, a
\<^verbatim>\<open>Location\<close> and the encoded payment; and after any further requests (fewer than \<open>2 ^ 63\<close> in all, whether
they end in time or not), \<^verbatim>\<open>GET\<close> of that location gets 200 and the same payment, with the
customer, amount and currency that were posted.\<close>

theorem create_then_get:
  assumes srv: "store srv = memory_ops"
    and before: "w = serve clock srv rs0 (new_server new_memory_store)"
    and count: "length rs0 + length rs + 1 < 2 ^ 63"
    and post: "req_method r = ''POST''" "req_path r = ''/payments''" "clock r = In_time"
    and valid: "decode srv (req_body r) = Some q" "validate (upper srv) q = []"
  shows "\<exists>i p ops w1. server_handler clock n srv r w = ((ops, None), w1) \<and>
    wire_status ops = 201 \<and> Set_header ''Location'' (''/payments/'' @ i) \<in> set ops \<and> bodies ops = encode srv p \<and>
    p = \<lparr>pid = i, customer = req_customer q, amount = req_amount q, currency = req_currency q, status = ''created''\<rparr> \<and>
    (\<forall>g. req_method g = ''GET'' \<longrightarrow> req_path g = ''/payments/'' @ i \<longrightarrow> clock g = In_time \<longrightarrow>
       (\<exists>ops2 w2. server_handler clock n srv g (serve clock srv rs w1) = ((ops2, None), w2) \<and>
          wire_status ops2 = 200 \<and> bodies ops2 = encode srv p))"
proof -
  have room: "length rs + 1 \<le> mem_room (repo w)" by (rule room_after [OF srv before]) (use count in linarith)
  then have pos: "0 < mem_room (repo w)" by linarith
  obtain i p t where a: "handle_create srv r w =
      ((Set_header ''Location'' (''/payments/'' @ i) # write_json 201 (encode srv p), None), w\<lparr>repo := t\<rparr>)"
    "p = \<lparr>pid = i, customer = req_customer q, amount = req_amount q, currency = req_currency q, status = ''created''\<rparr>"
    "by_id t i = Some p" "i \<noteq> []" "CHR ''/'' \<notin> set i"
    using mr.create_answer [OF srv pos valid] by blast
  have m: "mux srv r w = handle_create srv r w" by (simp add: mux_def post route_payments)
  let ?ops = "Set_header ''Location'' (''/payments/'' @ i) # write_json 201 (encode srv p)"
  have fin: "final_ops ?ops" by (rule final_json) (simp_all add: informational_def)
  let ?out = "Set_header ''X-Request-ID'' (''req_'' @ int_text n) # headers ?ops @ [Write_header (wire_status ?ops), Write_body (bodies ?ops)]"
  let ?w1 = "w\<lparr>repo := t, access_log := access_log w @ [(req_method r, req_path r, wire_status ?ops)]\<rparr>"
  have run: "server_handler clock n srv r w = ((?out, None), ?w1)"
    using stack_in_time [where h = "mux srv" and clock = clock, OF trans [OF m a(1)] post(3) fin, of n] by (simp add: server_handler_def)
  have kept: "mr.kept 1 (repo w) t"
    using mr.create_kept [OF srv pos, of r] a(1) by simp
  then have "length rs \<le> mem_room (repo ?w1)" using room by (simp add: mr.kept_def)
  from mr.serve_kept [OF srv this, of clock] have later: "by_id (repo (serve clock srv rs ?w1)) i = Some p"
    using a(3) by (simp add: mr.kept_def)
  note answer = get_in_time [OF srv later a(4,5), where clock = clock and n = n]
  have "wire_status ?out = 201" "bodies ?out = encode srv p" by (simp_all add: informational_def write_json_def)
  moreover have "Set_header ''Location'' (''/payments/'' @ i) \<in> set ?out" by simp
  ultimately show ?thesis using run a(2) answer by blast
qed

definition demo_server :: "memory_store server" where
  "demo_server =
     \<lparr>store = memory_ops, decode = (\<lambda>b. Some \<lparr>req_customer = ''c'', req_amount = 5, req_currency = ''USD''\<rparr>),
      encode = pid, upper = id\<rparr>"

theorem create_then_get_witness:
  "\<exists>i ops w1. server_handler (\<lambda>r. In_time) 1 demo_server (demo_request ''POST'' ''/payments'') (new_server new_memory_store) =
      ((ops, None), w1) \<and> wire_status ops = 201 \<and>
      (\<exists>ops2 w2. server_handler (\<lambda>r. In_time) 1 demo_server (demo_request ''GET'' (''/payments/'' @ i)) w1 = ((ops2, None), w2) \<and>
         wire_status ops2 = 200)"
proof -
  let ?q = "\<lparr>req_customer = ''c'', req_amount = 5, req_currency = ''USD''\<rparr> :: create_request"
  have s: "store demo_server = memory_ops" by (simp add: demo_server_def)
  have w: "new_server new_memory_store = serve (\<lambda>r. In_time) demo_server [] (new_server new_memory_store)" by simp
  have c: "length ([] :: request list) + length ([] :: request list) + 1 < 2 ^ 63" by simp
  have p: "req_method (demo_request ''POST'' ''/payments'') = ''POST''" "req_path (demo_request ''POST'' ''/payments'') = ''/payments''"
    by (simp_all add: demo_request_def)
  have d: "decode demo_server (req_body (demo_request ''POST'' ''/payments'')) = Some ?q" by (simp add: demo_server_def)
  have v: "validate (upper demo_server) ?q = []" by (simp add: validate_def demo_server_def to_upper_def is_ascii_def upper_char_def)
  have get: "req_method (demo_request ''GET'' path) = ''GET''" "req_path (demo_request ''GET'' path) = path" for path
    by (simp_all add: demo_request_def)
  from create_then_get [where clock = "\<lambda>r. In_time" and n = 1, OF s w c p refl d v]
  obtain i pp ops w1 where run: "server_handler (\<lambda>r. In_time) 1 demo_server (demo_request ''POST'' ''/payments'') (new_server new_memory_store) =
      ((ops, None), w1)" "wire_status ops = 201"
    and later: "\<forall>g. req_method g = ''GET'' \<longrightarrow> req_path g = ''/payments/'' @ i \<longrightarrow> In_time = In_time \<longrightarrow>
       (\<exists>ops2 w2. server_handler (\<lambda>r. In_time) 1 demo_server g (serve (\<lambda>r. In_time) demo_server [] w1) = ((ops2, None), w2) \<and>
          wire_status ops2 = 200 \<and> bodies ops2 = encode demo_server pp)" by blast
  obtain ops2 w2 where "server_handler (\<lambda>r. In_time) 1 demo_server (demo_request ''GET'' (''/payments/'' @ i)) w1 = ((ops2, None), w2)"
    "wire_status ops2 = 200"
    using later [rule_format, OF get(1) get(2) refl] unfolding serve.simps by blast
  with run show ?thesis by blast
qed

text \<open>A request that runs over its time is answered 503 although its payment is, or will be, created:
  a client that tries again pays twice.\<close>

lemma timed_out_create:
  "let s = snd (server_handler (\<lambda>r. Overrun) 1 demo_server (demo_request ''POST'' ''/payments'') (new_server new_memory_store));
       a = fst (server_handler (\<lambda>r. Overrun) 1 demo_server (demo_request ''POST'' ''/payments'') (new_server new_memory_store))
   in wire_status (fst a) = 503 \<and> seq (repo s) = 1"
proof -
  have "mux demo_server (demo_request ''POST'' ''/payments'') s =
      handle_create demo_server (demo_request ''POST'' ''/payments'') s" for s
    by (simp add: mux_def demo_request_def route_payments)
  moreover have "validate id \<lparr>req_customer = ''c'', req_amount = 5, req_currency = ''USD''\<rparr> = []"
    by (simp add: validate_def to_upper_def is_ascii_def upper_char_def)
  ultimately show ?thesis
    by (simp add: Let_def server_handler_def stack_layers logging_def request_id_def api_recover_def timeout_handler_def
        handle_create_def demo_server_def demo_request_def memory_ops_def mem_create_def new_server_def new_memory_store_def
        informational_def)
qed

text \<open>Readiness follows the lifecycle: once the signal has come, \<^verbatim>\<open>/readyz\<close> is 503 and everything else is served as before.\<close>

lemma draining:
  "life = Signalled e \<Longrightarrow> snd (snd (run_main life s)) = s\<lparr>ready := False\<rparr> \<and> fst (run_main life s) = 0 \<and>
     fst (fst (handle_ready r (snd (snd (run_main life s))))) = http_error ''draining'' 503"
  by (cases e) (simp_all add: run_main_def handle_ready_def)

end
