(* ===== verification/Genlib.thy ===== *)
theory Genlib
  imports Prelude
begin

text \<open>
  The generic library of \<^verbatim>\<open>07-generics/examples/genlib\<close>: ordering and sums, the slice functions, the
  stack with its backing array, the cache, and \<^verbatim>\<open>Retry\<close>.  \<^verbatim>\<open>Sum\<close> is taken at \<^verbatim>\<open>int64\<close>, the ordered
  types at a linear order (floats, whose order is not linear, are left out).
\<close>

subsection \<open>Functions on slices\<close>

definition go_max :: "'a::linorder \<Rightarrow> 'a \<Rightarrow> 'a" where
  "go_max a b = (if b > a then b else a)"

definition go_sum :: "int64 list \<Rightarrow> int64" where
  "go_sum xs = foldl (+) 0 xs"

fun dedup_loop :: "'e list \<Rightarrow> 'e set \<Rightarrow> 'e list \<Rightarrow> 'e list" where
  "dedup_loop [] seen out = out"
| "dedup_loop (i # is) seen out =
     (if i \<notin> seen then dedup_loop is (insert i seen) (out @ [i]) else dedup_loop is seen out)"

definition dedup_ids :: "'e list \<Rightarrow> 'e list" where
  "dedup_ids ids = dedup_loop ids {} []"

text \<open>A missing bucket reads as the empty slice.\<close>

fun group_loop :: "('e \<Rightarrow> 'k) \<Rightarrow> 'e list \<Rightarrow> ('k \<rightharpoonup> 'e list) \<Rightarrow> ('k \<rightharpoonup> 'e list)" where
  "group_loop key [] out = out"
| "group_loop key (e # es) out =
     group_loop key es (out(key e \<mapsto> (case out (key e) of None \<Rightarrow> [] | Some b \<Rightarrow> b) @ [e]))"

definition group_by :: "'e list \<Rightarrow> ('e \<Rightarrow> 'k) \<Rightarrow> ('k \<rightharpoonup> 'e list)" where
  "group_by s key = group_loop key s Map.empty"

fun map_loop :: "('e \<Rightarrow> 'r) \<Rightarrow> 'e list \<Rightarrow> 'r list \<Rightarrow> 'r list" where
  "map_loop f [] out = out"
| "map_loop f (e # es) out = map_loop f es (out @ [f e])"

definition go_map :: "'e list \<Rightarrow> ('e \<Rightarrow> 'r) \<Rightarrow> 'r list" where
  "go_map s f = map_loop f s []"

subsection \<open>The stack\<close>

text \<open>A slice is its backing array and its length; the slots from the length on are what \<^verbatim>\<open>append\<close>
  has allocated beyond.  \<open>grow n\<close> is the capacity \<^verbatim>\<open>append\<close> chooses for \<open>n\<close> elements.\<close>

record 'a stack =
  slots :: "'a list"
  len :: nat

definition zero_stack :: "'a stack" where
  "zero_stack = \<lparr>slots = [], len = 0\<rparr>"

definition push :: "'a \<Rightarrow> (nat \<Rightarrow> nat) \<Rightarrow> 'a \<Rightarrow> 'a stack \<Rightarrow> 'a stack" where
  "push z grow v s =
     (if len s < length (slots s) then s\<lparr>slots := (slots s)[len s := v], len := len s + 1\<rparr>
      else s\<lparr>slots := slots s @ v # replicate (grow (len s + 1) - (len s + 1)) z, len := len s + 1\<rparr>)"

definition pop :: "'a \<Rightarrow> 'a stack \<Rightarrow> ('a \<times> bool) \<times> 'a stack" where
  "pop z s =
     (let n = len s
      in if n = 0 then ((z, False), s)
         else ((slots s ! (n - 1), True), s\<lparr>slots := (slots s)[n - 1 := z], len := n - 1\<rparr>))"

definition stack_len :: "'a stack \<Rightarrow> nat" where
  "stack_len s = len s"

subsection \<open>The cache\<close>

text \<open>\<^verbatim>\<open>None\<close> is the nil map of the zero value.\<close>

type_synonym ('k, 'v) cache = "('k \<rightharpoonup> 'v) option"

definition new_cache :: "int64 \<Rightarrow> ('k, 'v) cache" where
  "new_cache cap_hint = Some Map.empty"

definition cache_put :: "'k \<Rightarrow> 'v \<Rightarrow> ('k, 'v) cache \<Rightarrow> ('k, 'v) cache" where
  "cache_put k v c = Some ((case c of None \<Rightarrow> Map.empty | Some m \<Rightarrow> m)(k \<mapsto> v))"

definition cache_get :: "'v \<Rightarrow> 'k \<Rightarrow> ('k, 'v) cache \<Rightarrow> 'v \<times> bool" where
  "cache_get z k c =
     (case (case c of None \<Rightarrow> None | Some m \<Rightarrow> m k) of None \<Rightarrow> (z, False) | Some v \<Rightarrow> (v, True))"

subsection \<open>Retry\<close>

text \<open>
  What the surroundings do at each attempt: the outcome of the operation, the context's error after
  it, the pause \<^verbatim>\<open>next\<close> asks for, and whether the context ends during the pause.
\<close>

record ('a, 'e) attempt =
  outcome :: "'e + 'a"
  ctx_after :: "'e option"
  pause :: duration
  ctx_waiting :: "'e option"

partial_function (option) retry_from :: "(nat \<Rightarrow> ('a, 'e) attempt) \<Rightarrow> nat \<Rightarrow> ('e + 'a) option" where
  "retry_from env n =
     (case outcome (env n) of
        Inr v \<Rightarrow> Some (Inr v)
      | Inl err \<Rightarrow>
          (case ctx_after (env n) of
             Some e \<Rightarrow> Some (Inl e)
           | None \<Rightarrow>
               (if pause (env n) \<le> 0 then Some (Inl err)
                else (case ctx_waiting (env n) of
                        Some e \<Rightarrow> Some (Inl e)
                      | None \<Rightarrow> retry_from env (n + 1)))))"

definition retry :: "(nat \<Rightarrow> ('a, 'e) attempt) \<Rightarrow> ('e + 'a) option" where
  "retry env = retry_from env 0"

subsection \<open>Lemmas\<close>

lemma go_sum_wraps: "sint (go_sum xs) = (sum_list (map sint xs) + 2 ^ 63) mod 2 ^ 64 - 2 ^ 63"
proof -
  have "foldl (+) a xs = a + word_of_int (sum_list (map sint xs))" for a :: int64
    by (induction xs arbitrary: a) simp_all
  then have "sint (go_sum xs) = signed_take_bit 63 (sum_list (map sint xs))"
    by (simp add: go_sum_def signed_of_int)
  then show ?thesis by (simp add: signed_take_bit_eq_take_bit_shift take_bit_eq_mod)
qed

text \<open>The first occurrences, by structural recursion.\<close>

fun firsts :: "'e list \<Rightarrow> 'e list" where
  "firsts [] = []"
| "firsts (i # is) = i # filter (\<lambda>j. j \<noteq> i) (firsts is)"

lemma dedup_loop_firsts: "dedup_loop ids seen out = out @ filter (\<lambda>i. i \<notin> seen) (firsts ids)"
proof (induction ids arbitrary: seen out)
  case (Cons i ids)
  have "filter (\<lambda>j. j \<notin> insert i seen) (firsts ids) = filter (\<lambda>j. j \<noteq> i \<and> j \<notin> seen) (firsts ids)"
    by (rule filter_cong) auto
  then show ?case using Cons by (auto simp: conj_commute intro: filter_cong)
qed simp

lemma dedup_firsts: "dedup_ids ids = firsts ids"
  by (simp add: dedup_ids_def dedup_loop_firsts)

lemma set_firsts [simp]: "set (firsts ids) = set ids"
  by (induction ids) auto

lemma distinct_firsts: "distinct (firsts ids)"
  by (induction ids) auto

lemma firsts_append: "firsts (xs @ ys) = firsts xs @ filter (\<lambda>y. y \<notin> set xs) (firsts ys)"
  by (induction xs) (auto simp: conj_commute)

lemma group_loop_filter:
  "group_loop key es out k =
     (let b = filter (\<lambda>e. key e = k) es
      in case out k of None \<Rightarrow> if b = [] then None else Some b | Some p \<Rightarrow> Some (p @ b))"
proof (induction es arbitrary: out)
  case (Cons e es)
  show ?case
  proof (cases "key e = k")
    case True
    then show ?thesis unfolding group_loop.simps Cons.IH by (simp add: Let_def split: option.split)
  next
    case False
    then show ?thesis unfolding group_loop.simps Cons.IH by (simp add: Let_def)
  qed
qed (simp split: option.split)

lemma go_map_map: "go_map s f = map f s"
proof -
  have "map_loop f s out = out @ map f s" for out by (induction s arbitrary: out) simp_all
  then show ?thesis by (simp add: go_map_def)
qed

definition elems :: "'a stack \<Rightarrow> 'a list" where
  "elems s = take (len s) (slots s)"

text \<open>No slot beyond the length holds anything but the zero value.\<close>

definition clean :: "'a \<Rightarrow> 'a stack \<Rightarrow> bool" where
  [inv_defs]: "clean z s \<longleftrightarrow> len s \<le> length (slots s) \<and> (\<forall>v \<in> set (drop (len s) (slots s)). v = z)"

lemma push_elems:
  assumes "clean z s"
  shows "elems (push z grow v s) = elems s @ [v] \<and> clean z (push z grow v s)"
proof (cases "len s < length (slots s)")
  case True
  then have "take (len s + 1) ((slots s)[len s := v]) = take (len s) (slots s) @ [v]"
    by (simp add: take_Suc_conv_app_nth)
  moreover have "drop (len s + 1) ((slots s)[len s := v]) = drop (len s + 1) (slots s)"
    by (rule drop_update_cancel) simp
  moreover have "set (drop (len s + 1) (slots s)) \<subseteq> set (drop (len s) (slots s))"
    by (rule set_drop_subset_set_drop) simp
  ultimately show ?thesis using True assms
    unfolding push_def elems_def clean_def by (simp only: if_True simp_thms stack.simps) auto
next
  case False
  then show ?thesis using assms by (auto simp: push_def elems_def clean_def)
qed

lemma pop_elems:
  assumes "clean z s"
  shows "case pop z s of ((v, ok), t) \<Rightarrow>
    clean z t \<and> (if elems s = [] then \<not> ok \<and> t = s else ok \<and> elems s = elems t @ [v])"
proof (cases "len s = 0")
  case True
  then show ?thesis using assms by (simp add: pop_def elems_def)
next
  case False
  then have l: "len s - 1 < length (slots s)" "Suc (len s - 1) = len s" using assms by (auto simp: clean_def)
  let ?m = "len s - 1"
  have "drop ?m ((slots s)[?m := z]) = z # drop (len s) (slots s)"
    using l by (simp add: Cons_nth_drop_Suc [symmetric])
  moreover have "take (len s) (slots s) = take ?m (slots s) @ [slots s ! ?m]"
    using l by (metis take_Suc_conv_app_nth)
  ultimately show ?thesis using False assms l
    by (auto simp: pop_def Let_def elems_def clean_def)
qed

text \<open>Where \<^verbatim>\<open>Retry\<close> stops, and with what.\<close>

definition stops :: "('a, 'e) attempt \<Rightarrow> bool" where
  "stops a \<longleftrightarrow> (\<exists>v. outcome a = Inr v) \<or> ctx_after a \<noteq> None \<or> pause a \<le> 0 \<or> ctx_waiting a \<noteq> None"

definition verdict :: "('a, 'e) attempt \<Rightarrow> 'e + 'a" where
  "verdict a =
     (case outcome a of
        Inr v \<Rightarrow> Inr v
      | Inl err \<Rightarrow>
          (case ctx_after a of
             Some e \<Rightarrow> Inl e
           | None \<Rightarrow> if pause a \<le> 0 then Inl err else (case ctx_waiting a of Some e \<Rightarrow> Inl e | None \<Rightarrow> Inl err)))"

lemma retry_stop: "stops (env n) \<Longrightarrow> retry_from env n = Some (verdict (env n))"
  by (subst retry_from.simps) (auto simp: stops_def verdict_def split: sum.split option.split)

lemma retry_go: "\<not> stops (env n) \<Longrightarrow> retry_from env n = retry_from env (n + 1)"
  by (subst retry_from.simps) (auto simp: stops_def split: sum.split option.split)

lemma retry_reaches: "\<forall>k < n. \<not> stops (env (m + k)) \<Longrightarrow> retry_from env m = retry_from env (m + n)"
proof (induction n)
  case (Suc n)
  then have "retry_from env m = retry_from env (m + n)" "\<not> stops (env (m + n))" by simp_all
  with retry_go [of env "m + n"] show ?case by simp
qed simp

lemma retry_returned:
  fixes env :: "nat \<Rightarrow> ('a, 'e) attempt"
  assumes "retry_from env n = Some y"
  shows "\<exists>k \<ge> n. stops (env k)"
proof (rule retry_from.raw_induct [of "\<lambda>env n y. \<exists>k \<ge> n. stops (env k)", OF _ assms])
  fix f and env :: "nat \<Rightarrow> ('a, 'e) attempt" and n y
  assume hyp: "\<And>env n y. f env n = Some y \<Longrightarrow> \<exists>k \<ge> n. stops (env k)"
    and body: "(case outcome (env n) of
        Inl err \<Rightarrow>
          (case ctx_after (env n) of
             None \<Rightarrow>
               (if pause (env n) \<le> 0 then Some (Inl err)
                else (case ctx_waiting (env n) of None \<Rightarrow> f env (n + 1) | Some e \<Rightarrow> Some (Inl e)))
           | Some e \<Rightarrow> Some (Inl e))
      | Inr v \<Rightarrow> Some (Inr v)) = Some y"
  show "\<exists>k \<ge> n. stops (env k)"
  proof (cases "stops (env n)")
    case False
    then have "f env (n + 1) = Some y" using body by (auto simp: stops_def split: sum.splits option.splits if_splits)
    from hyp [OF this] obtain k where "n + 1 \<le> k" "stops (env k)" by blast
    then show ?thesis by (intro exI [of _ k]) simp
  qed blast
qed

subsection \<open>Properties\<close>

text \<open>\<^verbatim>\<open>Retry\<close> ends exactly when it must.  It returns at the first attempt that succeeds, finds the
context dead after the attempt or during the pause, or is given no further pause; its result is then
the value, the context's error or the operation's error, the context's taking precedence over the
operation's; and if no attempt is such, it never returns.\<close>

theorem retry_decides:
  "(case retry env of
      Some y \<Rightarrow> \<exists>n. stops (env n) \<and> (\<forall>k < n. \<not> stops (env k)) \<and> y = verdict (env n)
    | None \<Rightarrow> \<forall>n. \<not> stops (env n))"
proof (cases "\<exists>n. stops (env n)")
  case True
  define n where "n = (LEAST n. stops (env n))"
  have n: "stops (env n)" "\<forall>k < n. \<not> stops (env k)"
    using True LeastI_ex [of "\<lambda>n. stops (env n)"] not_less_Least [of _ "\<lambda>n. stops (env n)"]
    unfolding n_def by blast+
  have "retry_from env 0 = retry_from env (0 + n)" using n(2) by (intro retry_reaches) simp
  then have "retry env = Some (verdict (env n))" using retry_stop [of env n] n(1) by (simp add: retry_def)
  with n show ?thesis by auto
next
  case False
  then have "retry env = None"
    using retry_returned [of env 0] unfolding retry_def by (cases "retry_from env 0") blast+
  with False show ?thesis by simp
qed

theorem retry_decides_witness:
  "retry (\<lambda>n. \<lparr>outcome = (if n < 2 then Inl ''timeout'' else Inr n), ctx_after = None, pause = 1,
                  ctx_waiting = None\<rparr>) = Some (Inr (2::nat))"
proof -
  define env :: "nat \<Rightarrow> (nat, string) attempt" where "env = (\<lambda>n. \<lparr>outcome = (if n < 2 then Inl ''timeout'' else Inr n),
    ctx_after = None, pause = 1, ctx_waiting = None\<rparr>)"
  have s: "stops (env n) = (2 \<le> n)" for n by (simp add: env_def stops_def)
  from retry_decides [of env] s obtain n where "2 \<le> n" "\<forall>k < n. \<not> 2 \<le> k" and y: "retry env = Some (verdict (env n))"
    by (cases "retry env") auto
  then have "n = 2" by (meson le_antisym le_refl not_le)
  with y show ?thesis by (simp add: env_def verdict_def)
qed

datatype 'a op = Push 'a | Pop

fun run_ops :: "'a \<Rightarrow> (nat \<Rightarrow> nat) \<Rightarrow> 'a op list \<Rightarrow> 'a stack \<Rightarrow> 'a stack" where
  "run_ops z grow [] s = s"
| "run_ops z grow (Push v # os) s = run_ops z grow os (push z grow v s)"
| "run_ops z grow (Pop # os) s = run_ops z grow os (snd (pop z s))"

fun spec_ops :: "'a op list \<Rightarrow> 'a list \<Rightarrow> 'a list" where
  "spec_ops [] xs = xs"
| "spec_ops (Push v # os) xs = spec_ops os (xs @ [v])"
| "spec_ops (Pop # os) xs = spec_ops os (butlast xs)"

lemma pop_step: "clean z s \<Longrightarrow> clean z (snd (pop z s)) \<and> elems (snd (pop z s)) = butlast (elems s)"
  using pop_elems [of z s] by (auto split: prod.splits if_splits)

lemma run_ops_spec:
  "clean z s \<Longrightarrow> clean z (run_ops z grow os s) \<and> elems (run_ops z grow os s) = spec_ops os (elems s)"
proof (induction os arbitrary: s)
  case (Cons a os)
  then show ?case using push_elems [OF Cons.prems] pop_step [OF Cons.prems] by (cases a) simp_all
qed simp

text \<open>The stack refines a list and keeps nothing alive.  Whatever capacities \<^verbatim>\<open>append\<close> chooses, after any
pushes and pops on the zero stack the elements are those of the list specification, and every slot
of the backing array beyond them holds the zero value, so popped values are not pinned.\<close>

theorem stack_refines:
  "elems (run_ops z grow os zero_stack) = spec_ops os [] \<and>
   stack_len (run_ops z grow os zero_stack) = length (spec_ops os []) \<and>
   set (drop (len (run_ops z grow os zero_stack)) (slots (run_ops z grow os zero_stack))) \<subseteq> {z} \<and>
   fst (pop z (run_ops z grow os zero_stack)) = (if spec_ops os [] = [] then (z, False) else (last (spec_ops os []), True))"
proof -
  let ?s = "run_ops z grow os zero_stack"
  have r: "clean z ?s" "elems ?s = spec_ops os []"
    using run_ops_spec [of z zero_stack grow os] by (simp_all add: clean_def zero_stack_def elems_def)
  then have "stack_len ?s = length (spec_ops os [])"
    by (metis clean_def elems_def length_take min.absorb2 stack_len_def)
  moreover have "fst (pop z ?s) = (if spec_ops os [] = [] then (z, False) else (last (spec_ops os []), True))"
    using pop_elems [OF r(1)] r(2) by (auto simp: pop_def Let_def elems_def split: if_splits prod.splits)
  ultimately show ?thesis using r by (auto simp: clean_def)
qed

text \<open>The slice functions compute what they promise. \<^verbatim>\<open>DedupIDs\<close> keeps exactly the values, once each, in
the order of their first occurrence; \<^verbatim>\<open>GroupBy\<close> puts each element in the bucket of its key, in order,
with no empty bucket and an empty map for the empty slice; \<^verbatim>\<open>Map\<close> applies its function to each
element; \<^verbatim>\<open>Sum\<close> is the sum wrapped to 64 bits; \<^verbatim>\<open>Max\<close> is the maximum.\<close>

theorem slices_correct:
  "distinct (dedup_ids ids) \<and> set (dedup_ids ids) = set ids \<and>
   dedup_ids (xs @ ys) = dedup_ids xs @ filter (\<lambda>y. y \<notin> set xs) (dedup_ids ys) \<and>
   group_by s key k = (if filter (\<lambda>e. key e = k) s = [] then None else Some (filter (\<lambda>e. key e = k) s)) \<and>
   go_map s f = map f s \<and>
   sint (go_sum ns) = (sum_list (map sint ns) + 2 ^ 63) mod 2 ^ 64 - 2 ^ 63 \<and>
   go_max a b = max a b"
  by (auto simp: dedup_firsts distinct_firsts firsts_append group_by_def group_loop_filter Let_def go_map_map
      go_sum_wraps go_max_def max_def)

lemma cache_lookup:
  "cache_get z k (cache_put k v c) = (v, True) \<and> cache_get z j (new_cache n) = (z, False) \<and>
   (j \<noteq> k \<longrightarrow> cache_get z j (cache_put k v c) = cache_get z j c) \<and> cache_get z k None = (z, False)"
  by (cases c) (simp_all add: cache_get_def cache_put_def new_cache_def)

end
