(* ===== verification/Seqops.thy ===== *)
theory Seqops
  imports Prelude
begin

text \<open>
  The slice operations of \<^verbatim>\<open>02-go-language/examples/seqops\<close>, whose point is sharing: a backing array is a
  list, a slice of it a window (offset and length), and a function that writes through its argument
  returns the new contents of the array.  \<^verbatim>\<open>Truncate\<close> decodes UTF-8 as Go's \<^verbatim>\<open>range\<close> does.
\<close>

subsection \<open>Chunks\<close>

type_synonym window = "nat \<times> nat"

definition read_window :: "'a list \<Rightarrow> window \<Rightarrow> 'a list" where
  "read_window a w = take (snd w) (drop (fst w) a)"

definition write_window :: "'a list \<Rightarrow> window \<Rightarrow> nat \<Rightarrow> 'a \<Rightarrow> 'a list" where
  "write_window a w i v = a[fst w + i := v]"

text \<open>The loop from \<open>i\<close>: at most \<open>|s|\<close> rounds are needed as \<open>n\<close> is positive.\<close>

fun chunk_loop :: "nat \<Rightarrow> nat \<Rightarrow> nat \<Rightarrow> nat \<Rightarrow> window list" where
  "chunk_loop 0 l n i = []"
| "chunk_loop (Suc fuel) l n i =
     (if i < l
      then let e = (if i + n > l then l else i + n) in (i, e - i) # chunk_loop fuel l n (i + n)
      else [])"

text \<open>The capacity hint \<^verbatim>\<open>(len(s)+n-1)/n\<close> is computed in 64 bits; \<^verbatim>\<open>make\<close> panics when it is negative.\<close>

datatype 'a outcome = Panic | Value 'a

definition cap_hint :: "nat \<Rightarrow> int64 \<Rightarrow> int" where
  "cap_hint l n = go_div (sint (of_nat l + n - 1 :: int64)) (sint n)"

definition chunk :: "nat \<Rightarrow> int64 \<Rightarrow> window list outcome" where
  "chunk l n =
     (if sint n \<le> 0 then Value []
      else if cap_hint l n < 0 then Panic
      else Value (chunk_loop l l (nat (sint n)) 0))"

definition copy_chunks :: "'a list \<Rightarrow> int64 \<Rightarrow> 'a list list outcome" where
  "copy_chunks s n =
     (if sint n \<le> 0 then Value []
      else if cap_hint (length s) n < 0 then Panic
      else Value (map (read_window s) (chunk_loop (length s) (length s) (nat (sint n)) 0)))"

subsection \<open>Filters\<close>

fun filter_loop :: "('a \<Rightarrow> bool) \<Rightarrow> 'a list \<Rightarrow> 'a list \<Rightarrow> 'a list" where
  "filter_loop pred [] out = out"
| "filter_loop pred (v # vs) out = filter_loop pred vs (if pred v then out @ [v] else out)"

definition filter_alloc :: "'a list \<Rightarrow> ('a \<Rightarrow> bool) \<Rightarrow> 'a list" where
  "filter_alloc s pred = filter_loop pred s []"

text \<open>In place: round \<open>i\<close> reads element \<open>i\<close> of the array as it is then, and appends by writing slot \<open>k\<close>.\<close>

fun in_place_loop :: "('a \<Rightarrow> bool) \<Rightarrow> nat \<Rightarrow> nat \<Rightarrow> nat \<Rightarrow> 'a list \<Rightarrow> nat \<times> 'a list" where
  "in_place_loop pred 0 i k a = (k, a)"
| "in_place_loop pred (Suc rounds) i k a =
     (if pred (a ! i) then in_place_loop pred rounds (i + 1) (k + 1) (a[k := a ! i])
      else in_place_loop pred rounds (i + 1) k a)"

text \<open>The result is the window of the first \<open>k\<close> elements of the changed array.\<close>

definition filter_in_place :: "'a list \<Rightarrow> ('a \<Rightarrow> bool) \<Rightarrow> window \<times> 'a list" where
  "filter_in_place s pred = (case in_place_loop pred (length s) 0 0 s of (k, a) \<Rightarrow> ((0, k), a))"

subsection \<open>Truncate\<close>

definition in_range :: "nat \<Rightarrow> nat \<Rightarrow> string \<Rightarrow> nat \<Rightarrow> bool" where
  "in_range lo hi s i \<longleftrightarrow> i < length s \<and> lo \<le> of_char (s ! i) \<and> of_char (s ! i) \<le> hi"

text \<open>The bytes of the first rune; an invalid sequence counts as one byte.\<close>

definition rune_len :: "string \<Rightarrow> nat" where
  "rune_len s =
     (let b = (of_char (hd s) :: nat);
          cont = (\<lambda>i. in_range 128 191 s i)
      in if b < 128 then 1
         else if 194 \<le> b \<and> b \<le> 223 then (if cont 1 then 2 else 1)
         else if b = 224 then (if in_range 160 191 s 1 \<and> cont 2 then 3 else 1)
         else if b = 237 then (if in_range 128 159 s 1 \<and> cont 2 then 3 else 1)
         else if 225 \<le> b \<and> b \<le> 239 then (if cont 1 \<and> cont 2 then 3 else 1)
         else if b = 240 then (if in_range 144 191 s 1 \<and> cont 2 \<and> cont 3 then 4 else 1)
         else if 241 \<le> b \<and> b \<le> 243 then (if cont 1 \<and> cont 2 \<and> cont 3 then 4 else 1)
         else if b = 244 then (if in_range 128 143 s 1 \<and> cont 2 \<and> cont 3 then 4 else 1)
         else 1)"

lemma rune_len_pos: "0 < rune_len s"
  by (simp add: rune_len_def Let_def)

function runes :: "string \<Rightarrow> string list" where
  "runes s = (if s = [] then [] else take (rune_len s) s # runes (drop (rune_len s) s))"
  by pat_completeness auto
termination
  by (relation "measure length") (auto simp: rune_len_pos)

declare runes.simps [simp del]

text \<open>\<^verbatim>\<open>range\<close> over the string: \<open>off\<close> is the byte offset of the next rune, \<open>n\<close> the runes seen.\<close>

fun truncate_loop :: "string \<Rightarrow> int \<Rightarrow> string list \<Rightarrow> nat \<Rightarrow> int \<Rightarrow> string" where
  "truncate_loop s m [] off n = s"
| "truncate_loop s m (r # rs) off n =
     (if n = m then take off s else truncate_loop s m rs (off + length r) (n + 1))"

definition truncate :: "string \<Rightarrow> int64 \<Rightarrow> string" where
  "truncate s max_runes =
     (if sint max_runes < 0 then [] else truncate_loop s (sint max_runes) (runes s) 0 0)"

subsection \<open>Lemmas\<close>

lemma chunk_loop_tiles:
  "0 < n \<Longrightarrow> i \<le> l \<Longrightarrow> l - i \<le> fuel \<Longrightarrow> l = length a \<Longrightarrow>
   concat (map (read_window a) (chunk_loop fuel l n i)) = drop i a"
proof (induction fuel l n i rule: chunk_loop.induct)
  case (2 fuel l n i)
  show ?case
  proof (cases "i + n < l")
    case True
    then have "concat (map (read_window a) (chunk_loop fuel l n (i + n))) = drop (i + n) a"
      using 2 by (intro "2.IH") auto
    moreover have "take n (drop i a) @ drop (i + n) a = drop i a"
      by (metis append_take_drop_id drop_drop add.commute)
    moreover have "read_window a (i, n) = take n (drop i a)" by (simp add: read_window_def)
    ultimately show ?thesis using True by simp
  next
    case False
    have "chunk_loop fuel l n (i + n) = []" using False by (cases fuel) simp_all
    then show ?thesis using 2 False by (auto simp: read_window_def Let_def)
  qed
qed simp

lemma chunk_loop_sizes:
  "0 < n \<Longrightarrow> i \<le> l \<Longrightarrow>
   (\<forall>w \<in> set (chunk_loop fuel l n i). fst w + snd w \<le> l \<and> 0 < snd w \<and> snd w \<le> n \<and> i \<le> fst w) \<and>
   (\<forall>w \<in> set (butlast (chunk_loop fuel l n i)). snd w = n)"
proof (induction fuel l n i rule: chunk_loop.induct)
  case (2 fuel l n i)
  show ?case
  proof (cases "i + n < l")
    case True
    then have ih: "(\<forall>w \<in> set (chunk_loop fuel l n (i + n)). fst w + snd w \<le> l \<and> 0 < snd w \<and> snd w \<le> n \<and> i + n \<le> fst w) \<and>
        (\<forall>w \<in> set (butlast (chunk_loop fuel l n (i + n))). snd w = n)"
      using 2 by (intro "2.IH") auto
    have "chunk_loop (Suc fuel) l n i = (i, n) # chunk_loop fuel l n (i + n)" using True by simp
    with ih True 2(2) show ?thesis by (auto split: if_splits)
  next
    case False
    have "chunk_loop fuel l n (i + n) = []" using False by (cases fuel) simp_all
    then show ?thesis using 2 False by (auto simp: Let_def)
  qed
qed simp

lemma filter_alloc_filter: "filter_alloc s pred = filter pred s"
proof -
  have "filter_loop pred s out = out @ filter pred s" for out by (induction s arbitrary: out) simp_all
  then show ?thesis by (simp add: filter_alloc_def)
qed

lemma in_place_filter:
  assumes "k \<le> i" "i + rounds = length a"
  shows "in_place_loop pred rounds i k a =
    (k + length (filter pred (drop i a)),
     take k a @ filter pred (drop i a) @ drop (k + length (filter pred (drop i a))) a)"
  using assms
proof (induction pred rounds i k a rule: in_place_loop.induct)
  case (2 pred rounds i k a)
  then have d: "drop i a = a ! i # drop (i + 1) a" by (simp add: Cons_nth_drop_Suc)
  show ?case
  proof (cases "pred (a ! i)")
    case True
    let ?a = "a[k := a ! i]"
    have "k < length a" using 2 by simp
    then have t: "take (k + 1) ?a = take k a @ [a ! i]" by (simp add: take_Suc_conv_app_nth)
    have e: "drop (i + 1) ?a = drop (i + 1) a" using 2 by simp
    have "in_place_loop pred rounds (i + 1) (k + 1) ?a =
      (k + 1 + length (filter pred (drop (i + 1) ?a)),
       take (k + 1) ?a @ filter pred (drop (i + 1) ?a) @ drop (k + 1 + length (filter pred (drop (i + 1) ?a))) ?a)"
      using 2 True by (intro "2.IH"(1)) auto
    then show ?thesis using True d t e by simp
  next
    case False
    then show ?thesis using 2 d by simp
  qed
qed simp

lemma concat_runes: "concat (runes s) = s"
proof (induction s rule: runes.induct)
  case (1 s)
  then show ?case by (subst runes.simps) simp
qed

lemma truncate_loop_take:
  "s = pre @ concat rs \<Longrightarrow> n \<le> m \<Longrightarrow> truncate_loop s m rs (length pre) n = pre @ concat (take (nat (m - n)) rs)"
proof (induction rs arbitrary: pre n)
  case (Cons r rs)
  show ?case
  proof (cases "n = m")
    case False
    then have "nat (m - n) = Suc (nat (m - (n + 1)))" using Cons.prems(2) by simp
    then show ?thesis using Cons.IH [of "pre @ r" "n + 1"] Cons.prems False by simp
  qed (use Cons.prems in simp)
qed simp

subsection \<open>Properties\<close>

text \<open>\<^verbatim>\<open>Chunk\<close> tiles its slice and shares it, \<^verbatim>\<open>CopyChunks\<close> has the same contents without sharing.
Where the capacity hint does not overflow, the windows read in order give back the slice, all but the
last have length n and none is empty, a write through a chunk writes the caller's array, and the
copies are what the windows read at the call.\<close>

theorem chunks_tile:
  assumes "0 < sint n" "0 \<le> cap_hint (length a) n"
  shows "\<exists>ws. chunk (length a) n = Value ws \<and> copy_chunks a n = Value (map (read_window a) ws) \<and>
    concat (map (read_window a) ws) = a \<and>
    (\<forall>w \<in> set (butlast ws). snd w = nat (sint n)) \<and>
    (\<forall>w \<in> set ws. 0 < snd w \<and> snd w \<le> nat (sint n) \<and>
       (\<forall>i v. i < snd w \<longrightarrow> read_window (write_window a w i v) w = (read_window a w)[i := v] \<and>
          write_window a w i v ! (fst w + i) = v))"
proof -
  let ?ws = "chunk_loop (length a) (length a) (nat (sint n)) 0"
  have n: "0 < nat (sint n)" using assms(1) by simp
  note sizes = chunk_loop_sizes [OF n, of 0 "length a" "length a", simplified]
  have "concat (map (read_window a) ?ws) = a" using chunk_loop_tiles [OF n, of 0 "length a" "length a" a] by simp
  moreover have "read_window (write_window a w i v) w = (read_window a w)[i := v] \<and> write_window a w i v ! (fst w + i) = v"
    if "w \<in> set ?ws" "i < snd w" for w i v
  proof -
    have "fst w + i < length a" using sizes that by (meson add_less_cancel_left order.strict_trans2)
    then show ?thesis by (simp add: read_window_def write_window_def drop_update_swap take_update_swap)
  qed
  moreover have "chunk (length a) n = Value ?ws" "copy_chunks a n = Value (map (read_window a) ?ws)"
    using assms by (simp_all add: chunk_def copy_chunks_def)
  ultimately show ?thesis using sizes by blast
qed

theorem chunks_tile_witness: "\<exists>ws. chunk (length ''abcde'') 2 = Value ws \<and> concat (map (read_window ''abcde'') ws) = ''abcde''"
  using chunks_tile [of 2 "''abcde''"] by (auto simp: cap_hint_def go_div_def)

text \<open>\<^verbatim>\<open>FilterInPlace\<close> compacts correctly although it overwrites the array it reads.  The
window it returns holds what the allocating filter computes; the rest of the array is as before,
so the caller's tail is clobbered only below the length of the result.\<close>

theorem filter_in_place_compacts:
  "(case filter_in_place s pred of (w, a) \<Rightarrow>
      read_window a w = filter_alloc s pred \<and> a = filter_alloc s pred @ drop (length (filter_alloc s pred)) s \<and>
      length a = length s)"
  using in_place_filter [of 0 0 "length s" s pred] length_filter_le [of pred s]
  by (simp add: filter_in_place_def filter_alloc_filter read_window_def split: prod.split)

text \<open>\<^verbatim>\<open>Truncate\<close> never splits a rune: the result is the first \<open>max_runes\<close> runes of the string, all
of them when there are fewer, and nothing for a negative limit.\<close>

theorem truncate_runes:
  "truncate s m = concat (take (nat (sint m)) (runes s)) \<and> concat (runes s) = s"
proof (cases "sint m < 0")
  case True
  then show ?thesis by (simp add: truncate_def concat_runes)
next
  case False
  then show ?thesis using truncate_loop_take [of s "[]" "runes s" 0 "sint m"]
    by (simp add: truncate_def concat_runes)
qed

text \<open>A chunk size near the maximum overflows the capacity hint, and \<^verbatim>\<open>Chunk\<close> panics on any slice of two or more.\<close>

lemma chunk_overflow: "chunk 2 (2 ^ 63 - 1) = Panic"
  by (simp add: chunk_def cap_hint_def go_div_def)

end
