(* ===== verification/Linkcheck.thy ===== *)
theory Linkcheck
  imports Text
begin

text \<open>
  The link checker \<^verbatim>\<open>src/tools/linkcheck/main.go\<close>: fences and inline code, the link pattern, URL
  escapes, path resolution as \<^verbatim>\<open>path/filepath\<close> does it on Unix, the walk over a directory tree and the
  exit code.  The contents of files and the entries of directories are functions of the path.
\<close>

subsection \<open>Inline code\<close>

abbreviation tick :: char where "tick \<equiv> CHR ''`''"

text \<open>The inner loop: \<open>pre\<close> is the part of the line already passed, \<open>b\<close> the builder.\<close>

function strip_line :: "nat \<Rightarrow> string \<Rightarrow> string \<Rightarrow> string \<Rightarrow> nat \<times> string" where
  "strip_line opn b pre [] = (opn, b)"
| "strip_line opn b pre (c # cs) =
     (if c = tick then
        let run = length (takeWhile (\<lambda>c. c = tick) (c # cs));
            opn' = (if opn = 0 then run else if run = opn then 0 else opn);
            b' = (if opn = 0 then pre else b)
        in strip_line opn' b' (pre @ take run (c # cs)) (drop run (c # cs))
      else strip_line opn (if opn = 0 then b @ [c] else b) (pre @ [c]) cs)"
  by pat_completeness auto
termination
  by (relation "measure (\<lambda>(opn, b, pre, s). length s)") auto

fun strip_lines :: "nat \<Rightarrow> string list \<Rightarrow> string list" where
  "strip_lines opn [] = []"
| "strip_lines opn (l # ls) = (case strip_line opn [] [] l of (opn', b) \<Rightarrow> b # strip_lines opn' ls)"

definition strip_inline_code :: "string list \<Rightarrow> string list" where
  "strip_inline_code ls = strip_lines 0 ls"

subsection \<open>Links\<close>

text \<open>Matches of \<^verbatim>\<open>\[[^\]]*\]\(([^)\s]+)\)\<close>, leftmost first, not overlapping.\<close>

definition re_space :: "char \<Rightarrow> bool" where
  "re_space c \<longleftrightarrow> (of_char c :: nat) \<in> {9, 10, 12, 13, 32}"

definition target_char :: "char \<Rightarrow> bool" where
  "target_char c \<longleftrightarrow> c \<noteq> CHR '')'' \<and> \<not> re_space c"

fun match_target :: "string \<Rightarrow> (string \<times> string) option" where
  "match_target (a # b # s) =
     (let t = takeWhile target_char s; r = dropWhile target_char s
      in if a = CHR '']'' \<and> b = CHR ''('' \<and> t \<noteq> [] \<and> r \<noteq> [] \<and> hd r = CHR '')'' then Some (t, tl r) else None)"
| "match_target _ = None"

definition match_here :: "string \<Rightarrow> (string \<times> string) option" where
  "match_here s =
     (if s \<noteq> [] \<and> hd s = CHR ''['' then match_target (dropWhile (\<lambda>c. c \<noteq> CHR '']'') (tl s)) else None)"

lemma match_here_shorter: "match_here s = Some (t, r) \<Longrightarrow> length r < length s"
proof -
  assume m: "match_here s = Some (t, r)"
  then have s: "s \<noteq> []" by (auto simp: match_here_def)
  let ?d = "dropWhile (\<lambda>c. c \<noteq> CHR '']'') (tl s)"
  from m have "match_target ?d = Some (t, r)" by (auto simp: match_here_def split: if_splits)
  then have "length r < length ?d"
  proof (cases ?d rule: match_target.cases)
    case (1 a b u)
    then have "r = tl (dropWhile target_char u)" using \<open>match_target ?d = Some (t, r)\<close> by (auto simp: Let_def split: if_splits)
    then have "length r \<le> length u" using length_dropWhile_le [of target_char u] by simp
    then show ?thesis unfolding 1 by simp
  qed auto
  also have "\<dots> \<le> length (tl s)" by (rule length_dropWhile_le)
  finally show ?thesis using s by (cases s) auto
qed

function find_links :: "string \<Rightarrow> string list" where
  "find_links [] = []"
| "find_links (c # s) =
     (case match_here (c # s) of Some (t, r) \<Rightarrow> t # find_links r | None \<Rightarrow> find_links s)"
  by pat_completeness auto
termination
  by (relation "measure length") (auto dest: match_here_shorter)

definition hex_value :: "char \<Rightarrow> nat option" where
  "hex_value c =
     (let n = (of_char c :: nat)
      in if 48 \<le> n \<and> n \<le> 57 then Some (n - 48)
         else if 97 \<le> n \<and> n \<le> 102 then Some (n - 87)
         else if 65 \<le> n \<and> n \<le> 70 then Some (n - 55) else None)"

fun path_unescape :: "string \<Rightarrow> string option" where
  "path_unescape [] = Some []"
| "path_unescape (c # s) =
     (if c = CHR ''%'' then
        (case s of
           a # b # r \<Rightarrow>
             (case (hex_value a, hex_value b) of
                (Some x, Some y) \<Rightarrow> map_option ((#) (char_of (16 * x + y))) (path_unescape r)
              | _ \<Rightarrow> None)
         | _ \<Rightarrow> None)
      else map_option ((#) c) (path_unescape s))"

definition link_target :: "string \<Rightarrow> string option" where
  "link_target raw =
     (let r = takeWhile (\<lambda>c. c \<noteq> CHR ''#'') raw;
          d = (case path_unescape r of None \<Rightarrow> r | Some x \<Rightarrow> x)
      in if d = [] \<or> has_prefix d ''http://'' \<or> has_prefix d ''https://'' \<or> has_prefix d ''mailto:''
         then None else Some d)"

subsection \<open>A file\<close>

definition is_fence :: "string \<Rightarrow> bool" where
  "is_fence trimmed \<longleftrightarrow> has_prefix trimmed ''```'' \<or> has_prefix trimmed ''~~~''"

text \<open>\<open>fence\<close> is the marker of the open fence, if any.\<close>

fun active_lines :: "string option \<Rightarrow> string list \<Rightarrow> string list" where
  "active_lines fence [] = []"
| "active_lines fence (l # ls) =
     (let trimmed = trim_space l
      in if is_fence trimmed then
           active_lines
             (case fence of
                None \<Rightarrow> Some (replicate 3 (hd trimmed))
              | Some m \<Rightarrow> if has_prefix trimmed m then None else Some m) ls
         else if fence \<noteq> None then active_lines fence ls
         else l # active_lines fence ls)"

definition links_in :: "string \<Rightarrow> string list" where
  "links_in content =
     List.map_filter link_target
       (concat (map find_links (strip_inline_code (active_lines None (split_on (char_of (10 :: nat)) content)))))"

subsection \<open>Paths\<close>

fun clean_segs :: "bool \<Rightarrow> string list \<Rightarrow> string list \<Rightarrow> string list" where
  "clean_segs rooted out [] = out"
| "clean_segs rooted out (x # xs) =
     (if x = [] \<or> x = ''.'' then clean_segs rooted out xs
      else if x = ''..'' then
        (if out \<noteq> [] \<and> last out \<noteq> ''..'' then clean_segs rooted (butlast out) xs
         else if rooted then clean_segs rooted out xs
         else clean_segs rooted (out @ [x]) xs)
      else clean_segs rooted (out @ [x]) xs)"

definition clean :: "string \<Rightarrow> string" where
  "clean p =
     (let rooted = (p \<noteq> [] \<and> hd p = CHR ''/'');
          r = (if rooted then ''/'' else []) @ join_on (CHR ''/'') (clean_segs rooted [] (split_on (CHR ''/'') p))
      in if r = [] then ''.'' else r)"

definition join_path :: "string \<Rightarrow> string \<Rightarrow> string" where
  "join_path d t = clean (d @ ''/'' @ t)"

definition after_slash :: "string \<Rightarrow> string" where
  "after_slash p = rev (takeWhile (\<lambda>c. c \<noteq> CHR ''/'') (rev p))"

definition dir_of :: "string \<Rightarrow> string" where
  "dir_of p = clean (take (length p - length (after_slash p)) p)"

definition base_of :: "string \<Rightarrow> string" where
  "base_of p =
     (if p = [] then ''.''
      else let q = rev (dropWhile (\<lambda>c. c = CHR ''/'') (rev p))
           in if q = [] then ''/'' else after_slash q)"

definition link_resolves :: "(string \<Rightarrow> string list option) \<Rightarrow> string \<Rightarrow> string \<Rightarrow> bool" where
  "link_resolves read_dir source target =
     (let resolved = clean (join_path (dir_of source) target)
      in case read_dir (dir_of resolved) of
           None \<Rightarrow> False
         | Some entries \<Rightarrow> list_ex (\<lambda>e. e = base_of resolved) entries)"

subsection \<open>The walk\<close>

datatype node = File string | Dir string "node list"

fun node_name :: "node \<Rightarrow> string" where
  "node_name (File n) = n"
| "node_name (Dir n ns) = n"

record tally =
  checked :: nat
  broken :: "(string \<times> string) list"

record disk =
  contents :: "string \<Rightarrow> string option"
  read_dir :: "string \<Rightarrow> string list option"

definition skipped :: "string \<Rightarrow> string \<Rightarrow> bool" where
  "skipped path name \<longleftrightarrow> (has_prefix name ''.'' \<or> name = ''node_modules'') \<and> path \<noteq> ''.''"

definition is_md :: "string \<Rightarrow> bool" where
  "is_md path \<longleftrightarrow> has_prefix (rev path) (rev ''.md'')"

fun check_links :: "disk \<Rightarrow> string \<Rightarrow> string list \<Rightarrow> tally \<Rightarrow> tally" where
  "check_links d path [] t = t"
| "check_links d path (x # xs) t =
     check_links d path xs
       (t\<lparr>checked := checked t + 1,
          broken := (if link_resolves (read_dir d) path x then broken t else broken t @ [(path, x)])\<rparr>)"

text \<open>The callback of \<^verbatim>\<open>WalkDir\<close>, entries in the order of the tree; \<open>None\<close> is an error.\<close>

fun walk :: "disk \<Rightarrow> string \<Rightarrow> node \<Rightarrow> tally \<Rightarrow> tally option"
  and walk_all :: "disk \<Rightarrow> string \<Rightarrow> node list \<Rightarrow> tally \<Rightarrow> tally option" where
  "walk d path (File n) t =
     (if \<not> is_md path then Some t
      else case contents d path of
          None \<Rightarrow> None
        | Some c \<Rightarrow> Some (check_links d path (links_in c) t))"
| "walk d path (Dir n ns) t = (if skipped path n then Some t else walk_all d path ns t)"
| "walk_all d path [] t = Some t"
| "walk_all d path (n # ns) t =
     (case walk d (join_path path (node_name n)) n t of
        None \<Rightarrow> None
      | Some t' \<Rightarrow> walk_all d path ns t')"

fun walk_roots :: "disk \<Rightarrow> (string \<times> node) list \<Rightarrow> tally \<Rightarrow> tally option" where
  "walk_roots d [] t = Some t"
| "walk_roots d ((path, n) # rs) t =
     (case walk d path n t of None \<Rightarrow> None | Some t' \<Rightarrow> walk_roots d rs t')"

definition run_main :: "disk \<Rightarrow> (string \<times> node) list \<Rightarrow> int" where
  "run_main d roots =
     (case walk_roots d roots \<lparr>checked = 0, broken = []\<rparr> of
        None \<Rightarrow> 1
      | Some t \<Rightarrow> if broken t \<noteq> [] then 1 else 0)"

subsection \<open>Inline code: lemmas\<close>

lemma strip_plain:
  "tick \<notin> set s \<Longrightarrow> strip_line opn b pre (s @ t) = strip_line opn (if opn = 0 then b @ s else b) (pre @ s) t"
  by (induction s arbitrary: b pre) auto

lemma strip_run:
  assumes "0 < k" "s = [] \<or> hd s \<noteq> tick"
  shows "strip_line opn b pre (replicate k tick @ s) =
    strip_line (if opn = 0 then k else if k = opn then 0 else opn) (if opn = 0 then pre else b) (pre @ replicate k tick) s"
proof -
  have "takeWhile (\<lambda>c. c = tick) (replicate k tick @ s) = replicate k tick"
    using assms(2) by (cases s) (auto simp: takeWhile_append)
  moreover obtain m where m: "k = Suc m" using assms(1) by (cases k) auto
  ultimately have "length (takeWhile (\<lambda>c. c = tick) (tick # replicate m tick @ s)) = Suc m" by simp
  then show ?thesis unfolding m replicate_Suc append_Cons
    by (subst strip_line.simps) (simp add: Let_def)
qed

text \<open>The first of two spans on a line comes back: the second span's opening resets the builder to the
  original beginning of the line.\<close>

lemma two_spans: "strip_inline_code [''`[i](h)` and `x`''] = [''`[i](h)` and '']"
  by (simp add: strip_inline_code_def)

lemma two_spans_link: "find_links ''`[i](h)` and '' = [''h'']"
  by (simp add: match_here_def target_char_def re_space_def)

subsection \<open>Links: lemmas\<close>

lemma find_plain: "CHR ''['' \<notin> set p \<Longrightarrow> find_links (p @ s) = find_links s"
  by (induction p) (auto simp: match_here_def)

definition link_text :: "string \<times> string \<times> string \<Rightarrow> string" where
  "link_text l = (case l of (p, x, t) \<Rightarrow> p @ CHR ''['' # x @ '']('' @ t @ '')'')"

definition link_ok :: "string \<times> string \<times> string \<Rightarrow> bool" where
  "link_ok l = (case l of (p, x, t) \<Rightarrow>
     CHR ''['' \<notin> set p \<and> CHR '']'' \<notin> set x \<and> t \<noteq> [] \<and> list_all target_char t)"

lemma find_link:
  assumes "link_ok (p, x, t)"
  shows "find_links (link_text (p, x, t) @ s) = t # find_links s"
proof -
  have p: "CHR ''['' \<notin> set p" and x: "CHR '']'' \<notin> set x" and t: "t \<noteq> []" "\<forall>c \<in> set t. target_char c"
    using assms by (simp_all add: link_ok_def list_all_iff)
  have "dropWhile (\<lambda>c. c \<noteq> CHR '']'') (x @ '']('' @ t @ '')'' @ s) = '']('' @ t @ '')'' @ s"
    using x by (subst dropWhile_append2) auto
  moreover have "takeWhile target_char (t @ '')'' @ s) = t" "dropWhile target_char (t @ '')'' @ s) = '')'' @ s"
    using t(2) by (subst takeWhile_append2 dropWhile_append2; simp add: target_char_def)+
  ultimately have "match_here (CHR ''['' # x @ '']('' @ t @ '')'' @ s) = Some (t, s)"
    using t(1) by (simp add: match_here_def Let_def)
  then show ?thesis using find_plain [OF p] by (simp add: link_text_def)
qed

subsection \<open>The walk: lemmas\<close>

text \<open>The Markdown files of a tree that are not in skipped directories, in order.\<close>

fun md_files :: "string \<Rightarrow> node \<Rightarrow> string list"
  and md_files_all :: "string \<Rightarrow> node list \<Rightarrow> string list" where
  "md_files path (File n) = (if is_md path then [path] else [])"
| "md_files path (Dir n ns) = (if skipped path n then [] else md_files_all path ns)"
| "md_files_all path [] = []"
| "md_files_all path (n # ns) = md_files (join_path path (node_name n)) n @ md_files_all path ns"

definition bad_links :: "disk \<Rightarrow> string \<Rightarrow> (string \<times> string) list" where
  "bad_links d f = map (Pair f) (filter (\<lambda>x. \<not> link_resolves (read_dir d) f x) (links_in (the (contents d f))))"

definition readable :: "disk \<Rightarrow> string \<Rightarrow> bool" where
  "readable d f \<longleftrightarrow> contents d f \<noteq> None"

definition visit :: "disk \<Rightarrow> string list \<Rightarrow> tally \<Rightarrow> tally" where
  "visit d fs t =
     \<lparr>checked = checked t + sum_list (map (\<lambda>f. length (links_in (the (contents d f)))) fs),
      broken = broken t @ concat (map (bad_links d) fs)\<rparr>"

lemma check_links_visit:
  "check_links d f xs t =
     \<lparr>checked = checked t + length xs,
      broken = broken t @ map (Pair f) (filter (\<lambda>x. \<not> link_resolves (read_dir d) f x) xs)\<rparr>"
  by (induction xs arbitrary: t) simp_all

lemma visit_append: "visit d (xs @ ys) t = visit d ys (visit d xs t)"
  by (simp add: visit_def)

lemma walk_visit:
  "walk d path n t = (if list_all (readable d) (md_files path n) then Some (visit d (md_files path n) t) else None)"
  "walk_all d path ns t = (if list_all (readable d) (md_files_all path ns) then Some (visit d (md_files_all path ns) t) else None)"
proof (induction d path n t and d path ns t rule: walk_walk_all.induct)
  case (1 d path n t)
  then show ?case
    by (auto simp: check_links_visit visit_def bad_links_def readable_def split: option.split)
next
  case (4 d path n ns t)
  then show ?case by (auto simp: visit_append split: option.split)
qed (simp_all add: visit_def)

lemma walk_roots_visit:
  "walk_roots d rs t =
     (let fs = concat (map (\<lambda>(p, n). md_files p n) rs)
      in if list_all (readable d) fs then Some (visit d fs t) else None)"
proof (induction rs arbitrary: t)
  case (Cons r rs)
  obtain p n where "r = (p, n)" by (cases r) auto
  then show ?case using Cons by (auto simp: walk_visit visit_append Let_def split: option.split)
qed (simp add: visit_def)

subsection \<open>Properties\<close>

text \<open>The checker's verdict is the right one.  The exit code is 0 exactly when every Markdown file
outside the skipped directories of the roots can be read and each of its link targets resolves to an
entry of its directory.\<close>

theorem exit_code:
  "run_main d roots =
     (if list_all (\<lambda>f. readable d f \<and> list_all (link_resolves (read_dir d) f) (links_in (the (contents d f))))
           (concat (map (\<lambda>(p, n). md_files p n) roots))
      then 0 else 1)"
proof -
  let ?fs = "concat (map (\<lambda>(p, n). md_files p n) roots)"
  have "concat (map (bad_links d) ?fs) = [] \<longleftrightarrow>
      list_all (\<lambda>f. list_all (link_resolves (read_dir d) f) (links_in (the (contents d f)))) ?fs"
    unfolding concat_eq_Nil_conv list_all_iff by (auto simp: bad_links_def filter_empty_conv)
  then show ?thesis
    unfolding run_main_def walk_roots_visit Let_def
    by (auto simp: visit_def list_all_iff)
qed

text \<open>Every link is found.  In a line made of inline links \<open>[text](target)\<close> with plain text
around them, the targets found are those written, in order.\<close>

theorem find_links_all:
  assumes "list_all link_ok ls" "CHR ''['' \<notin> set p"
  shows "find_links (concat (map link_text ls) @ p) = map (\<lambda>(p, x, t). t) ls"
  using assms(1)
proof (induction ls)
  case Nil
  then show ?case using find_plain [OF assms(2), of "[]"] by simp
next
  case (Cons l ls)
  obtain q x t where "l = (q, x, t)" by (cases l) auto
  then show ?case using Cons find_link by simp
qed

theorem find_links_all_witness: "find_links ''see [a b](x.md#y), [c](../d.md)!'' = [''x.md#y'', ''../d.md'']"
  using find_links_all [of "[(''see '', ''a b'', ''x.md#y''), ('', '', ''c'', ''../d.md'')]" "''!''"]
  by (simp add: link_ok_def link_text_def target_char_def re_space_def)

lemma strip_end: "tick \<notin> set s \<Longrightarrow> strip_line opn b pre s = (opn, if opn = 0 then b @ s else b)"
  using strip_plain [of s opn b pre "[]"] by simp

lemma no_tick: "tick \<notin> set s \<Longrightarrow> s = [] \<or> hd s \<noteq> tick"
  by (cases s) auto

text \<open>A code span is removed, text and ticks, whatever the length of its runs: on one line when it is the
only one there, and across lines, where the lines inside the span lose everything.\<close>

theorem code_span_removed:
  assumes "0 < k" "tick \<notin> set pre" "tick \<notin> set code" "tick \<notin> set post" "code \<noteq> []"
  shows "strip_inline_code [pre @ replicate k tick @ code @ replicate k tick @ post] = [pre @ post] \<and>
    strip_inline_code [pre @ replicate k tick @ code, code, code @ replicate k tick @ post] = [pre, [], post]"
proof
  have open_span: "strip_line 0 [] [] (pre @ replicate k tick @ code @ s) = strip_line k pre (pre @ replicate k tick @ code) s" for s
  proof -
    have "strip_line 0 [] [] (pre @ replicate k tick @ code @ s) = strip_line 0 pre pre (replicate k tick @ code @ s)"
      using strip_plain [OF assms(2), of 0 "[]" "[]"] by simp
    also have "\<dots> = strip_line k pre (pre @ replicate k tick) (code @ s)"
      using strip_run [OF assms(1), of "code @ s" 0 pre pre] no_tick [OF assms(3)] assms(5) by simp
    also have "\<dots> = strip_line k pre (pre @ replicate k tick @ code) s"
      using strip_plain [OF assms(3), of k pre "pre @ replicate k tick" s] assms(1) by simp
    finally show ?thesis .
  qed
  have close_span: "strip_line k b q (replicate k tick @ post) = (0, b @ post)" for b q
    using strip_run [OF assms(1), of post k b q] no_tick [OF assms(4)] assms(1)
    by (simp add: strip_end [OF assms(4)])
  show "strip_inline_code [pre @ replicate k tick @ code @ replicate k tick @ post] = [pre @ post]"
    by (simp add: strip_inline_code_def open_span close_span)
  have "strip_line k [] [] (code @ replicate k tick @ post) = (0, post)"
    using strip_plain [OF assms(3), of k "[]" "[]" "replicate k tick @ post"] assms(1) close_span [of "[]" code] by simp
  moreover have "strip_line k [] [] code = (k, [])" using strip_end [OF assms(3)] assms(1) by simp
  ultimately show "strip_inline_code [pre @ replicate k tick @ code, code, code @ replicate k tick @ post] = [pre, [], post]"
    using open_span [of "[]"] by (simp add: strip_inline_code_def)
qed

theorem code_span_removed_witness:
  "strip_inline_code [''a '' @ replicate 2 tick @ ''b[i](h)'' @ replicate 2 tick @ '' c''] = [''a '' @ '' c'']"
  using code_span_removed [of 2 "''a ''" "''b[i](h)''" "'' c''"] by simp

text \<open>A root whose name begins with a dot, other than \<^verbatim>\<open>.\<close> itself, is skipped and passes: \<^verbatim>\<open>linkcheck ..\<close> checks
  nothing.\<close>

lemma dot_dot_root: "run_main d [(''..'', Dir ''..'' ns)] = 0"
  by (simp add: run_main_def skipped_def has_prefix_def)

end
