(* ===== verification/Linkcheck_Doc.thy ===== *)
theory Linkcheck_Doc
  imports Linkcheck
begin

text \<open>
  The link checker on documents: a document is written as lines of prose with inline links and fenced code
  blocks, and what \<^verbatim>\<open>linksIn\<close> finds in its text, and the exit code over a tree of such files, are
  stated of what was written.
\<close>

subsection \<open>Documents\<close>

text \<open>A line of prose is its links, each with the text before it, and the text after the last; a code
  block has the character of its fence.\<close>

datatype block = Prose "(string \<times> string \<times> string) list" string | Code char "string list"

fun block_lines :: "block \<Rightarrow> string list" where
  "block_lines (Prose ls p) = [concat (map link_text ls) @ p]"
| "block_lines (Code c body) = [replicate 3 c] @ body @ [replicate 3 c]"

fun written :: "block \<Rightarrow> string list" where
  "written (Prose ls p) = map (\<lambda>(p, x, t). t) ls"
| "written (Code c body) = []"

definition newline :: char where
  "newline = char_of (10 :: nat)"

definition render :: "block list \<Rightarrow> string" where
  "render bs = join_on newline (concat (map block_lines bs))"

text \<open>Prose has no backtick and does not look like a fence; the body of a block does not close it.\<close>

fun block_ok :: "block \<Rightarrow> bool" where
  "block_ok (Prose ls p) \<longleftrightarrow> list_all link_ok ls \<and> CHR ''['' \<notin> set p \<and>
     tick \<notin> set (concat (map link_text ls) @ p) \<and> newline \<notin> set (concat (map link_text ls) @ p) \<and>
     \<not> is_fence (trim_space (concat (map link_text ls) @ p))"
| "block_ok (Code c body) \<longleftrightarrow> c \<in> {tick, CHR ''~''} \<and>
     list_all (\<lambda>l. newline \<notin> set l \<and> \<not> has_prefix (trim_space l) (replicate 3 c)) body"

subsection \<open>Lemmas\<close>

lemma split_join: "list_all (\<lambda>w. d \<notin> set w) ws \<Longrightarrow> ws \<noteq> [] \<Longrightarrow> split_on d (join_on d ws) = ws"
  by (induction d ws rule: join_on.induct) (simp_all add: split_on_none split_on_append)

lemma fence_trim: "c \<in> {tick, CHR ''~''} \<Longrightarrow> trim_space (replicate 3 c) = replicate 3 c"
  using trim_blanks [of "replicate 3 c" 0 0] by (auto simp: solid_def blanks_def numeral_3_eq_3)

lemma fence_is: "c \<in> {tick, CHR ''~''} \<Longrightarrow> is_fence (replicate 3 c)"
  by (auto simp: is_fence_def has_prefix_def numeral_3_eq_3)

text \<open>A code block leaves no line, and whatever looks like a fence of the other kind inside is passed over.\<close>

lemma active_body:
  "list_all (\<lambda>l. newline \<notin> set l \<and> \<not> has_prefix (trim_space l) m) body \<Longrightarrow>
   active_lines (Some m) (body @ ls) = active_lines (Some m) ls"
  by (induction body) (simp_all add: Let_def)

lemma active_code:
  assumes "block_ok (Code c body)"
  shows "active_lines None (block_lines (Code c body) @ ls) = active_lines None ls"
proof -
  let ?m = "replicate 3 c"
  have c: "c \<in> {tick, CHR ''~''}" using assms by simp
  have hd: "replicate 3 (hd ?m) = ?m" by (simp add: numeral_3_eq_3)
  have "active_lines None (block_lines (Code c body) @ ls) = active_lines (Some ?m) (body @ ?m # ls)"
    using fence_trim [OF c] fence_is [OF c] hd by (simp add: Let_def del: replicate.simps)
  also have "\<dots> = active_lines (Some ?m) (?m # ls)" using assms by (intro active_body) simp
  also have "\<dots> = active_lines None ls"
    using fence_trim [OF c] fence_is [OF c] by (simp add: Let_def has_prefix_def del: replicate.simps)
  finally show ?thesis .
qed

fun prose_lines :: "block \<Rightarrow> string list" where
  "prose_lines (Prose ls p) = [concat (map link_text ls) @ p]"
| "prose_lines (Code c body) = []"

lemma active_doc:
  "list_all block_ok bs \<Longrightarrow> active_lines None (concat (map block_lines bs)) = concat (map prose_lines bs)"
proof (induction bs)
  case (Cons b bs)
  then show ?case
  proof (cases b)
    case (Prose ls p)
    with Cons show ?thesis by (simp add: Let_def)
  next
    case (Code c body)
    with Cons.prems have "block_ok (Code c body)" by simp
    from active_code [OF this, of "concat (map block_lines bs)"] Cons Code show ?thesis by simp
  qed
qed simp

lemma strip_clean: "list_all (\<lambda>l. tick \<notin> set l) ls \<Longrightarrow> strip_inline_code ls = ls"
  unfolding strip_inline_code_def by (induction ls) (simp_all add: strip_end)

lemma prose_clean: "list_all block_ok bs \<Longrightarrow> list_all (\<lambda>l. tick \<notin> set l) (concat (map prose_lines bs))"
proof (induction bs)
  case (Cons b bs)
  then show ?case by (cases b) simp_all
qed simp

lemma newline_fence: "newline \<noteq> tick" "newline \<noteq> CHR ''~''"
  by (simp_all add: newline_def char_of_eq_iff)

lemma block_lines_words: "block_ok b \<Longrightarrow> list_all (\<lambda>l. newline \<notin> set l) (block_lines b)"
  using newline_fence by (cases b) (auto simp: list_all_iff numeral_3_eq_3)

lemma prose_links: "block_ok b \<Longrightarrow> concat (map find_links (prose_lines b)) = written b"
  by (cases b) (simp_all add: find_links_all)

lemma doc_words: "list_all block_ok bs \<Longrightarrow> list_all (\<lambda>l. newline \<notin> set l) (concat (map block_lines bs))"
proof (induction bs)
  case (Cons b bs)
  then show ?case using block_lines_words [of b] by simp
qed simp

lemma doc_links: "list_all block_ok bs \<Longrightarrow> concat (map find_links (concat (map prose_lines bs))) = concat (map written bs)"
proof (induction bs)
  case (Cons b bs)
  then show ?case using prose_links [of b] by simp
qed simp

lemma render_lines:
  assumes "list_all block_ok bs" "bs \<noteq> []"
  shows "split_on newline (render bs) = concat (map block_lines bs)"
proof -
  obtain b cs where "bs = b # cs" using assms(2) by (cases bs) auto
  moreover have "block_lines b \<noteq> []" by (cases b) simp_all
  ultimately have "concat (map block_lines bs) \<noteq> []" by simp
  from split_join [OF doc_words [OF assms(1)] this] show ?thesis by (simp add: render_def)
qed

text \<open>What is read back from the text are the targets written in prose; code is passed over.\<close>

lemma links_written:
  assumes "list_all block_ok bs" "bs \<noteq> []"
  shows "links_in (render bs) = List.map_filter link_target (concat (map written bs))"
proof -
  have "strip_inline_code (active_lines None (split_on (char_of (10 :: nat)) (render bs))) = concat (map prose_lines bs)"
    using render_lines [OF assms] active_doc [OF assms(1)] strip_clean [OF prose_clean [OF assms(1)]]
    by (simp add: newline_def)
  then show ?thesis unfolding links_in_def using doc_links [OF assms(1)] by (simp only:)
qed

lemma all_map_filter: "list_all P (List.map_filter f xs) \<longleftrightarrow> list_all (\<lambda>x. case f x of None \<Rightarrow> True | Some y \<Rightarrow> P y) xs"
  by (induction xs) (auto simp: map_filter_def split: option.splits)

subsection \<open>Property\<close>

text \<open>C39: the verdict on written documents.  Over any tree whose Markdown files outside the skipped directories
  are documents of prose and fenced code, the exit code is 0 exactly when every link written in the prose
  of these files, but for those to other sites and to anchors, resolves from the directory of its file;
  link shapes in code blocks do not count.  Skipped are the directories named \<^verbatim>\<open>node_modules\<close> or with a
  name that begins with a dot, other than \<^verbatim>\<open>.\<close> itself: no file below one is checked, and a root of this
  kind, such as \<^verbatim>\<open>..\<close>, passes unchecked.\<close>

theorem document_verdict:
  assumes "\<forall>f \<in> set (concat (map (\<lambda>(p, n). md_files p n) roots)).
      contents d f = Some (render (doc f)) \<and> list_all block_ok (doc f) \<and> doc f \<noteq> []"
  shows "run_main d roots =
     (if list_all (\<lambda>f. list_all (\<lambda>raw. case link_target raw of None \<Rightarrow> True | Some t \<Rightarrow> link_resolves (read_dir d) f t)
            (concat (map written (doc f)))) (concat (map (\<lambda>(p, n). md_files p n) roots))
      then 0 else 1)"
proof -
  have "(readable d f \<and> list_all (link_resolves (read_dir d) f) (links_in (the (contents d f)))) =
      list_all (\<lambda>raw. case link_target raw of None \<Rightarrow> True | Some t \<Rightarrow> link_resolves (read_dir d) f t) (concat (map written (doc f)))"
    if "f \<in> set (concat (map (\<lambda>(p, n). md_files p n) roots))" for f
    using assms that by (auto simp: readable_def links_written all_map_filter simp del: set_concat)
  then show ?thesis unfolding exit_code by (auto simp: list_all_iff simp del: set_concat split: option.splits)
qed

text \<open>Two files: the first links to the second, to another site, and has link-shaped code.\<close>

definition demo_doc :: "string \<Rightarrow> block list" where
  "demo_doc f = (if f = ''a.md''
     then [Prose [(''See '', ''b'', ''b.md#top''), ('' or '', ''web'', ''https://go.dev'')] ''.'', Code tick [''x[i](h)'']]
     else [Prose [] ''No links.''])"

definition demo_disk :: disk where
  "demo_disk = \<lparr>contents = (\<lambda>f. Some (render (demo_doc f))), read_dir = (\<lambda>p. if p = ''.'' then Some [''a.md'', ''b.md''] else None)\<rparr>"

lemma demo_doc_ok: "list_all block_ok (demo_doc f)"
proof -
  have solid: "solid (CHR ''S'')" "solid (CHR ''.'')" "solid (CHR ''N'')" "solid (CHR ''x'')" "solid (CHR '')'')"
    by (simp_all add: solid_def)
  have see: "trim_space ''See [b](b.md#top) or [web](https://go.dev).'' = ''See [b](b.md#top) or [web](https://go.dev).''"
    using trim_blanks [of "''See [b](b.md#top) or [web](https://go.dev).''" 0 0] solid by (simp add: blanks_def)
  have none: "trim_space ''No links.'' = ''No links.''"
    using trim_blanks [of "''No links.''" 0 0] solid by (simp add: blanks_def)
  have code: "trim_space ''x[i](h)'' = ''x[i](h)''"
    using trim_blanks [of "''x[i](h)''" 0 0] solid by (simp add: blanks_def)
  have nl: "newline \<noteq> c" if "(of_char c :: nat) \<noteq> 10" for c
    using that by (auto simp: newline_def)
  show ?thesis
    by (auto simp: demo_doc_def link_text_def see none code is_fence_def has_prefix_def link_ok_def target_char_def re_space_def
        nl numeral_3_eq_3)
qed

theorem document_verdict_witness:
  "run_main demo_disk [(''.'', Dir ''.'' [File ''a.md'', File ''b.md'', Dir ''.git'' [File ''c.md'']])] = 0"
proof -
  let ?roots = "[(''.'', Dir ''.'' [File ''a.md'', File ''b.md'', Dir ''.git'' [File ''c.md'']])]"
  have fs: "concat (map (\<lambda>(p, n). md_files p n) ?roots) = [''a.md'', ''b.md'']" by code_simp
  have "\<forall>f \<in> set (concat (map (\<lambda>(p, n). md_files p n) ?roots)).
      contents demo_disk f = Some (render (demo_doc f)) \<and> list_all block_ok (demo_doc f) \<and> demo_doc f \<noteq> []"
    using demo_doc_ok by (auto simp: demo_disk_def demo_doc_def)
  note v = document_verdict [OF this, unfolded fs]
  have t: "link_target ''b.md#top'' = Some ''b.md''" "link_target ''https://go.dev'' = None"
    "link_resolves (read_dir demo_disk) ''a.md'' ''b.md''" by code_simp+
  show ?thesis unfolding v by (simp add: demo_doc_def t)
qed

end
