(* ===== verification/Errors.thy ===== *)
theory Errors
  imports Middleware
begin

text \<open>
  Error design, \<^verbatim>\<open>05-errors/examples\<close>: the sentinel, the classified error and the predicate of
  \<^verbatim>\<open>errorslib/errors.go\<close>, and the payment service of \<^verbatim>\<open>service/service.go\<close> with its translation of
  errors to responses.  An error is the tree \<^verbatim>\<open>errors.Is\<close> and \<^verbatim>\<open>errors.As\<close> walk; the \<^verbatim>\<open>net.Error\<close>s
  carry their timeout bit and whether they match \<^verbatim>\<open>context.DeadlineExceeded\<close>.
\<close>

subsection \<open>Errors\<close>

datatype code = Unknown | Code_not_found | Invalid | Conflict | Unavailable

datatype err =
    Plain string | Sentinel_not_found | Canceled | Deadline_exceeded
  | Net string bool bool
  | Domain string string code "err option"
  | Annotated string err
  | Joined "err list"

fun lines_of :: "string list \<Rightarrow> string" where
  "lines_of [] = []"
| "lines_of [x] = x"
| "lines_of (x # xs) = x @ char_of (10 :: nat) # lines_of xs"

fun error_text :: "err \<Rightarrow> string" where
  "error_text (Plain t) = t"
| "error_text Sentinel_not_found = ''not found''"
| "error_text Canceled = ''context canceled''"
| "error_text Deadline_exceeded = ''context deadline exceeded''"
| "error_text (Net t b m) = t"
| "error_text (Domain p r c w) =
     (case w of None \<Rightarrow> p @ '': '' @ r | Some e \<Rightarrow> p @ '': '' @ r @ '': '' @ error_text e)"
| "error_text (Annotated t e) = t @ '': '' @ error_text e"
| "error_text (Joined es) = lines_of (map error_text es)"

text \<open>The nodes of the tree in the order \<^verbatim>\<open>Is\<close> and \<^verbatim>\<open>As\<close> try them.\<close>

fun chain_of :: "err \<Rightarrow> err list" where
  "chain_of (Domain p r c w) = Domain p r c w # (case w of None \<Rightarrow> [] | Some e \<Rightarrow> chain_of e)"
| "chain_of (Annotated t e) = Annotated t e # chain_of e"
| "chain_of (Joined es) = Joined es # concat (map chain_of es)"
| "chain_of e = [e]"

definition not_found :: "string \<Rightarrow> err" where
  "not_found what = Annotated what Sentinel_not_found"

definition load :: "string \<Rightarrow> err + string" where
  "load i = Inl (not_found (''user '' @ i))"

definition is_not_found :: "err \<Rightarrow> bool" where
  "is_not_found e = list_ex (\<lambda>x. case x of Sentinel_not_found \<Rightarrow> True | _ \<Rightarrow> False) (chain_of e)"

definition is_canceled :: "err \<Rightarrow> bool" where
  "is_canceled e = list_ex (\<lambda>x. case x of Canceled \<Rightarrow> True | _ \<Rightarrow> False) (chain_of e)"

definition is_deadline :: "err \<Rightarrow> bool" where
  "is_deadline e = list_ex (\<lambda>x. case x of Deadline_exceeded \<Rightarrow> True | Net t b m \<Rightarrow> m | _ \<Rightarrow> False) (chain_of e)"

definition wrap :: "string \<Rightarrow> code \<Rightarrow> string \<Rightarrow> err option \<Rightarrow> err" where
  "wrap op c reason cause = Domain op reason c cause"

text \<open>\<^verbatim>\<open>errors.As\<close> for \<^verbatim>\<open>*DomainError\<close> (its code and reason) and for \<^verbatim>\<open>net.Error\<close> (its timeout bit;
  \<^verbatim>\<open>context.DeadlineExceeded\<close> is one).\<close>

fun first_domain :: "err list \<Rightarrow> (code \<times> string) option" where
  "first_domain [] = None"
| "first_domain (Domain p r c w # es) = Some (c, r)"
| "first_domain (_ # es) = first_domain es"

fun first_net :: "err list \<Rightarrow> bool option" where
  "first_net [] = None"
| "first_net (Net t b m # es) = Some b"
| "first_net (Deadline_exceeded # es) = Some True"
| "first_net (_ # es) = first_net es"

definition retryable :: "err \<Rightarrow> bool" where
  "retryable e =
     (if is_canceled e \<or> is_deadline e then False
      else case first_domain (chain_of e) of
          Some (c, r) \<Rightarrow> c = Unavailable
        | None \<Rightarrow> (case first_net (chain_of e) of Some b \<Rightarrow> b | None \<Rightarrow> False))"

subsection \<open>The payment service\<close>

record payment_request =
  idempotency_key :: string
  amount_minor :: int64
  currency :: string

text \<open>\<^verbatim>\<open>errors.Join\<close> of no errors is nil.\<close>

definition validate :: "payment_request \<Rightarrow> err option" where
  "validate r =
     (let errs = (if idempotency_key r = [] then [Plain ''idempotency_key is required''] else []) @
        (if sint (amount_minor r) \<le> 0 then [Plain ''amount_minor must be positive''] else []) @
        (if length (currency r) \<noteq> 3 then [Plain ''currency must be a 3-letter code''] else [])
      in if errs = [] then None else Some (Joined errs))"

definition svc_process :: "err option \<Rightarrow> payment_request \<Rightarrow> err option" where
  "svc_process ctx_err r =
     (case ctx_err of
        Some e \<Rightarrow> Some (wrap ''authorize'' Unavailable ''request canceled'' (Some e))
      | None \<Rightarrow>
          if sint (amount_minor r) > 10000000
          then Some (wrap ''authorize'' Invalid ''amount exceeds per-payment limit'' None) else None)"

definition write_error :: "err \<Rightarrow> wop list" where
  "write_error e =
     (let retry = (\<lambda>ops. Set_header ''Retry-After'' ''1'' # ops);
          other = (if retryable e then retry (http_error ''temporarily unavailable'' 503)
                   else http_error ''internal error'' 500)
      in case first_domain (chain_of e) of
           Some (Code_not_found, r) \<Rightarrow> http_error ''resource not found'' 404
         | Some (Invalid, r) \<Rightarrow> http_error r 400
         | Some (Conflict, r) \<Rightarrow> http_error ''conflicting state'' 409
         | Some (Unavailable, r) \<Rightarrow> retry (http_error ''temporarily unavailable'' 503)
         | Some (Unknown, r) \<Rightarrow> other
         | None \<Rightarrow> other)"

text \<open>\<^verbatim>\<open>POST /payments\<close>; JSON decoding is a parameter, \<open>ctx_err\<close> is the request context's error.\<close>

definition handle_payment :: "(string \<Rightarrow> payment_request option) \<Rightarrow> err option \<Rightarrow> string \<Rightarrow> wop list" where
  "handle_payment decode ctx_err body =
     (case decode body of
        None \<Rightarrow> http_error ''malformed JSON body'' 400
      | Some r \<Rightarrow>
          (case validate r of
             Some e \<Rightarrow> http_error (error_text e) 400
           | None \<Rightarrow>
               (case svc_process ctx_err r of
                  Some e \<Rightarrow> write_error e
                | None \<Rightarrow> [Write_header 201])))"

subsection \<open>Lemmas\<close>

lemma not_found_inspected: "is_not_found (not_found w) \<and> error_text (not_found w) = w @ '': not found''"
  by (simp add: not_found_def is_not_found_def)

text \<open>Wrapping hides nothing.\<close>

lemma chain_wrap [simp]: "chain_of (wrap p c r (Some e)) = wrap p c r (Some e) # chain_of e"
  by (simp add: wrap_def)

lemma first_domain_wrap [simp]: "first_domain (wrap p c r w # es) = Some (c, r)"
  by (simp add: wrap_def)

lemma wrap_transparent:
  "is_not_found (wrap p c r (Some e)) = is_not_found e \<and> is_canceled (wrap p c r (Some e)) = is_canceled e \<and>
   is_deadline (wrap p c r (Some e)) = is_deadline e"
  by (simp add: is_not_found_def is_canceled_def is_deadline_def) (simp add: wrap_def)

text \<open>A sentinel that is not classified as a \<^verbatim>\<open>DomainError\<close> is answered 500, not 404.\<close>

lemma sentinel_internal: "wire_status (write_error (not_found w)) = 500"
  by (simp add: write_error_def Let_def not_found_def retryable_def is_canceled_def is_deadline_def informational_def)

subsection \<open>Properties\<close>

text \<open>Classification decides retries and responses.  Wrapping an error in a \<^verbatim>\<open>DomainError\<close> keeps it
visible to \<^verbatim>\<open>errors.Is\<close>; an error is retryable only if it contains no context error, and then
exactly when the outermost classification is \<^verbatim>\<open>CodeUnavailable\<close>; and the response to it is 404, 400
with its reason, 409, or 503 with \<^verbatim>\<open>Retry-After\<close>, by the code alone, even where a retry is not advised.\<close>

theorem classified_errors:
  "is_canceled (wrap p c r (Some e)) = is_canceled e \<and> is_not_found (wrap p c r (Some e)) = is_not_found e \<and>
   retryable (wrap p c r (Some e)) = (c = Unavailable \<and> \<not> is_canceled e \<and> \<not> is_deadline e) \<and>
   retryable (wrap p c r None) = (c = Unavailable) \<and>
   wire_status (write_error (wrap p c r w)) =
     (case c of Code_not_found \<Rightarrow> 404 | Invalid \<Rightarrow> 400 | Conflict \<Rightarrow> 409 | Unavailable \<Rightarrow> 503 | Unknown \<Rightarrow> 500)"
proof (intro conjI)
  show "is_canceled (wrap p c r (Some e)) = is_canceled e" "is_not_found (wrap p c r (Some e)) = is_not_found e"
    using wrap_transparent by blast+
  show "retryable (wrap p c r (Some e)) = (c = Unavailable \<and> \<not> is_canceled e \<and> \<not> is_deadline e)"
    by (simp add: retryable_def wrap_transparent)
  show "retryable (wrap p c r None) = (c = Unavailable)"
    by (simp add: retryable_def wrap_def is_canceled_def is_deadline_def)
  have "first_domain (chain_of (wrap p c r w)) = Some (c, r)" by (simp add: wrap_def)
  then show "wire_status (write_error (wrap p c r w)) =
     (case c of Code_not_found \<Rightarrow> 404 | Invalid \<Rightarrow> 400 | Conflict \<Rightarrow> 409 | Unavailable \<Rightarrow> 503 | Unknown \<Rightarrow> 500)"
    by (cases c) (simp_all add: write_error_def Let_def retryable_def informational_def)
qed

text \<open>The payment handler's decision. It answers 201 exactly when the body decodes, the request is valid, the context is
alive and the amount is within the limit; 503 with \<^verbatim>\<open>Retry-After\<close> exactly when a valid request meets a
dead context; and 400 otherwise, never 500; an invalid request is told every violation, one per line.\<close>

theorem payment_decided:
  "wire_status (handle_payment decode ctx_err body) =
     (case decode body of
        None \<Rightarrow> 400
      | Some r \<Rightarrow>
          if idempotency_key r \<noteq> [] \<and> 0 < sint (amount_minor r) \<and> length (currency r) = 3
          then (if ctx_err \<noteq> None then 503 else if sint (amount_minor r) \<le> 10000000 then 201 else 400)
          else 400)"
proof (cases "decode body")
  case None
  then show ?thesis by (simp add: handle_payment_def informational_def)
next
  case (Some r)
  show ?thesis
  proof (cases "validate r")
    case None
    then have "idempotency_key r \<noteq> []" "0 < sint (amount_minor r)" "length (currency r) = 3"
      by (auto simp: validate_def Let_def split: if_splits)
    then show ?thesis using Some None
      by (cases ctx_err)
        (simp_all add: handle_payment_def svc_process_def write_error_def Let_def wrap_def informational_def)
  next
    case (Some e)
    then have "\<not> (idempotency_key r \<noteq> [] \<and> 0 < sint (amount_minor r) \<and> length (currency r) = 3)"
      by (auto simp: validate_def Let_def split: if_splits)
    with Some \<open>decode body = Some r\<close> show ?thesis by (simp add: handle_payment_def informational_def)
  qed
qed

end
