(* ===== verification/Di.thy ===== *)
theory Di
  imports Text
begin

text \<open>
  The user service of \<^verbatim>\<open>04-functions-methods-interfaces/examples/di\<close>: the domain type of \<^verbatim>\<open>user.go\<close>, whose
  constructor is the only way to a user, and the service of \<^verbatim>\<open>service.go\<close> over its consumer-side
  interfaces.  The locale \<open>storer\<close> states what the service may assume of a \<^verbatim>\<open>Storer\<close>.
  \<^verbatim>\<open>strings.ToLower\<close> beyond ASCII is a parameter.
\<close>

subsection \<open>Users\<close>

record user =
  uid :: string
  email :: string
  opened_at :: instant

datatype di_error = Validation string | Register_error string string | Get_error string string

definition new_user :: "(string \<Rightarrow> string) \<Rightarrow> string \<Rightarrow> instant \<Rightarrow> di_error + user" where
  "new_user lower raw now =
     (let e = to_lower lower (trim_space raw)
      in if CHR ''@'' \<notin> set e \<or> has_prefix e ''@'' \<or> has_prefix (rev e) ''@''
         then Inl (Validation e)
         else Inr \<lparr>uid = ''u_'' @ e, email = e, opened_at = now\<rparr>)"

subsection \<open>The service\<close>

text \<open>The two interfaces: \<^verbatim>\<open>Save\<close> and \<^verbatim>\<open>Get\<close> of a store, \<^verbatim>\<open>Welcome\<close> of a notifier; an error is its text.\<close>

record 's storer_ops =
  save :: "user \<Rightarrow> 's \<Rightarrow> string option \<times> 's"
  get :: "string \<Rightarrow> 's \<Rightarrow> (string + user) \<times> 's"

type_synonym 'n notifier = "user \<Rightarrow> 'n \<Rightarrow> string option \<times> 'n"

record ('s, 'n) service =
  store :: "'s storer_ops"
  notify :: "'n notifier"
  clock :: instant
  lower :: "string \<Rightarrow> string"

definition new_service ::
  "'s storer_ops \<Rightarrow> 'n notifier \<Rightarrow> instant \<Rightarrow> (string \<Rightarrow> string) \<Rightarrow> ('s, 'n) service" where
  "new_service st n now lo = \<lparr>store = st, notify = n, clock = now, lower = lo\<rparr>"

text \<open>The last component is the log: the users whose welcome failed.\<close>

definition register ::
  "('s, 'n) service \<Rightarrow> string \<Rightarrow> 's \<times> 'n \<times> string list \<Rightarrow> (di_error + user) \<times> 's \<times> 'n \<times> string list" where
  "register svc raw w =
     (case w of (s, n, log) \<Rightarrow>
        (case new_user (lower svc) raw (clock svc) of
           Inl e \<Rightarrow> (Inl e, s, n, log)
         | Inr u \<Rightarrow>
             (case save (store svc) u s of
                (Some e, s1) \<Rightarrow> (Inl (Register_error (uid u) e), s1, n, log)
              | (None, s1) \<Rightarrow>
                  (case notify svc u n of
                     (Some e, n1) \<Rightarrow> (Inr u, s1, n1, log @ [uid u])
                   | (None, n1) \<Rightarrow> (Inr u, s1, n1, log)))))"

definition get_user :: "('s, 'n) service \<Rightarrow> string \<Rightarrow> 's \<Rightarrow> (di_error + user) \<times> 's" where
  "get_user svc i s =
     (case get (store svc) i s of
        (Inl e, s1) \<Rightarrow> (Inl (Get_error i e), s1)
      | (Inr u, s1) \<Rightarrow> (Inr u, s1))"

subsection \<open>What a store promises\<close>

text \<open>
  A \<^verbatim>\<open>Save\<close> without error stores the user under its identifier, one with an error stores nothing; a
  \<^verbatim>\<open>Get\<close> changes nothing, and a user it returns is the stored one.  Both may fail at any time.
\<close>

locale storer =
  fixes ops :: "'s storer_ops" and view :: "'s \<Rightarrow> string \<rightharpoonup> user"
  assumes save_law: "save ops u s = (r, t) \<Longrightarrow> view t = (if r = None then (view s)(uid u \<mapsto> u) else view s)"
    and get_law: "get ops i s = (x, t) \<Longrightarrow> view t = view s \<and> (\<forall>u. x = Inr u \<longrightarrow> view s i = Some u)"
begin

text \<open>Registering gives a user exactly when the address is valid and the store has taken it.\<close>

lemma register_saves:
  assumes "store svc = ops" "register svc raw (s, n, log) = (r, t, n', log')"
  shows "case r of
      Inr u \<Rightarrow> new_user (lower svc) raw (clock svc) = Inr u \<and> save ops u s = (None, t) \<and> view t = (view s)(uid u \<mapsto> u)
    | Inl e \<Rightarrow> view t = view s \<and> n' = n \<and> log' = log \<and>
        (new_user (lower svc) raw (clock svc) = Inl e \<or>
         (\<exists>u x. new_user (lower svc) raw (clock svc) = Inr u \<and> save ops u s = (Some x, t) \<and> e = Register_error (uid u) x))"
proof (cases "new_user (lower svc) raw (clock svc)")
  case (Inl e)
  then have "r = Inl e" "t = s" "n' = n" "log' = log" using assms(2) by (simp_all add: register_def)
  then show ?thesis using Inl by simp
next
  case (Inr u)
  obtain x s1 where s1: "save ops u s = (x, s1)" by (cases "save ops u s")
  show ?thesis
  proof (cases x)
    case None
    then have "r = Inr u" "t = s1" using assms Inr s1 by (auto simp: register_def split: prod.splits option.splits)
    then show ?thesis using Inr s1 None save_law [OF s1] by simp
  next
    case (Some e)
    then have "r = Inl (Register_error (uid u) e)" "t = s1" "n' = n" "log' = log"
      using assms Inr s1 by (auto simp: register_def)
    then show ?thesis using Inr s1 Some save_law [OF s1] by simp
  qed
qed

lemma registered_get:
  assumes "store svc = ops" "view t (uid u) = Some u"
  shows "case get ops (uid u) t of
      (Inr v, t2) \<Rightarrow> v = u \<and> get_user svc (uid u) t = (Inr u, t2)
    | (Inl e, t2) \<Rightarrow> get_user svc (uid u) t = (Inl (Get_error (uid u) e), t2)"
proof -
  obtain x t2 where g: "get ops (uid u) t = (x, t2)" by (cases "get ops (uid u) t")
  show ?thesis using get_law [OF g] g assms by (cases x) (auto simp: get_user_def)
qed

end

text \<open>The test doubles \<^verbatim>\<open>MemStore\<close>, \<^verbatim>\<open>RecordingNotifier\<close> and \<^verbatim>\<open>FailingNotifier\<close>.\<close>

definition mem_store :: "(string \<rightharpoonup> user) storer_ops" where
  "mem_store =
     \<lparr>save = (\<lambda>u m. (None, m(uid u \<mapsto> u))),
      get = (\<lambda>i m. (case m i of None \<Rightarrow> Inl ''not found'' | Some u \<Rightarrow> Inr u, m))\<rparr>"

definition recording :: "user list notifier" where
  "recording u ws = (None, ws @ [u])"

definition failing :: "string \<Rightarrow> 'n notifier" where
  "failing e u n = (Some e, n)"

interpretation ms: storer mem_store "\<lambda>m. m"
  by unfold_locales (auto simp: mem_store_def split: option.splits)

text \<open>A store with room for \<open>k\<close> users, whose \<^verbatim>\<open>Save\<close> fails when it is full.\<close>

definition bounded_store :: "nat \<Rightarrow> (string \<times> user) list storer_ops" where
  "bounded_store k =
     \<lparr>save = (\<lambda>u m. if length m < k then (None, ins (uid u) u m) else (Some ''store full'', m)),
      get = (\<lambda>i m. (case map_of m i of None \<Rightarrow> Inl ''not found'' | Some u \<Rightarrow> Inr u, m))\<rparr>"

interpretation bs: storer "bounded_store k" map_of
  by unfold_locales (auto simp: bounded_store_def map_of_ins split: if_splits option.splits)

subsection \<open>Lemmas\<close>

text \<open>What every user satisfies by construction.\<close>

definition valid_user :: "user \<Rightarrow> bool" where
  [inv_defs]: "valid_user u \<longleftrightarrow>
     uid u = ''u_'' @ email u \<and> CHR ''@'' \<in> set (email u) \<and> hd (email u) \<noteq> CHR ''@'' \<and> last (email u) \<noteq> CHR ''@''"

lemma no_prefix_hd: "\<not> has_prefix e [c] \<Longrightarrow> e \<noteq> [] \<Longrightarrow> hd e \<noteq> c"
  by (cases e) (auto simp: has_prefix_def)

lemma new_user_valid:
  assumes "new_user lo raw now = Inr u"
  shows "valid_user u \<and> opened_at u = now \<and> email u = to_lower lo (trim_space raw)"
proof -
  let ?e = "to_lower lo (trim_space raw)"
  have e: "CHR ''@'' \<in> set ?e" "\<not> has_prefix ?e ''@''" "\<not> has_prefix (rev ?e) ''@''"
    and u: "u = \<lparr>uid = ''u_'' @ ?e, email = ?e, opened_at = now\<rparr>"
    using assms by (auto simp: new_user_def Let_def split: if_splits)
  have "?e \<noteq> []" using e(1) by auto
  then have "hd ?e \<noteq> CHR ''@''" "last ?e \<noteq> CHR ''@''"
    using no_prefix_hd [OF e(2)] no_prefix_hd [OF e(3)] by (simp_all add: hd_rev)
  with e(1) show ?thesis by (simp add: u valid_user_def)
qed

lemma register_user:
  assumes "register svc raw (s, n, log) = (Inr u, t, n', log')"
  shows "new_user (lower svc) raw (clock svc) = Inr u"
  using assms by (auto simp: register_def split: sum.splits prod.splits option.splits)

text \<open>Registering an address again replaces the user: the opening time of the first registration is gone.\<close>

lemma registered_twice:
  "new_user lo raw t1 = Inr u \<Longrightarrow>
   \<exists>v. new_user lo raw t2 = Inr v \<and> uid v = uid u \<and> opened_at v = t2"
  by (auto simp: new_user_def Let_def split: if_splits)

subsection \<open>Properties\<close>

text \<open>C40: registration keeps the store valid and is best-effort only where it says so.  On any store that
keeps the laws of \<open>storer\<close>, whose \<^verbatim>\<open>Save\<close> and \<^verbatim>\<open>Get\<close> may fail at any time, and whose users are valid,
\<^verbatim>\<open>Register\<close> returns a user exactly when the address is valid and \<^verbatim>\<open>Save\<close> has succeeded: the one valid user
for the trimmed, lower-case address with the injected time, now stored under its identifier, so that
\<^verbatim>\<open>Get\<close> returns it if the store can read, whether or not the welcome could be sent.  Otherwise it
returns the error of the address or, with the identifier, that of \<^verbatim>\<open>Save\<close>, the stored users are as they
were and nobody is notified.\<close>

theorem register_valid:
  assumes "storer ops view" "store svc = ops" "\<forall>i u. view s i = Some u \<longrightarrow> valid_user u \<and> uid u = i"
    and "register svc raw (s, n, log) = (r, t, n', log')"
  shows "(\<forall>i u. view t i = Some u \<longrightarrow> valid_user u \<and> uid u = i) \<and>
    (case r of
       Inl e \<Rightarrow> view t = view s \<and> n' = n \<and> log' = log \<and>
         (new_user (lower svc) raw (clock svc) = Inl e \<or>
          (\<exists>u x. new_user (lower svc) raw (clock svc) = Inr u \<and> save ops u s = (Some x, t) \<and> e = Register_error (uid u) x))
     | Inr u \<Rightarrow> email u = to_lower (lower svc) (trim_space raw) \<and> opened_at u = clock svc \<and>
         uid u = ''u_'' @ email u \<and> save ops u s = (None, t) \<and> view t = (view s)(uid u \<mapsto> u) \<and>
         (case get ops (uid u) t of
            (Inr v, t2) \<Rightarrow> v = u \<and> get_user svc (uid u) t = (Inr u, t2)
          | (Inl e, t2) \<Rightarrow> get_user svc (uid u) t = (Inl (Get_error (uid u) e), t2)) \<and>
         (notify svc u n = (None, n') \<or> (\<exists>e. notify svc u n = (Some e, n') \<and> log' = log @ [uid u])))"
proof (cases r)
  case (Inl e)
  then show ?thesis using storer.register_saves [OF assms(1,2,4)] assms(3) by simp
next
  case (Inr u)
  note reg = assms(4) [unfolded Inr]
  have s: "new_user (lower svc) raw (clock svc) = Inr u" "save ops u s = (None, t)" "view t = (view s)(uid u \<mapsto> u)"
    using storer.register_saves [OF assms(1,2,4)] Inr by simp_all
  have u: "valid_user u" "opened_at u = clock svc" "email u = to_lower (lower svc) (trim_space raw)"
    using new_user_valid [OF s(1)] by blast+
  then have i: "uid u = ''u_'' @ email u" by (simp only: valid_user_def)
  have "\<forall>i v. view t i = Some v \<longrightarrow> valid_user v \<and> uid v = i" unfolding s(3) using assms(3) u(1) by simp
  moreover have "notify svc u n = (None, n') \<or> (\<exists>e. notify svc u n = (Some e, n') \<and> log' = log @ [uid u])"
    using reg by (auto simp: register_def split: sum.splits prod.splits option.splits)
  moreover have "view t (uid u) = Some u" by (simp add: s(3))
  note storer.registered_get [OF assms(1,2) this]
  ultimately show ?thesis unfolding Inr sum.case by (intro conjI u i s)
qed

lemma demo_user: "new_user id (''ada@x.io'' @ blanks 1) 7 = Inr \<lparr>uid = ''u_ada@x.io'', email = ''ada@x.io'', opened_at = 7\<rparr>"
proof -
  have "trim_space (''ada@x.io'' @ blanks 1) = ''ada@x.io''"
    using trim_blanks [of "''ada@x.io''" 0 1] by (simp add: solid_def blanks_def)
  moreover have "to_lower id ''ada@x.io'' = ''ada@x.io''"
    by (simp add: to_lower_def is_ascii_def lower_char_def)
  ultimately show ?thesis unfolding new_user_def Let_def by (simp add: has_prefix_def)
qed

text \<open>In a store with room for one user the first registration succeeds, although the welcome fails, and the
  second one fails in \<^verbatim>\<open>Save\<close> and changes nothing.\<close>

theorem register_valid_witness:
  "let svc = new_service (bounded_store 1) (failing ''smtp down'') 7 id;
       (r1, s1, n1, log1) = register svc (''ada@x.io'' @ blanks 1) ([], (), []);
       (r2, s2, n2, log2) = register svc (''ada@x.io'' @ blanks 1) (s1, n1, log1)
   in (\<exists>u. r1 = Inr u \<and> email u = to_lower id (trim_space (''ada@x.io'' @ blanks 1)) \<and> map_of s1 (uid u) = Some u) \<and>
      (\<exists>e. r2 = Inl e \<and> map_of s2 = map_of s1)"
proof -
  let ?svc = "new_service (bounded_store 1) (failing ''smtp down'') 7 id"
  let ?u = "\<lparr>uid = ''u_ada@x.io'', email = ''ada@x.io'', opened_at = 7\<rparr>"
  have svc: "store ?svc = bounded_store 1" "lower ?svc = id" "clock ?svc = 7" "notify ?svc = failing ''smtp down''"
    by (simp_all add: new_service_def)
  have run1: "register ?svc (''ada@x.io'' @ blanks 1) ([], (), []) = (Inr ?u, [(''u_ada@x.io'', ?u)], (), [''u_ada@x.io''])"
    unfolding register_def prod.case svc demo_user by (simp add: bounded_store_def failing_def ins_def del_def)
  have run2: "register ?svc (''ada@x.io'' @ blanks 1) ([(''u_ada@x.io'', ?u)], (), [''u_ada@x.io'']) =
      (Inl (Register_error ''u_ada@x.io'' ''store full''), [(''u_ada@x.io'', ?u)], (), [''u_ada@x.io''])"
    unfolding register_def prod.case svc demo_user by (simp add: bounded_store_def)
  have "\<forall>i u. map_of [] i = Some u \<longrightarrow> valid_user u \<and> uid u = i" by simp
  note one = register_valid [OF bs.storer_axioms svc(1) this run1]
  have "email ?u = to_lower id (trim_space (''ada@x.io'' @ blanks 1))" using one unfolding sum.case svc by blast
  moreover have "map_of [(''u_ada@x.io'', ?u)] = map_of [(''u_ada@x.io'', ?u)]"
    using register_valid [OF bs.storer_axioms svc(1) conjunct1 [OF one] run2] unfolding sum.case by blast
  moreover have "map_of [(''u_ada@x.io'', ?u)] (uid ?u) = Some ?u" by simp
  ultimately show ?thesis unfolding Let_def run1 run2 prod.case by (intro conjI exI [of _ ?u] exI [of _ "Register_error ''u_ada@x.io'' ''store full''"] refl)
qed

end
