(* ===== verification/Runtime.thy ===== *)
theory Runtime
  imports Prelude "HOL-Library.List_Lexorder" "HOL-Library.Char_ord"
begin

text \<open>
  Two packages about the runtime: \<^verbatim>\<open>23-go-internals/examples/internals\<close> (sums, the typed-nil trap and its
  fix, sorted map keys) and \<^verbatim>\<open>09-memory-runtime/examples/memwatch\<close> (leak shapes and their fixes).  What
  escapes to the heap is not visible in the model; which array a slice pins is.
\<close>

subsection \<open>internals\<close>

fun sum_loop :: "int64 list \<Rightarrow> nat \<Rightarrow> nat \<Rightarrow> int64 \<Rightarrow> int64" where
  "sum_loop s 0 i acc = acc"
| "sum_loop s (Suc n) i acc = sum_loop s n (i + 1) (acc + s ! i)"

definition int_sum :: "int64 list \<Rightarrow> int64" where
  "int_sum s = sum_loop s (length s) 0 0"

definition stack_local :: "int64 \<Rightarrow> int64" where
  "stack_local v = v + 1"

text \<open>\<^verbatim>\<open>Escaped\<close> stores the pointer it returns in the global \<^verbatim>\<open>sink\<close>; a pointer is the address of its
  fresh cell.\<close>

record memory =
  cells :: "int64 list"
  sink :: "nat option"

definition escaped :: "int64 \<Rightarrow> memory \<Rightarrow> nat \<times> memory" where
  "escaped v m = (length (cells m), m\<lparr>cells := cells m @ [v], sink := Some (length (cells m))\<rparr>)"

definition sink_of :: "memory \<Rightarrow> nat option" where
  "sink_of m = sink m"

text \<open>An error interface: nil, or a dynamic type with a value; the value may be a nil pointer of the
  type, and may be of a kind that has no nil (a struct).\<close>

datatype dyn_value = Nil_pointer | Pointer nat | Struct string

datatype go_error = No_error | Error string dyn_value

definition typed_nil :: go_error where
  "typed_nil = Error ''*NilError'' Nil_pointer"

definition honest_nil :: go_error where
  "honest_nil = No_error"

text \<open>\<^verbatim>\<open>reflect.Value.IsNil\<close> panics (\<open>None\<close>) on a kind that cannot be nil.\<close>

fun is_nil_value :: "dyn_value \<Rightarrow> bool option" where
  "is_nil_value Nil_pointer = Some True"
| "is_nil_value (Pointer a) = Some False"
| "is_nil_value (Struct s) = None"

definition normalize :: "go_error \<Rightarrow> go_error option" where
  "normalize e =
     (case e of
        No_error \<Rightarrow> Some No_error
      | Error t v \<Rightarrow>
          (case is_nil_value v of
             None \<Rightarrow> None
           | Some True \<Rightarrow> Some No_error
           | Some False \<Rightarrow> Some (Error t v)))"

text \<open>\<^verbatim>\<open>SortedKeys\<close>: insertion sort of the keys in the order the map happens to be ranged over, strings
  compared byte by byte.\<close>

fun sink_left :: "'a::linorder list \<Rightarrow> nat \<Rightarrow> 'a list" where
  "sink_left ks 0 = ks"
| "sink_left ks (Suc j) =
     (if ks ! Suc j < ks ! j then sink_left (swap ks (Suc j) j) j else ks)"

definition sort_keys :: "'a::linorder list \<Rightarrow> 'a list" where
  "sort_keys ks = foldl sink_left ks [1..<length ks]"

definition sorted_keys :: "(string \<times> int64) list \<Rightarrow> string list" where
  "sorted_keys ranged = sort_keys (map fst ranged)"

subsection \<open>memwatch\<close>

text \<open>A slice: its backing array, kept alive as a whole, and the length of its window from the start.\<close>

record slice =
  backing :: "int64 list"
  window :: nat

definition big_base :: "nat \<Rightarrow> int64 list" where
  "big_base n = map of_nat [0..<n]"

definition big :: slice where
  "big = \<lparr>backing = big_base 1000000, window = 16\<rparr>"

definition big_fix :: slice where
  "big_fix = \<lparr>backing = take 16 (big_base 1000000), window = 16\<rparr>"

definition len_bytes :: "'a list \<Rightarrow> nat" where
  "len_bytes b = length b"

definition visible :: "slice \<Rightarrow> int64 list" where
  "visible s = take (window s) (backing s)"

text \<open>The tracker, one entry per registered goroutine; \<open>ended\<close> holds the identifiers whose quit channel
  is closed and \<open>unowned\<close> counts the goroutines nobody can stop.\<close>

record tracker =
  stops :: "int64 set"
  next_id :: int64
  ended :: "int64 set"
  unowned :: nat

definition new_tracker :: tracker where
  "new_tracker = \<lparr>stops = {}, next_id = 0, ended = {}, unowned = 0\<rparr>"

definition start_no_owner :: "tracker \<Rightarrow> tracker" where
  "start_no_owner t = t\<lparr>unowned := unowned t + 1\<rparr>"

definition start_worker :: "tracker \<Rightarrow> int64 \<times> tracker" where
  "start_worker t =
     (let i = next_id t + 1 in (i, t\<lparr>next_id := i, stops := insert i (stops t)\<rparr>))"

text \<open>The stop function closes the channel once; a second call does nothing.\<close>

definition stop_worker :: "int64 \<Rightarrow> tracker \<Rightarrow> tracker" where
  "stop_worker i t = t\<lparr>ended := insert i (ended t)\<rparr>"

text \<open>The goroutine of \<open>i\<close> wakes when its channel is closed and removes its entry.\<close>

definition worker_exits :: "int64 \<Rightarrow> tracker \<Rightarrow> tracker option" where
  "worker_exits i t =
     (if i \<in> ended t \<and> i \<in> stops t then Some (t\<lparr>stops := stops t - {i}\<rparr>) else None)"

definition live_workers :: "tracker \<Rightarrow> nat" where
  "live_workers t = card (stops t)"

type_synonym sessions = "(string \<times> string) list"

definition add_session :: "string \<Rightarrow> string \<Rightarrow> sessions \<Rightarrow> sessions" where
  "add_session k payload m = ins k payload m"

definition add_with_ttl :: "string \<Rightarrow> string \<Rightarrow> int64 \<Rightarrow> sessions \<Rightarrow> sessions" where
  "add_with_ttl k payload max_entries m =
     ins k payload (if sint max_entries \<le> int (length m) then [] else m)"

definition sessions_size :: "sessions \<Rightarrow> nat" where
  "sessions_size m = length m"

subsection \<open>Lemmas\<close>

lemma int_sum_foldl: "int_sum s = foldl (+) 0 s"
proof -
  have "sum_loop s n i acc = foldl (+) acc (take n (drop i s))" if "i + n = length s" for n i acc
    using that by (induction s n i acc rule: sum_loop.induct) (simp_all add: Cons_nth_drop_Suc [symmetric])
  then show ?thesis by (simp add: int_sum_def)
qed

lemma normalize_cases:
  "normalize typed_nil = Some No_error \<and> normalize honest_nil = Some No_error \<and>
   normalize (Error t (Pointer a)) = Some (Error t (Pointer a)) \<and> typed_nil \<noteq> No_error"
  by (simp add: normalize_def typed_nil_def honest_nil_def)

text \<open>An error of a struct type does not pass through untouched: \<^verbatim>\<open>Normalize\<close> panics on it.\<close>

lemma normalize_struct: "normalize (Error t (Struct s)) = None"
  by (simp add: normalize_def)

lemma sink_left_length [simp]: "length (sink_left ks j) = length ks"
  by (induction ks j rule: sink_left.induct) auto

lemma sink_left_mset: "j < length ks \<Longrightarrow> mset (sink_left ks j) = mset ks"
  by (induction ks j rule: sink_left.induct) auto

text \<open>Sinking the element at \<open>j\<close> into a sorted prefix is an ordered insertion.\<close>

lemma sink_left_insort:
  "j < length ks \<Longrightarrow> sorted (take j ks) \<Longrightarrow>
   sorted (take (Suc j) (sink_left ks j)) \<and> drop (Suc j) (sink_left ks j) = drop (Suc j) ks"
proof (induction ks j rule: sink_left.induct)
  case (1 ks)
  then show ?case by (cases ks) auto
next
  case (2 ks j)
  have l: "Suc j < length ks" "j < length ks" using 2(2) by simp_all
  have t: "take (Suc j) ks = take j ks @ [ks ! j]" using l by (simp add: take_Suc_conv_app_nth)
  have pre: "sorted (take j ks)" and le: "\<forall>x \<in> set (take j ks). x \<le> ks ! j"
    using 2(3) unfolding t by (auto simp: sorted_append)
  show ?case
  proof (cases "ks ! Suc j < ks ! j")
    case True
    let ?s = "swap ks (Suc j) j"
    let ?r = "sink_left ?s j"
    have "take j ?s = take j ks" by (simp add: swap_def)
    with 2(1) [OF True] l pre have ih: "sorted (take (Suc j) ?r)" "drop (Suc j) ?r = drop (Suc j) ?s" by simp_all
    have d: "drop (Suc j) ?s = ks ! j # drop (Suc (Suc j)) ks"
      using l by (simp add: swap_def Cons_nth_drop_Suc [symmetric])
    have "mset ?r = mset ?s" using l by (intro sink_left_mset) simp
    then have "mset (take (Suc j) ?r) + mset (drop (Suc j) ?r) = mset (take (Suc j) ?s) + mset (drop (Suc j) ?s)"
      by (metis append_take_drop_id mset_append)
    then have "mset (take (Suc j) ?r) = mset (take (Suc j) ?s)" using ih(2) by simp
    moreover have "take (Suc j) ?s = take j ks @ [ks ! Suc j]"
      using l by (simp add: take_Suc_conv_app_nth swap_def)
    ultimately have "set (take (Suc j) ?r) = set (take j ks) \<union> {ks ! Suc j}"
      by (metis Un_insert_right list.simps(15) mset_eq_setD set_append empty_set)
    then have up: "\<forall>x \<in> set (take (Suc j) ?r). x \<le> ks ! j" using le True by auto
    have "take (Suc (Suc j)) ?r = take (Suc j) ?r @ [ks ! j]"
      using ih(2) d l by (metis Cons_nth_drop_Suc length_swap list.inject sink_left_length take_Suc_conv_app_nth)
    then have "sorted (take (Suc (Suc j)) ?r)" using ih(1) up by (simp add: sorted_append)
    moreover have "drop (Suc (Suc j)) ?r = drop (Suc (Suc j)) ks"
      using ih(2) d by (metis drop_Suc drop_Suc_Cons drop_tl drop_0 list.sel(3))
    ultimately show ?thesis using True by simp
  next
    case False
    have "take (Suc (Suc j)) ks = take (Suc j) ks @ [ks ! Suc j]" using l by (simp add: take_Suc_conv_app_nth)
    moreover have "\<forall>x \<in> set (take (Suc j) ks). x \<le> ks ! Suc j" unfolding t using le False by auto
    ultimately have "sorted (take (Suc (Suc j)) ks)" using 2(3) by (simp add: sorted_append)
    then show ?thesis using False by simp
  qed
qed

lemma sort_keys_sort: "sort_keys ks = sort ks"
proof -
  have "sorted (take (max 1 m) (foldl sink_left ks [1..<m])) \<and> mset (foldl sink_left ks [1..<m]) = mset ks \<and>
      length (foldl sink_left ks [1..<m]) = length ks" if "m \<le> length ks" for m
    using that
  proof (induction m)
    case 0
    then show ?case by (cases ks) auto
  next
    case (Suc m)
    show ?case
    proof (cases m)
      case 0
      then show ?thesis by (cases ks) auto
    next
      case (Suc k)
      let ?r = "foldl sink_left ks [1..<m]"
      have ih: "sorted (take m ?r)" "mset ?r = mset ks" "length ?r = length ks" using Suc.IH Suc.prems Suc by simp_all
      then have "sorted (take (Suc m) (sink_left ?r m))" using sink_left_insort [of m ?r] Suc.prems by simp
      moreover have "mset (sink_left ?r m) = mset ks" using sink_left_mset [of m ?r] ih Suc.prems by simp
      moreover have "foldl sink_left ks [1..<Suc m] = sink_left ?r m" using Suc by simp
      ultimately show ?thesis using ih(3) by (simp add: max_def)
    qed
  qed
  from this [of "length ks"] have "sorted (sort_keys ks)" "mset (sort_keys ks) = mset ks"
    unfolding sort_keys_def by (auto simp: max_def split: if_splits)
  then show ?thesis by (metis properties_for_sort)
qed

lemma big_same_view: "visible big = visible big_fix \<and> length (backing big_fix) = 16 \<and> length (backing big) = 1000000"
  by (simp add: visible_def big_def big_fix_def big_base_def)

lemma exits_once: "worker_exits i t = Some u \<Longrightarrow> finite (stops t) \<Longrightarrow> live_workers u + 1 = live_workers t \<and> worker_exits i u = None"
  using card_Suc_Diff1 [of "stops t" i] by (auto simp: worker_exits_def live_workers_def split: if_splits)

text \<open>The metric does not see the goroutines that leak.\<close>

lemma unowned_invisible: "live_workers (start_no_owner t) = live_workers t"
  by (simp add: live_workers_def start_no_owner_def)

text \<open>The bound of \<^verbatim>\<open>AddWithTTL\<close>; at the bound, even the update of a present key drops all other entries.\<close>

lemma ttl_bounded:
  assumes "int (length m) \<le> max 1 (sint n)"
  shows "int (length (add_with_ttl k v n m)) \<le> max 1 (sint n)"
proof -
  have "int (length (del k m)) \<le> int (length m)" by (simp add: del_def)
  then show ?thesis using assms
    by (cases "sint n \<le> int (length m)") (simp_all add: add_with_ttl_def ins_def, simp add: del_def)
qed

lemma ttl_update_drops:
  "add_with_ttl ''a'' ''y'' 2 [(''a'', ''x''), (''b'', ''z'')] = [(''a'', ''y'')]"
  by (simp add: add_with_ttl_def ins_def del_def)

subsection \<open>Properties\<close>

text \<open>\<^verbatim>\<open>SortedKeys\<close> is deterministic although the map's order is not: its insertion sort is a sort, so
any two orders of ranging over the same map give the same keys, in increasing byte order, each once.\<close>

theorem sorted_keys_deterministic:
  assumes "distinct (map fst m)" "mset r = mset m"
  shows "sorted_keys r = sorted_keys m \<and> sorted_keys r = sort (map fst m) \<and> distinct (sorted_keys r) \<and>
    set (sorted_keys r) = dom (map_of m)"
proof -
  have "mset (map fst r) = mset (map fst m)" using assms(2) by simp
  then have "sort (map fst r) = sort (map fst m)" by (metis properties_for_sort mset_sort sorted_sort)
  then show ?thesis using assms(1) by (simp add: sorted_keys_def sort_keys_sort dom_map_of_conv_image_fst)
qed

theorem sorted_keys_deterministic_witness:
  "sorted_keys [(''b'', 1), (''a'', 2)] = sorted_keys [(''a'', 2), (''b'', 1)]"
  using sorted_keys_deterministic [of "[(''a'', 2), (''b'', 1)]" "[(''b'', 1), (''a'', 2)]"] by simp

end
