(* ===== verification/Lifecycle.thy ===== *)
theory Lifecycle
  imports Prelude
begin

text \<open>
  The process lifecycle of the payments service, \<^verbatim>\<open>14-backend-development/examples/service/main.go\<close>:
  \<^verbatim>\<open>main\<close>, \<^verbatim>\<open>run\<close> and \<^verbatim>\<open>newLogger\<close>.  The results of the calls \<^verbatim>\<open>main\<close> makes are its surroundings; what it
  does is the sequence of actions, with deferred calls run last in, first out on a return, and not at
  all after \<^verbatim>\<open>os.Exit\<close>.
\<close>

subsection \<open>The lifecycle\<close>

datatype level = Debug | Info | Warn | Error

definition level_of :: "string \<Rightarrow> level" where
  "level_of s =
     (if s = ''debug'' then Debug else if s = ''warn'' then Warn else if s = ''error'' then Error else Info)"

datatype action =
    Logged level string | Init_tracing | Open_store | Listen | Drain | Force_close
  | Close_store | Flush_traces | Exit int

text \<open>How the server ends: \<^verbatim>\<open>ListenAndServe\<close> returns \<^verbatim>\<open>ErrServerClosed\<close> or another error by itself, or a
  signal comes and \<^verbatim>\<open>Shutdown\<close> succeeds or not within the grace period.\<close>

datatype serving = Server_closed | Listen_failed string | Signalled bool

definition run_server :: "serving \<Rightarrow> action list \<times> string option" where
  "run_server s =
     (case s of
        Server_closed \<Rightarrow> ([Listen], None)
      | Listen_failed e \<Rightarrow> ([Listen], Some (''listen: '' @ e))
      | Signalled drained \<Rightarrow>
          ([Listen, Logged Info ''shutting down'', Drain] @
           (if drained then [] else [Logged Error ''forced close after grace period'', Force_close]), None))"

record surroundings =
  config_ok :: bool
  tracing_ok :: bool
  flush_ok :: bool
  store_ok :: bool
  serving :: serving

text \<open>The deferred calls, innermost first; a failing flush is logged.\<close>

definition deferred_flush :: "surroundings \<Rightarrow> action list" where
  "deferred_flush w = Flush_traces # (if flush_ok w then [] else [Logged Error ''trace flush failed''])"

definition run_main :: "surroundings \<Rightarrow> action list" where
  "run_main w =
     (if \<not> config_ok w then [Logged Error ''configuration invalid'', Exit 1]
      else Logged Info ''starting'' #
        (if \<not> tracing_ok w then [Init_tracing, Logged Error ''tracing init failed'', Exit 1]
         else Init_tracing #
           (if \<not> store_ok w then [Open_store, Logged Error ''store open failed'', Exit 1]
            else Open_store #
              (case run_server (serving w) of
                 (as, Some e) \<Rightarrow> as @ [Logged Error ''server failed'', Exit 1]
               | (as, None) \<Rightarrow> as @ [Logged Info ''bye'', Close_store] @ deferred_flush w @ [Exit 0]))))"

subsection \<open>Lemmas\<close>

text \<open>Every failure ends the process at once: nothing that was deferred runs, so a server that fails to
  listen leaves the store unclosed and its traces unflushed.\<close>

lemma failure_skips_deferred:
  "config_ok w \<Longrightarrow> tracing_ok w \<Longrightarrow> store_ok w \<Longrightarrow> serving w = Listen_failed e \<Longrightarrow>
   Open_store \<in> set (run_main w) \<and> Close_store \<notin> set (run_main w) \<and> Flush_traces \<notin> set (run_main w)"
  by (simp add: run_main_def run_server_def)

definition exit_code :: "action list \<Rightarrow> int option" where
  "exit_code as = (case last as of Exit c \<Rightarrow> Some c | _ \<Rightarrow> None)"

text \<open>The process exits once, with 0 only when configuration, tracing, store and server were in order.\<close>

lemma one_exit:
  "exit_code (run_main w) =
     Some (if config_ok w \<and> tracing_ok w \<and> store_ok w \<and> snd (run_server (serving w)) = None then 0 else 1)"
  by (cases "serving w") (auto simp: run_main_def run_server_def exit_code_def deferred_flush_def)

text \<open>Shutdown is ordered: on a signal the server drains, then the store is closed, then traces are flushed.\<close>

lemma shutdown_ordered:
  assumes "config_ok w" "tracing_ok w" "store_ok w" "serving w = Signalled d"
  shows "filter (\<lambda>a. a \<in> {Drain, Close_store, Flush_traces}) (run_main w) = [Drain, Close_store, Flush_traces]"
  using assms by (simp add: run_main_def run_server_def deferred_flush_def)

end
