(* ===== verification/Kafka_Consumer.thy ===== *)
theory Kafka_Consumer
  imports Kafka Text "HOL-Library.While_Combinator"
begin

text \<open>
  The rest of \<^verbatim>\<open>18-kafka-with-go/examples\<close>: the poll, process and commit loop of \<^verbatim>\<open>consumer.go\<close>,
  \<^verbatim>\<open>producer.go\<close> and the wiring of \<^verbatim>\<open>main.go\<close>.  The franz-go client, the context, the clock and the
  handler are fields of \<open>env\<close>, functions on a state \<open>'w\<close> of the surroundings; every call whose order
  matters also leaves an event in a trace.
\<close>

subsection \<open>Records and messages\<close>

record krecord =
  rec_key :: string
  rec_value :: string
  rec_headers :: "(string \<times> string) list"

text \<open>What a poll returns: whether the client is closed, the fetch errors, the records of each partition.\<close>

record fetches =
  client_closed :: bool
  fetch_errors :: "string list"
  partitions :: "krecord list list"

definition adapt :: "krecord \<Rightarrow> kmessage" where
  "adapt r = \<lparr>key = rec_key r, body = rec_value r,
     headers = foldl (\<lambda>m (k, v). m(k \<mapsto> v)) Map.empty (rec_headers r)\<rparr>"

definition records_of :: "fetches \<Rightarrow> krecord list" where
  "records_of f = foldl (@) [] (partitions f)"

record out_record =
  out_topic :: string
  out_record :: krecord

datatype kevent =
    Fetch_error string
  | Handled kmessage "kerr option"
  | Cut_short
  | Dead_letter kmessage out_record
  | Commit "krecord list"
  | Commit_marked

subsection \<open>The consumer and its surroundings\<close>

text \<open>\<open>err_string\<close> is \<^verbatim>\<open>Error\<close>; \<open>header_order\<close> the order in which \<^verbatim>\<open>range\<close> visits the header map.\<close>

record 'w kafka_env =
  poll_records :: "int64 \<Rightarrow> 'w \<Rightarrow> fetches \<times> 'w"
  context_err :: "'w \<Rightarrow> kerr option \<times> 'w"
  handler :: "kmessage \<Rightarrow> 'w \<Rightarrow> kerr option \<times> 'w"
  cancelled_in :: "int \<Rightarrow> 'w \<Rightarrow> bool \<times> 'w"
  rfc3339_now :: "'w \<Rightarrow> string \<times> 'w"
  header_order :: "(string \<rightharpoonup> string) \<Rightarrow> 'w \<Rightarrow> (string \<times> string) list \<times> 'w"
  err_string :: "kerr \<Rightarrow> string"
  produce :: "out_record \<Rightarrow> 'w \<Rightarrow> 'w"
  commit_records :: "krecord list \<Rightarrow> 'w \<Rightarrow> 'w"
  commit_marked_offsets :: "'w \<Rightarrow> 'w"

record consumer_config =
  max_attempts :: nat
  dlq_topic :: string

record client_opts =
  seed_brokers :: "string list"
  group_id :: string
  topics :: "string list"
  fetch_max_bytes :: nat
  auto_commit :: bool
  block_rebalance :: bool

text \<open>\<open>new_client\<close> is the library's constructor; its error panics: \<open>None\<close>.\<close>

definition new_consumer ::
  "(client_opts \<Rightarrow> string + 'c) \<Rightarrow> string list \<Rightarrow> string \<Rightarrow> string \<Rightarrow> ('c \<times> consumer_config) option" where
  "new_consumer new_client brokers grp topic =
     (case new_client \<lparr>seed_brokers = brokers, group_id = grp, topics = [topic],
                       fetch_max_bytes = 16 * 2 ^ 20, auto_commit = False, block_rebalance = True\<rparr> of
        Inl e \<Rightarrow> None
      | Inr c \<Rightarrow> Some (c, \<lparr>max_attempts = 3, dlq_topic = topic @ ''.DLQ''\<rparr>))"

definition to_dead_letter ::
  "'w kafka_env \<Rightarrow> consumer_config \<Rightarrow> kmessage \<Rightarrow> kerr \<Rightarrow> 'w \<times> kevent list \<Rightarrow> 'w \<times> kevent list" where
  "to_dead_letter env c m cause st =
     (let (at, w1) = rfc3339_now env (fst st);
          (hs, w2) = header_order env (headers m) w1;
          r = \<lparr>out_topic = dlq_topic c,
               out_record = \<lparr>rec_key = key m, rec_value = body m,
                             rec_headers = dlq_headers at hs (err_string env cause)\<rparr>\<rparr>
      in (produce env r w2, snd st @ [Dead_letter m r]))"

text \<open>The calls of \<^verbatim>\<open>processPartition\<close> on the handler and on the timer, traced.\<close>

definition call_handler :: "'w kafka_env \<Rightarrow> kmessage \<Rightarrow> 'w \<times> kevent list \<Rightarrow> kerr option \<times> ('w \<times> kevent list)" where
  "call_handler env m st = (let (r, w1) = handler env m (fst st) in (r, (w1, snd st @ [Handled m r])))"

definition pause :: "'w kafka_env \<Rightarrow> int \<Rightarrow> 'w \<times> kevent list \<Rightarrow> bool \<times> ('w \<times> kevent list)" where
  "pause env d st =
     (let (c, w1) = cancelled_in env d (fst st) in (c, (w1, snd st @ (if c then [Cut_short] else []))))"

definition run_partition ::
  "'w kafka_env \<Rightarrow> consumer_config \<Rightarrow> krecord list \<Rightarrow> 'w \<times> kevent list \<Rightarrow> 'w \<times> kevent list" where
  "run_partition env c rs st =
     process_partition (call_handler env) (pause env) (to_dead_letter env c) (max_attempts c) (map adapt rs) st"

subsection \<open>The loop\<close>

text \<open>What follows a poll that neither found the client closed nor the context done.\<close>

definition round_of ::
  "'w kafka_env \<Rightarrow> consumer_config \<Rightarrow> fetches \<Rightarrow> 'w \<times> kevent list \<Rightarrow> 'w \<times> kevent list" where
  "round_of env c f st =
     (let st1 = (fst st, snd st @ map Fetch_error (fetch_errors f));
          st2 = foldl (\<lambda>s rs. run_partition env c rs s) st1 (partitions f)
      in (commit_records env (records_of f) (fst st2), snd st2 @ [Commit (records_of f)]))"

definition drain_and_commit :: "'w kafka_env \<Rightarrow> 'w \<times> kevent list \<Rightarrow> 'w \<times> kevent list" where
  "drain_and_commit env st = (commit_marked_offsets env (fst st), snd st @ [Commit_marked])"

text \<open>One turn of the loop: \<open>Inl\<close> has returned \<^verbatim>\<open>ctx.Err()\<close>, \<open>Inr\<close> goes on.\<close>

definition turn ::
  "'w kafka_env \<Rightarrow> consumer_config \<Rightarrow> 'w \<times> kevent list \<Rightarrow>
   (kerr option \<times> 'w \<times> kevent list) + ('w \<times> kevent list)" where
  "turn env c st =
     (let (f, w1) = poll_records env 64 (fst st);
          (ended, w2) = (if client_closed f then (True, w1)
                         else let (e, w) = context_err env w1 in (e \<noteq> None, w))
      in if ended
         then let st1 = drain_and_commit env (w2, snd st);
                  (e, w3) = context_err env (fst st1)
              in Inl (e, w3, snd st1)
         else Inr (round_of env c f (w2, snd st)))"

text \<open>The loop may run forever: then it is \<open>None\<close>.\<close>

definition run_consumer ::
  "'w kafka_env \<Rightarrow> consumer_config \<Rightarrow> 'w \<times> kevent list \<Rightarrow> (kerr option \<times> 'w \<times> kevent list) option" where
  "run_consumer env c st = map_option projl (while_option (\<lambda>x. \<not> isl x) (\<lambda>x. turn env c (projr x)) (Inr st))"

subsection \<open>Producer and main\<close>

record producer_opts =
  producer_brokers :: "string list"
  all_isr_acks :: bool
  zstd :: bool
  batch_max_bytes :: nat
  max_buffered :: nat
  delivery_timeout :: duration

definition new_producer :: "(producer_opts \<Rightarrow> string + 'c) \<Rightarrow> string list \<Rightarrow> 'c option" where
  "new_producer new_client brokers =
     (case new_client \<lparr>producer_brokers = brokers, all_isr_acks = True, zstd = True, batch_max_bytes = 2 ^ 20,
                       max_buffered = 10000, delivery_timeout = 15 * 1000000000\<rparr> of
        Inl e \<Rightarrow> None
      | Inr c \<Rightarrow> Some c)"

datatype select_case = Delivered "kerr option" | Context_done kerr

definition produce_with_result ::
  "(out_record \<Rightarrow> 'w \<Rightarrow> 'w) \<Rightarrow> ('w \<Rightarrow> select_case \<times> 'w) \<Rightarrow> string \<Rightarrow> string \<Rightarrow> string \<Rightarrow> 'w \<Rightarrow> kerr option \<times> 'w" where
  "produce_with_result send select topic k v w =
     (case select (send \<lparr>out_topic = topic, out_record = \<lparr>rec_key = k, rec_value = v, rec_headers = []\<rparr>\<rparr> w) of
        (Delivered e, w1) \<Rightarrow> (e, w1)
      | (Context_done e, w1) \<Rightarrow> (Some e, w1))"

definition env_brokers :: "(string \<Rightarrow> string) \<Rightarrow> string list" where
  "env_brokers getenv =
     (let b = getenv ''KAFKA_BROKERS'' in split_on (CHR '','') (if b = [] then ''localhost:9092'' else b))"

text \<open>\<^verbatim>\<open>LoggingApplier\<close> logs the order and never fails.\<close>

definition logging_apply :: "order_payload \<Rightarrow> order_payload list \<Rightarrow> kerr option \<times> order_payload list" where
  "logging_apply ord log = (None, log @ [ord])"

datatype process_end = Exit_1 | Stopped

text \<open>The end of \<^verbatim>\<open>main\<close> once \<^verbatim>\<open>Run\<close> has returned \<open>r\<close>; \<^verbatim>\<open>os.Exit\<close> skips the deferred closes.\<close>

definition after_run :: "'w kafka_env \<Rightarrow> kerr option \<times> 'w \<Rightarrow> process_end" where
  "after_run env r =
     (if fst r \<noteq> None \<and> fst (context_err env (snd r)) = None then Exit_1 else Stopped)"

subsection \<open>Traces\<close>

fun settled_by :: "kevent \<Rightarrow> kmessage list" where
  "settled_by (Handled m None) = [m]"
| "settled_by (Dead_letter m r) = [m]"
| "settled_by _ = []"

abbreviation settled :: "kevent list \<Rightarrow> kmessage list" where
  "settled es \<equiv> concat (map settled_by es)"

fun is_commit :: "kevent \<Rightarrow> bool" where
  "is_commit (Commit rs) = True"
| "is_commit _ = False"

text \<open>The events since the last commit.\<close>

definition since_commit :: "kevent list \<Rightarrow> kevent list" where
  "since_commit es = rev (takeWhile (\<lambda>e. \<not> is_commit e) (rev es))"

fun turns :: "'w kafka_env \<Rightarrow> consumer_config \<Rightarrow> nat \<Rightarrow> 'w \<times> kevent list \<Rightarrow>
    (kerr option \<times> 'w \<times> kevent list) + ('w \<times> kevent list)" where
  "turns env c 0 st = Inr st"
| "turns env c (Suc n) st = (case turns env c n st of Inl r \<Rightarrow> Inl r | Inr st1 \<Rightarrow> turn env c st1)"

fun trace_of :: "(kerr option \<times> 'w \<times> kevent list) + ('w \<times> kevent list) \<Rightarrow> kevent list" where
  "trace_of (Inl (e, w, es)) = es"
| "trace_of (Inr (w, es)) = es"

text \<open>Whether a turn that starts in \<open>w\<close> ends the loop.\<close>

definition ends :: "'w kafka_env \<Rightarrow> 'w \<Rightarrow> bool" where
  "ends env w \<longleftrightarrow> client_closed (fst (poll_records env 64 w)) \<or> fst (context_err env (snd (poll_records env 64 w))) \<noteq> None"

definition commits_ok :: "kevent list \<Rightarrow> bool" where
  "commits_ok es \<longleftrightarrow> (\<forall>pre rs post. es = pre @ Commit rs # post \<and> Cut_short \<notin> set (since_commit pre) \<longrightarrow>
     settled (since_commit pre) = map adapt rs)"

lemma since_commit_simps [simp]:
  "since_commit [] = []"
  "since_commit (es @ [Commit rs]) = []"
  "since_commit (es @ b @ [Commit rs]) = []"
  "list_all (\<lambda>e. \<not> is_commit e) b \<Longrightarrow> since_commit (es @ b) = since_commit es @ b"
  by (simp_all add: since_commit_def list_all_iff takeWhile_append)

lemma commits_ok_Nil [simp]: "commits_ok []"
  by (simp add: commits_ok_def)

lemma commits_ok_snoc:
  "commits_ok (es @ [e]) \<longleftrightarrow> commits_ok es \<and>
     (\<forall>rs. e = Commit rs \<and> Cut_short \<notin> set (since_commit es) \<longrightarrow> settled (since_commit es) = map adapt rs)"
  (is "?l \<longleftrightarrow> ?r")
proof
  assume l: ?l
  have "settled (since_commit pre) = map adapt rs"
    if "es = pre @ Commit rs # post" "Cut_short \<notin> set (since_commit pre)" for pre rs post
    using l that unfolding commits_ok_def by (metis append_Cons append_assoc)
  moreover have "settled (since_commit es) = map adapt rs"
    if "e = Commit rs" "Cut_short \<notin> set (since_commit es)" for rs
    using l that unfolding commits_ok_def by blast
  ultimately show ?r unfolding commits_ok_def by blast
next
  assume r: ?r
  have "settled (since_commit pre) = map adapt rs"
    if "es @ [e] = pre @ Commit rs # post" "Cut_short \<notin> set (since_commit pre)" for pre rs post
  proof (cases post rule: rev_exhaust)
    case Nil
    then show ?thesis using r that by simp
  next
    case (snoc post' x)
    then have "es = pre @ Commit rs # post'" using that(1) by simp
    then show ?thesis using r that(2) unfolding commits_ok_def by blast
  qed
  then show ?l unfolding commits_ok_def by blast
qed

lemma commits_ok_append:
  "list_all (\<lambda>e. \<not> is_commit e) b \<Longrightarrow> commits_ok es \<Longrightarrow> commits_ok (es @ b)"
proof (induction b rule: rev_induct)
  case (snoc e b)
  then have "commits_ok ((es @ b) @ [e])" by (subst commits_ok_snoc) auto
  then show ?case by simp
qed simp

subsection \<open>What a record, a partition and a batch leave in the trace\<close>

abbreviation quiet :: "kevent list \<Rightarrow> bool" where
  "quiet \<equiv> list_all (\<lambda>e. \<not> is_commit e)"

lemma traced_calls:
  "call_handler env m (w, es) = (case handler env m w of (r, w1) \<Rightarrow> (r, (w1, es @ [Handled m r])))"
  "pause env d (w, es) = (case cancelled_in env d w of (c, w1) \<Rightarrow> (c, (w1, es @ (if c then [Cut_short] else []))))"
  by (simp_all add: call_handler_def pause_def)

lemma attempt_trace:
  assumes "attempt_record (call_handler env) (pause env) m k a l (w, es) = (r, (w1, es1))" "k \<noteq> 0 \<or> l \<noteq> None"
  shows "\<exists>b. es1 = es @ b \<and> quiet b \<and> (r = Abandoned \<longleftrightarrow> Cut_short \<in> set b) \<and>
    settled b = (if r = Settled None then [m] else [])"
  using assms
proof (induction k arbitrary: a l w es)
  case 0
  then show ?case by auto
next
  case (Suc k)
  obtain x w2 where h: "handler env m w = (x, w2)" by fastforce
  show ?case
  proof (cases "\<exists>e. x = Some e \<and> \<not> as_terminal e")
    case False
    then show ?thesis using Suc.prems(1) h by (cases x) (auto simp: traced_calls)
  next
    case True
    then obtain e where e: "x = Some e" "\<not> as_terminal e" by blast
    obtain c w3 where wt: "cancelled_in env (backoff_ns a) w2 = (c, w3)" by fastforce
    show ?thesis
    proof (cases c)
      case True
      then show ?thesis using Suc.prems(1) h e wt by (auto simp: traced_calls)
    next
      case False
      then have "attempt_record (call_handler env) (pause env) m k (Suc a) (Some e) (w3, es @ [Handled m x]) = (r, (w1, es1))"
        using Suc.prems(1) h e wt by (simp add: traced_calls)
      from Suc.IH [OF this] obtain b where
        b: "es1 = (es @ [Handled m x]) @ b" "quiet b" "(r = Abandoned) = (Cut_short \<in> set b)"
          "settled b = (if r = Settled None then [m] else [])" by blast
      then have "quiet (Handled m x # b)" "(r = Abandoned) = (Cut_short \<in> set (Handled m x # b))"
        "settled (Handled m x # b) = (if r = Settled None then [m] else [])" using e by simp_all
      then show ?thesis using b(1) by (intro exI [of _ "Handled m x # b"]) simp
    qed
  qed
qed

lemma dead_letter_trace:
  "\<exists>w1 r. to_dead_letter env c m e (w, es) = (w1, es @ [Dead_letter m r])"
  by (simp add: to_dead_letter_def Let_def split: prod.split)

lemma partition_trace:
  assumes "0 < n" "process_partition (call_handler env) (pause env) (to_dead_letter env c) n ms (w, es) = (w1, es1)"
  shows "\<exists>b. es1 = es @ b \<and> quiet b \<and> prefix (settled b) ms \<and> (Cut_short \<notin> set b \<longrightarrow> settled b = ms)"
  using assms(2)
proof (induction ms arbitrary: w es)
  case Nil
  then show ?case by auto
next
  case (Cons m ms)
  obtain r w2 es2 where at: "attempt_record (call_handler env) (pause env) m n 0 None (w, es) = (r, (w2, es2))"
    by (metis prod.exhaust)
  from attempt_trace [OF this] assms(1) obtain b where b: "es2 = es @ b" "quiet b"
    "(r = Abandoned) = (Cut_short \<in> set b)" "settled b = (if r = Settled None then [m] else [])" by auto
  consider "r = Abandoned" | "r = Settled None" | e where "r = Settled (Some e)"
    by (cases r) (metis option.exhaust)+
  then show ?case
  proof cases
    case 1
    then have "settled b = []" using b(4) by simp
    then have "prefix (settled b) (m # ms)" by (simp only: Nil_prefix)
    moreover have "es1 = es @ b" using Cons.prems at b(1) 1 by simp
    moreover have "Cut_short \<in> set b" using b(3) 1 by simp
    ultimately show ?thesis using b(2) by blast
  next
    case 2
    then have "process_partition (call_handler env) (pause env) (to_dead_letter env c) n ms (w2, es2) = (w1, es1)"
      using Cons.prems at by simp
    from Cons.IH [OF this] obtain d where "es1 = es2 @ d" "quiet d" "prefix (settled d) ms"
      "Cut_short \<notin> set d \<longrightarrow> settled d = ms" by blast
    then show ?thesis using b 2 by (intro exI [of _ "b @ d"]) auto
  next
    case 3
    obtain w3 x where dl: "to_dead_letter env c m e (w2, es2) = (w3, es2 @ [Dead_letter m x])"
      using dead_letter_trace [of env c m e w2 es2] by blast
    then have "process_partition (call_handler env) (pause env) (to_dead_letter env c) n ms (w3, es2 @ [Dead_letter m x]) = (w1, es1)"
      using Cons.prems at 3 by simp
    from Cons.IH [OF this] obtain d where "es1 = (es2 @ [Dead_letter m x]) @ d" "quiet d" "prefix (settled d) ms"
      "Cut_short \<notin> set d \<longrightarrow> settled d = ms" by blast
    moreover have "settled b = []" using b(4) 3 by simp
    then have "settled (b @ Dead_letter m x # d) = m # settled d" by (simp add: \<open>settled b = []\<close>)
    ultimately show ?thesis using b(1,2)
      by (intro exI [of _ "b @ Dead_letter m x # d"]) (simp del: map_append concat_append; blast?)
  qed
qed

lemma records_of_concat: "records_of f = concat (partitions f)"
proof -
  have "foldl (@) rs ps = rs @ concat ps" for rs :: "krecord list" and ps by (induction ps arbitrary: rs) simp_all
  then show ?thesis by (simp add: records_of_def)
qed

lemma round_trace:
  assumes "0 < max_attempts c" "round_of env c f (w, es) = (w1, es1)"
  shows "\<exists>b. es1 = es @ b @ [Commit (records_of f)] \<and> quiet b \<and>
    (Cut_short \<notin> set b \<longrightarrow> settled b = map adapt (records_of f))"
proof -
  let ?run = "\<lambda>s rs. run_partition env c rs s"
  have fold: "\<exists>b. snd (foldl ?run st ps) = snd st @ b \<and> quiet b \<and>
      (Cut_short \<notin> set b \<longrightarrow> settled b = map adapt (concat ps))" for st ps
  proof (induction ps arbitrary: st)
    case Nil
    then show ?case by auto
  next
    case (Cons p ps)
    obtain w2 es2 where p: "run_partition env c p (fst st, snd st) = (w2, es2)" by fastforce
    from partition_trace [OF assms(1) this [unfolded run_partition_def]] obtain b where
      "es2 = snd st @ b" "quiet b" "Cut_short \<notin> set b \<longrightarrow> settled b = map adapt p" by blast
    moreover obtain d where "snd (foldl ?run (w2, es2) ps) = es2 @ d" "quiet d"
      "Cut_short \<notin> set d \<longrightarrow> settled d = map adapt (concat ps)" using Cons.IH [of "(w2, es2)"] by auto
    ultimately show ?case using p by (intro exI [of _ "b @ d"]) auto
  qed
  let ?errs = "map Fetch_error (fetch_errors f)"
  obtain b where b: "snd (foldl ?run (w, es @ ?errs) (partitions f)) = (es @ ?errs) @ b" "quiet b"
    "Cut_short \<notin> set b \<longrightarrow> settled b = map adapt (records_of f)"
    using fold [of "(w, es @ ?errs)" "partitions f"] by (auto simp: records_of_concat)
  have errs: "quiet ?errs" "settled ?errs = []" "Cut_short \<notin> set ?errs" by (auto simp: list_all_iff)
  have "es1 = es @ (?errs @ b) @ [Commit (records_of f)]"
    using assms(2) b(1) by (auto simp: round_of_def Let_def)
  moreover have "quiet (?errs @ b)" "Cut_short \<notin> set (?errs @ b) \<longrightarrow> settled (?errs @ b) = map adapt (records_of f)"
    using b errs by (simp_all del: map_map)
  ultimately show ?thesis by blast
qed

subsection \<open>The loop\<close>

lemma turn_cases:
  "turn env c (w, es) =
     (let (f, w1) = poll_records env 64 w;
          w2 = (if client_closed f then w1 else snd (context_err env w1))
      in if ends env w
         then let r = context_err env (commit_marked_offsets env w2) in Inl (fst r, snd r, es @ [Commit_marked])
         else Inr (round_of env c f (w2, es)))"
  by (simp add: turn_def ends_def drain_and_commit_def Let_def split: prod.split)

lemma turn_ends: "isl (turn env c (w, es)) \<longleftrightarrow> ends env w"
  by (simp add: turn_cases Let_def split: prod.split)

lemma turns_trace:
  assumes "0 < max_attempts c"
  shows "commits_ok (trace_of (turns env c n (w, []))) \<and>
    (\<forall>s. turns env c n (w, []) = Inr s \<longrightarrow> since_commit (snd s) = [])"
proof (induction n)
  case 0
  then show ?case by simp
next
  case (Suc n)
  show ?case
  proof (cases "turns env c n (w, [])")
    case (Inl r)
    then show ?thesis using Suc by simp
  next
    case (Inr s)
    obtain w1 es where s: "s = (w1, es)" by fastforce
    then have ok: "commits_ok es" "since_commit es = []" using Suc Inr by auto
    obtain f w2 where f: "poll_records env 64 w1 = (f, w2)" by fastforce
    show ?thesis
    proof (cases "ends env w1")
      case True
      then have "\<exists>e w3. turns env c (Suc n) (w, []) = Inl (e, w3, es @ [Commit_marked])"
        using Inr s f by (simp add: turn_cases Let_def)
      then show ?thesis using commits_ok_append [OF _ ok(1), of "[Commit_marked]"] by auto
    next
      case False
      then obtain w3 where t: "turns env c (Suc n) (w, []) = Inr (round_of env c f (w3, es))"
        using Inr s f by (simp add: turn_cases Let_def)
      obtain w4 es' where r: "round_of env c f (w3, es) = (w4, es')" by fastforce
      from round_trace [OF assms this] obtain b where b: "es' = (es @ b) @ [Commit (records_of f)]" "quiet b"
        "Cut_short \<notin> set b \<longrightarrow> settled b = map adapt (records_of f)" by auto
      then have "since_commit (es @ b) = b" "commits_ok (es @ b)"
        using ok commits_ok_append [OF b(2) ok(1)] by simp_all
      then have "commits_ok es'" unfolding b(1) by (subst commits_ok_snoc) (use b(3) in auto)
      then show ?thesis using t r b(1) by simp
    qed
  qed
qed

lemma turns_shift: "turns env c (Suc n) st = (case turn env c st of Inl r \<Rightarrow> Inl r | Inr st1 \<Rightarrow> turns env c n st1)"
proof (induction n)
  case 0
  then show ?case by (simp split: sum.split)
next
  case (Suc n)
  have "turns env c (Suc (Suc n)) st =
      (case turns env c (Suc n) st of Inl r \<Rightarrow> Inl r | Inr s \<Rightarrow> turn env c s)" by (rule turns.simps(2))
  then show ?case using Suc by (simp split: sum.split)
qed

lemma run_consumer_unfold:
  "run_consumer env c st = (case turn env c st of Inl r \<Rightarrow> Some r | Inr st1 \<Rightarrow> run_consumer env c st1)"
proof (cases "turn env c st")
  case (Inl r)
  then show ?thesis
    unfolding run_consumer_def
    by (subst while_option_unfold [of _ _ "Inr st"], subst while_option_unfold) simp
next
  case (Inr st1)
  then show ?thesis
    unfolding run_consumer_def by (subst while_option_unfold [of _ _ "Inr st"]) simp
qed

lemma run_consumer_turns:
  "(case run_consumer env c st of Some r \<Rightarrow> \<exists>n. turns env c n st = Inl r | None \<Rightarrow> \<forall>n. \<exists>s. turns env c n st = Inr s)"
proof (cases "\<exists>n r. turns env c n st = Inl r")
  case True
  then obtain n r where "turns env c n st = Inl r" by blast
  moreover from this have "run_consumer env c st = Some r"
  proof (induction n arbitrary: st)
    case (Suc n)
    show ?case
    proof (cases "turn env c st")
      case (Inl r')
      then show ?thesis using Suc.prems by (subst run_consumer_unfold) (simp add: turns_shift del: turns.simps(2))
    next
      case (Inr st1)
      then have "turns env c n st1 = Inl r" using Suc.prems by (simp add: turns_shift del: turns.simps(2))
      from Suc.IH [OF this] Inr show ?thesis by (subst run_consumer_unfold) simp
    qed
  qed simp
  ultimately show ?thesis by auto
next
  case False
  have "run_consumer env c st = None"
  proof (rule ccontr)
    assume "run_consumer env c st \<noteq> None"
    then obtain x where x: "while_option (\<lambda>x. \<not> isl x) (\<lambda>x. turn env c (projr x)) (Inr st) = Some x" "isl x"
      unfolding run_consumer_def using while_option_stop by fastforce
    have "\<exists>n. turns env c n st = x"
    proof (rule while_option_rule [OF _ x(1)])
      fix y
      assume "\<exists>n. turns env c n st = y" "\<not> isl y"
      then obtain n s where "turns env c n st = Inr s" "y = Inr s" by (cases y) auto
      then show "\<exists>n. turns env c n st = turn env c (projr y)" by (intro exI [of _ "Suc n"]) simp
    qed (intro exI [of _ 0], simp)
    then show False using False x(2) by (cases x) auto
  qed
  moreover have "\<exists>s. turns env c n st = Inr s" for n using False by (cases "turns env c n st") auto
  ultimately show ?thesis by simp
qed

lemma turns_last: "turns env c n st = Inl r \<Longrightarrow> \<exists>m s. turns env c m st = Inr s \<and> turn env c s = Inl r"
  by (induction n) (auto split: sum.splits)

lemma turn_returns:
  assumes "turn env c s = Inl (e, w', tr)"
  shows "ends env (fst s) \<and> tr = snd s @ [Commit_marked] \<and> (\<exists>w. context_err env w = (e, w'))"
  using assms by (cases s) (auto simp: turn_cases Let_def split: prod.splits if_splits)

text \<open>What the handler keeps, and every other call and event, every run keeps.\<close>

definition outside :: "'w kafka_env \<Rightarrow> 'w \<Rightarrow> 'w \<Rightarrow> bool" where
  "outside env w w' \<longleftrightarrow> (\<exists>n. w' = snd (poll_records env n w)) \<or> w' = snd (context_err env w) \<or>
     (\<exists>d. w' = snd (cancelled_in env d w)) \<or> w' = snd (rfc3339_now env w) \<or> (\<exists>h. w' = snd (header_order env h w)) \<or>
     (\<exists>r. w' = produce env r w) \<or> (\<exists>rs. w' = commit_records env rs w) \<or> w' = commit_marked_offsets env w"

text \<open>A property of surroundings and trace that calls of the handler, other events and the steps of the
  surroundings keep is kept by the parts of the loop.\<close>

definition kept_by :: "'w kafka_env \<Rightarrow> ('w \<times> kevent list \<Rightarrow> bool) \<Rightarrow> bool" where
  "kept_by env P \<longleftrightarrow>
     (\<forall>w es m r w1. P (w, es) \<and> handler env m w = (r, w1) \<longrightarrow> P (w1, es @ [Handled m r])) \<and>
     (\<forall>w es e. P (w, es) \<and> (\<forall>m r. e \<noteq> Handled m r) \<longrightarrow> P (w, es @ [e])) \<and>
     (\<forall>w es w'. P (w, es) \<and> outside env w w' \<longrightarrow> P (w', es))"

lemma kept_handler: "kept_by env P \<Longrightarrow> P s \<Longrightarrow> P (snd (call_handler env m s))"
  unfolding kept_by_def by (cases s) (auto simp: traced_calls split: prod.split)

lemma kept_event: "kept_by env P \<Longrightarrow> P (w, es) \<Longrightarrow> \<forall>m r. e \<noteq> Handled m r \<Longrightarrow> P (w, es @ [e])"
  unfolding kept_by_def by blast

lemma kept_frame: "kept_by env P \<Longrightarrow> P (w, es) \<Longrightarrow> outside env w w' \<Longrightarrow> P (w', es)"
  unfolding kept_by_def by blast

lemma kept_pause:
  assumes "kept_by env P" "P s"
  shows "P (snd (pause env d s))"
proof -
  obtain w es where "s = (w, es)" by fastforce
  moreover obtain x w1 where "cancelled_in env d w = (x, w1)" by fastforce
  moreover from this have "outside env w w1" by (auto simp: outside_def intro: exI [of _ d])
  ultimately show ?thesis
    using assms(2) kept_frame [OF assms(1), of w es w1] kept_event [OF assms(1), of w1 es Cut_short] by (auto simp: traced_calls)
qed

lemma kept_dead_letter:
  assumes k: "kept_by env P" and s: "P s"
  shows "P (to_dead_letter env c m e s)"
proof -
  note frame = kept_frame [OF k]
  obtain w es where se: "s = (w, es)" by fastforce
  obtain x w1 where w1: "rfc3339_now env w = (x, w1)" by fastforce
  obtain y w2 where w2: "header_order env (headers m) w1 = (y, w2)" by fastforce
  define r where "r = \<lparr>out_topic = dlq_topic c, out_record = \<lparr>rec_key = key m, rec_value = body m,
      rec_headers = dlq_headers x y (err_string env e)\<rparr>\<rparr>"
  have "P (w1, es)" using frame [of w es w1] s se w1 by (auto simp: outside_def)
  then have "P (w2, es)" using frame [of w1 es w2] w2 unfolding outside_def by (metis snd_conv)
  then have "P (produce env r w2, es)" by (rule frame) (auto simp: outside_def)
  then have "P (produce env r w2, es @ [Dead_letter m r])" by (rule kept_event [OF k]) simp
  then show ?thesis using w1 w2 se by (simp add: to_dead_letter_def Let_def r_def)
qed

lemma kept_partition: "kept_by env P \<Longrightarrow> P s \<Longrightarrow> P (run_partition env c rs s)"
  unfolding run_partition_def by (rule process_partition_keeps) (auto intro: kept_handler kept_pause kept_dead_letter)

lemma kept_round:
  assumes k: "kept_by env P" and s: "P s"
  shows "P (round_of env c f s)"
proof -
  obtain w es where se: "s = (w, es)" by fastforce
  have "P (w, es @ map Fetch_error xs)" for xs
  proof (induction xs rule: rev_induct)
    case (snoc x xs)
    then show ?case using kept_event [OF k, of w "es @ map Fetch_error xs" "Fetch_error x"] by simp
  qed (use s se in simp)
  then have fold: "P (foldl (\<lambda>s rs. run_partition env c rs s) (w, es @ map Fetch_error (fetch_errors f)) ps)" for ps
    by (induction ps rule: rev_induct) (auto intro: kept_partition [OF k])
  obtain w1 es1 where r: "foldl (\<lambda>s rs. run_partition env c rs s) (w, es @ map Fetch_error (fetch_errors f)) (partitions f) = (w1, es1)"
    by fastforce
  then have "P (w1, es1)" using fold [of "partitions f"] by simp
  then have "P (commit_records env (records_of f) w1, es1)" by (rule kept_frame [OF k]) (auto simp: outside_def)
  then have "P (commit_records env (records_of f) w1, es1 @ [Commit (records_of f)])" by (rule kept_event [OF k]) simp
  then show ?thesis using r se by (simp add: round_of_def Let_def)
qed

lemma kept_turn:
  assumes k: "kept_by env P" and s: "P (w, es)"
  shows "case turn env c (w, es) of Inl (e, w', es') \<Rightarrow> P (w', es') | Inr s' \<Rightarrow> P s'"
proof -
  note frame = kept_frame [OF k]
  obtain f w1 where f: "poll_records env 64 w = (f, w1)" by fastforce
  have "P (w1, es)" using frame [OF s, of w1] f unfolding outside_def by (metis snd_conv)
  then have w2: "P (if client_closed f then w1 else snd (context_err env w1), es)" (is "P (?w2, es)")
    using frame [of w1 es] by (auto simp: outside_def)
  show ?thesis
  proof (cases "ends env w")
    case False
    then show ?thesis using f kept_round [OF k w2] by (simp add: turn_cases Let_def)
  next
    case True
    let ?w3 = "commit_marked_offsets env ?w2"
    have "P (?w3, es)" by (rule frame [OF w2]) (simp add: outside_def)
    then have "P (snd (context_err env ?w3), es)" by (rule frame) (simp add: outside_def)
    then have "P (snd (context_err env ?w3), es @ [Commit_marked])" by (rule kept_event [OF k]) simp
    then show ?thesis using f True by (simp add: turn_cases Let_def)
  qed
qed

lemma turns_keep:
  assumes "\<And>w es m r w1. P (w, es) \<Longrightarrow> handler env m w = (r, w1) \<Longrightarrow> P (w1, es @ [Handled m r])"
    and "\<And>w es e. P (w, es) \<Longrightarrow> \<forall>m r. e \<noteq> Handled m r \<Longrightarrow> P (w, es @ [e])"
    and "\<And>w es w'. P (w, es) \<Longrightarrow> outside env w w' \<Longrightarrow> P (w', es)"
    and start: "P st"
  shows "case turns env c n st of Inl (e, w, es) \<Rightarrow> P (w, es) | Inr s \<Rightarrow> P s"
proof (induction n)
  case (Suc n)
  have k: "kept_by env P" unfolding kept_by_def using assms(1-3) by blast
  show ?case
  proof (cases "turns env c n st")
    case (Inr s)
    then show ?thesis using Suc kept_turn [OF k, of "fst s" "snd s" c] by simp
  qed (use Suc in simp)
qed (use start in simp)

subsection \<open>Properties\<close>

text \<open>C12: at least once.  At every commit of every run, the messages handled successfully or produced to
  the dead-letter topic since the previous commit are exactly the records committed, in their order;
  the one exception is a batch in which the context ended while a retry was pausing.\<close>

theorem commit_after_settled:
  assumes "0 < max_attempts c" "trace_of (turns env c n (w, [])) = pre @ Commit rs # post"
    and "Cut_short \<notin> set (since_commit pre)"
  shows "settled (since_commit pre) = map adapt rs"
  using turns_trace [OF assms(1), of env n w] assms(2,3) unfolding commits_ok_def by blast

definition demo_record :: "string \<Rightarrow> krecord" where
  "demo_record k = \<lparr>rec_key = k, rec_value = ''v'', rec_headers = [(''h'', ''1''), (''h'', ''2'')]\<rparr>"

text \<open>One batch of two records, then a closed client; the handler's answer and the pause are given.\<close>

definition demo_env :: "kerr option \<Rightarrow> bool \<Rightarrow> nat kafka_env" where
  "demo_env answer cancel =
     \<lparr>poll_records = (\<lambda>_ n. (\<lparr>client_closed = (n > 0), fetch_errors = [], partitions = [[demo_record ''a'', demo_record ''b'']]\<rparr>, Suc n)),
      context_err = (\<lambda>n. (if cancel \<and> n > 1 then Some (Leaf ''context canceled'') else None, n)),
      handler = (\<lambda>m n. (answer, n)), cancelled_in = (\<lambda>_ n. (cancel, if cancel then n + 1 else n)),
      rfc3339_now = (\<lambda>n. (''t'', n)), header_order = (\<lambda>h n. ([(''h'', the (h ''h''))], n)), err_string = (\<lambda>_. ''down''),
      produce = (\<lambda>_ n. n), commit_records = (\<lambda>_ n. n), commit_marked_offsets = (\<lambda>n. n)\<rparr>"

definition demo_config :: consumer_config where
  "demo_config = \<lparr>max_attempts = 3, dlq_topic = ''orders.DLQ''\<rparr>"

lemmas demo_run_simps = turn_def round_of_def run_partition_def records_of_def traced_calls drain_and_commit_def
  demo_env_def demo_config_def Let_def

lemma demo_turn:
  "turn (demo_env None False) demo_config (0, []) =
     Inr (1, [Handled (adapt (demo_record ''a'')) None, Handled (adapt (demo_record ''b'')) None,
              Commit [demo_record ''a'', demo_record ''b'']])"
  by (simp add: demo_run_simps numeral_3_eq_3)

theorem commit_after_settled_witness:
  "settled (since_commit [Handled (adapt (demo_record ''a'')) None, Handled (adapt (demo_record ''b'')) None]) =
     map adapt [demo_record ''a'', demo_record ''b'']"
  by (rule commit_after_settled [of demo_config "demo_env None False" "Suc 0" 0 _ _ "[]"])
     (simp_all add: demo_turn since_commit_def, simp add: demo_config_def)

text \<open>The loop returns exactly when some poll finds the client closed or the context done; then a last
  commit of the marked offsets is its last action, and otherwise it polls for ever.\<close>

theorem consumer_returns:
  "(case run_consumer env c st of
      Some (e, w, tr) \<Rightarrow> \<exists>n s. turns env c n st = Inr s \<and> ends env (fst s) \<and> tr = snd s @ [Commit_marked]
    | None \<Rightarrow> \<not> (\<exists>n s. turns env c n st = Inr s \<and> ends env (fst s)))"
proof (cases "run_consumer env c st")
  case None
  have "\<not> ends env (fst s)" if "turns env c n st = Inr s" for n s
  proof
    assume "ends env (fst s)"
    then have "isl (turn env c s)" by (metis turn_ends prod.collapse)
    then have l: "isl (turns env c (Suc n) st)" using that by simp
    have "\<forall>n. \<exists>s. turns env c n st = Inr s" using run_consumer_turns [of env c st] None by simp
    then obtain s' where "turns env c (Suc n) st = Inr s'" by blast
    with l show False by (simp del: turns.simps)
  qed
  then show ?thesis using None by auto
next
  case (Some r)
  then obtain n where "turns env c n st = Inl r" using run_consumer_turns [of env c st] by auto
  then obtain m s where "turns env c m st = Inr s" "turn env c s = Inl r" using turns_last by blast
  moreover obtain e w tr where r: "r = (e, w, tr)" by (metis prod.exhaust)
  ultimately have "\<exists>n s. turns env c n st = Inr s \<and> ends env (fst s) \<and> tr = snd s @ [Commit_marked]"
    using turn_returns [of env c s e w tr] by blast
  then show ?thesis unfolding Some r by (simp only: option.case prod.case)
qed

text \<open>When a record's retries are cut short by the context, the batch is committed all the same, with
  the records that were never handled.\<close>

lemma cut_batch_committed:
  "turn (demo_env (Some (Leaf ''down'')) True) demo_config (0, []) =
     Inr (2, [Handled (adapt (demo_record ''a'')) (Some (Leaf ''down'')), Cut_short,
              Commit [demo_record ''a'', demo_record ''b'']])"
  by (simp add: demo_run_simps numeral_3_eq_3 numeral_2_eq_2)

text \<open>\<^verbatim>\<open>main\<close> never reports a failed consumer: \<^verbatim>\<open>Run\<close> returns only the context's own error, and that stays.\<close>

theorem main_never_fails:
  assumes "run_consumer env c st = Some (e, w, tr)"
    and "\<And>w e w1. context_err env w = (Some e, w1) \<Longrightarrow> fst (context_err env w1) \<noteq> None"
  shows "after_run env (e, w) = Stopped"
proof -
  obtain n where "turns env c n st = Inl (e, w, tr)" using run_consumer_turns [of env c st] assms(1) by auto
  then obtain s where "turn env c s = Inl (e, w, tr)" using turns_last by blast
  then obtain w0 where "context_err env w0 = (e, w)" using turn_returns [of env c s] by blast
  then show ?thesis using assms(2) [of w0] by (cases e) (auto simp: after_run_def)
qed

theorem main_never_fails_witness:
  "after_run (demo_env None False) (None, 2 :: nat) = Stopped"
proof -
  have "\<exists>tr. run_consumer (demo_env None False) demo_config (0, []) = Some (None, 2, tr)"
    by (subst run_consumer_unfold, simp add: demo_turn, subst run_consumer_unfold)
       (simp add: demo_run_simps numeral_2_eq_2)
  then show ?thesis using main_never_fails [of "demo_env None False" demo_config "(0, [])" None 2]
    by (auto simp: demo_env_def)
qed

end
