(* ===== verification/Kafka_Service.thy ===== *)
theory Kafka_Service
  imports Kafka_Consumer
begin

text \<open>
  The whole order processor of \<^verbatim>\<open>18-kafka-with-go/examples\<close>, as \<^verbatim>\<open>main\<close> wires it: the consumer of
  \<^verbatim>\<open>consumer.go\<close> with \<^verbatim>\<open>OrderService\<close> over \<^verbatim>\<open>MemoryClaims\<close> as its handler and an applier behind it.  The
  applier may fail in any way; what it has applied is recorded beside its state.  The theorems tie the
  commits of the consumer to the effects of the service.
\<close>

subsection \<open>The wiring\<close>

text \<open>An applier with a record of the orders it has applied.\<close>

definition recording ::
  "(order_payload \<Rightarrow> 'a \<Rightarrow> kerr option \<times> 'a) \<Rightarrow> order_payload \<Rightarrow> 'a \<times> order_payload list \<Rightarrow>
   kerr option \<times> ('a \<times> order_payload list)" where
  "recording f ord s =
     (case f ord (fst s) of
        (None, a) \<Rightarrow> (None, (a, snd s @ [ord]))
      | (Some e, a) \<Rightarrow> (Some e, (a, snd s)))"

definition order_processor ::
  "(order_payload \<Rightarrow> 'a \<Rightarrow> kerr option \<times> 'a) \<Rightarrow> (string \<Rightarrow> kerr + int64 \<times> string) \<Rightarrow> (string \<Rightarrow> kerr + order_payload) \<Rightarrow>
   (memory_claims, 'a \<times> order_payload list) order_service" where
  "order_processor f env_of order_of =
     \<lparr>claims = memory_claim_ops, apply_order = recording f, parse_envelope = env_of, parse_order = order_of\<rparr>"

text \<open>The consumer's surroundings with the service in them; everything else works on its own part.\<close>

type_synonym ('a, 'v) world = "(memory_claims \<times> 'a \<times> order_payload list) \<times> 'v"

definition wire ::
  "(memory_claims, 'a \<times> order_payload list) order_service \<Rightarrow> 'v kafka_env \<Rightarrow> ('a, 'v) world kafka_env" where
  "wire svc env =
     \<lparr>poll_records = (\<lambda>n w. map_prod id (Pair (fst w)) (poll_records env n (snd w))),
      context_err = (\<lambda>w. map_prod id (Pair (fst w)) (context_err env (snd w))),
      handler = (\<lambda>m w. map_prod id (\<lambda>s. (s, snd w)) (process svc m (fst w))),
      cancelled_in = (\<lambda>d w. map_prod id (Pair (fst w)) (cancelled_in env d (snd w))),
      rfc3339_now = (\<lambda>w. map_prod id (Pair (fst w)) (rfc3339_now env (snd w))),
      header_order = (\<lambda>h w. map_prod id (Pair (fst w)) (header_order env h (snd w))),
      err_string = err_string env,
      produce = (\<lambda>r w. (fst w, produce env r (snd w))),
      commit_records = (\<lambda>rs w. (fst w, commit_records env rs (snd w))),
      commit_marked_offsets = (\<lambda>w. (fst w, commit_marked_offsets env (snd w)))\<rparr>"

subsection \<open>What a message asks for\<close>

text \<open>The idempotency key and the order of a well-formed message.\<close>

definition order_in ::
  "(string \<Rightarrow> kerr + int64 \<times> string) \<Rightarrow> (string \<Rightarrow> kerr + order_payload) \<Rightarrow> kmessage \<Rightarrow> (string \<times> order_payload) option" where
  "order_in env_of order_of m =
     (case headers m ''idempotency_key'' of
        None \<Rightarrow> None
      | Some i \<Rightarrow>
          if i = [] then None
          else case env_of (body m) of
                 Inl e \<Rightarrow> None
               | Inr (v, payload) \<Rightarrow>
                   if v \<noteq> 1 then None
                   else (case order_of payload of Inl e \<Rightarrow> None | Inr ord \<Rightarrow> Some (i, ord)))"

fun done_by :: "(kmessage \<Rightarrow> (string \<times> order_payload) option) \<Rightarrow> kevent \<Rightarrow> (string \<times> order_payload) list" where
  "done_by oi (Handled m None) = (case oi m of None \<Rightarrow> [] | Some x \<Rightarrow> [x])"
| "done_by oi e = []"

text \<open>The keys and orders of the messages handled successfully, in order; and the first for each key.\<close>

abbreviation completed :: "(kmessage \<Rightarrow> (string \<times> order_payload) option) \<Rightarrow> kevent list \<Rightarrow> (string \<times> order_payload) list" where
  "completed oi es \<equiv> concat (map (done_by oi) es)"

fun firsts :: "string set \<Rightarrow> (string \<times> 'o) list \<Rightarrow> (string \<times> 'o) list" where
  "firsts S [] = []"
| "firsts S (x # xs) = (if fst x \<in> S then firsts S xs else x # firsts (insert (fst x) S) xs)"

lemma firsts_split: "firsts S (xs @ ys) = firsts S xs @ firsts (S \<union> fst ` set xs) ys"
  by (induction xs arbitrary: S) (auto simp: insert_absorb)

lemma firsts_keys: "fst ` set (firsts S xs) = fst ` set xs - S"
  by (induction xs arbitrary: S) auto

lemma firsts_keys_distinct: "distinct (map fst (firsts S xs))"
proof (induction xs arbitrary: S)
  case (Cons x xs)
  have "fst x \<notin> fst ` set (firsts (insert (fst x) S) xs)" by (simp add: firsts_keys)
  then show ?case using Cons by simp
qed simp

subsection \<open>Invariant\<close>

text \<open>The record of the applier holds the first completed order of every key, the claims are the completed
  keys, and only well-formed messages complete.\<close>

definition service_inv ::
  "(kmessage \<Rightarrow> (string \<times> order_payload) option) \<Rightarrow> ('a, 'v) world \<times> kevent list \<Rightarrow> bool" where
  [inv_defs]: "service_inv oi s \<longleftrightarrow>
     snd (snd (fst (fst s))) = map snd (firsts {} (completed oi (snd s))) \<and>
     active (fst (fst (fst s))) = fst ` set (completed oi (snd s)) \<and>
     (\<forall>m. Handled m None \<in> set (snd s) \<longrightarrow> oi m \<noteq> None)"

text \<open>What \<^verbatim>\<open>Process\<close> does with one message.\<close>

lemma process_malformed:
  assumes "order_in env_of order_of m = None"
  shows "\<exists>e. process (order_processor f env_of order_of) m st = (Some e, st)"
  using assms
  by (auto simp: process_def process_v1_def order_in_def order_processor_def Let_def
      split: option.splits sum.splits if_splits)

lemma process_order:
  assumes "order_in env_of order_of m = Some (i, ord)"
  shows "process (order_processor f env_of order_of) m (cs, a, log) =
    (if i \<in> active cs then (None, (cs, a, log))
     else case f ord a of
            (None, a1) \<Rightarrow> (None, (cs\<lparr>active := insert i (active cs)\<rparr>, a1, log @ [ord]))
          | (Some e, a1) \<Rightarrow> (Some (Wrap (''apply '' @ order_id ord) e), (cs, a1, log)))"
proof -
  obtain payload where m: "headers m ''idempotency_key'' = Some i" "i \<noteq> []" "env_of (body m) = Inr (1, payload)"
    "order_of payload = Inr ord"
    using assms by (auto simp: order_in_def split: option.splits sum.splits if_splits)
  then have "process (order_processor f env_of order_of) m (cs, a, log) =
      process_v1 (order_processor f env_of order_of) i payload (cs, a, log)"
    by (simp add: process_def order_processor_def)
  then show ?thesis
    using m(4) by (simp add: process_v1_def order_processor_def memory_claim_ops_def mem_claim_def mem_release_def
        recording_def split: prod.split option.split)
qed

lemma service_inv_handled:
  assumes "service_inv (order_in env_of order_of) (w, es)"
    and "handler (wire (order_processor f env_of order_of) env) m w = (r, w1)"
  shows "service_inv (order_in env_of order_of) (w1, es @ [Handled m r])"
proof -
  obtain cs a log v where w: "w = ((cs, a, log), v)" by (metis prod.exhaust)
  obtain st where p: "process (order_processor f env_of order_of) m (cs, a, log) = (r, st)" "w1 = (st, v)"
    using assms(2) by (cases "process (order_processor f env_of order_of) m (cs, a, log)") (simp add: wire_def w)
  show ?thesis
  proof (cases "order_in env_of order_of m")
    case None
    then obtain e where "r = Some e" "st = (cs, a, log)"
      using process_malformed [OF None, of f "(cs, a, log)"] p(1) by auto
    then show ?thesis using assms(1) w p(2) by (simp add: service_inv_def)
  next
    case (Some x)
    obtain i ord where x: "x = (i, ord)" by fastforce
    note run = process_order [OF Some [unfolded x], of f cs a log]
    show ?thesis
    proof (cases "i \<in> active cs")
      case True
      then have "r = None" "st = (cs, a, log)" using run p(1) by simp_all
      then show ?thesis using assms(1) w p(2) True Some x by (auto simp: service_inv_def firsts_split)
    next
      case False
      then show ?thesis
        using assms(1) w p run Some x
        by (cases "f ord a") (auto simp: service_inv_def firsts_split split: option.splits)
    qed
  qed
qed

lemma service_run:
  fixes f :: "order_payload \<Rightarrow> 'a \<Rightarrow> kerr option \<times> 'a" and env :: "'v kafka_env"
  shows "case turns (wire (order_processor f env_of order_of) env) c n (((new_memory_claims, a, []), v), []) of
     Inl (e, w, es) \<Rightarrow> service_inv (order_in env_of order_of) (w, es)
   | Inr s \<Rightarrow> service_inv (order_in env_of order_of) s"
proof (rule turns_keep)
  fix w :: "('a, 'v) world" and es m r w1
  assume "service_inv (order_in env_of order_of) (w, es)"
    "handler (wire (order_processor f env_of order_of) env) m w = (r, w1)"
  then show "service_inv (order_in env_of order_of) (w1, es @ [Handled m r])" by (rule service_inv_handled)
next
  fix w :: "('a, 'v) world" and es e
  assume "service_inv (order_in env_of order_of) (w, es)" "\<forall>m r. e \<noteq> Handled m r"
  then show "service_inv (order_in env_of order_of) (w, es @ [e])" by (cases e) (auto simp: service_inv_def)
next
  fix w w' :: "('a, 'v) world" and es
  assume inv: "service_inv (order_in env_of order_of) (w, es)"
    and "outside (wire (order_processor f env_of order_of) env) w w'"
  then have "fst w' = fst w" by (auto simp: outside_def wire_def)
  with inv show "service_inv (order_in env_of order_of) (w', es)" by (simp add: service_inv_def)
next
  show "service_inv (order_in env_of order_of) (((new_memory_claims, a, []), v), [])"
    by (simp add: service_inv_def new_memory_claims_def)
qed

lemma since_commit_subset: "set (since_commit es) \<subseteq> set es"
  using set_takeWhileD [of _ "\<lambda>e. \<not> is_commit e" "rev es"] by (auto simp: since_commit_def)

lemma settled_event:
  "m \<in> set (settled es) \<Longrightarrow> Handled m None \<in> set es \<or> (\<exists>x. Dead_letter m x \<in> set es)"
proof (induction es)
  case (Cons e es)
  then show ?case by (cases e rule: settled_by.cases) auto
qed simp

lemma completed_event: "Handled m None \<in> set es \<Longrightarrow> oi m = Some x \<Longrightarrow> x \<in> set (completed oi es)"
  by (induction es) auto

fun state_of :: "(kerr option \<times> 'w \<times> kevent list) + ('w \<times> kevent list) \<Rightarrow> 'w \<times> kevent list" where
  "state_of (Inl (e, w, es)) = (w, es)"
| "state_of (Inr s) = s"

subsection \<open>Properties\<close>

text \<open>C11: the order processor applies exactly once what the consumer commits.  However polls, failures,
  retries, redeliveries and the end of the context go, the orders applied are the first successful one of
  each idempotency key, in their order and each key once; and every committed record, unless its batch was
  cut short, is a well-formed order whose key has been applied, or has been dead-lettered.\<close>

theorem exactly_once:
  assumes "0 < max_attempts c"
    and "state_of (turns (wire (order_processor f env_of order_of) env) c n (((new_memory_claims, a, []), v), [])) =
      (((cs, a', log), v'), es)"
  shows "log = map snd (firsts {} (completed (order_in env_of order_of) es)) \<and>
    distinct (map fst (firsts {} (completed (order_in env_of order_of) es))) \<and>
    (\<forall>pre rs post r. es = pre @ Commit rs # post \<and> Cut_short \<notin> set (since_commit pre) \<and> r \<in> set rs \<longrightarrow>
       (\<exists>i ord. order_in env_of order_of (adapt r) = Some (i, ord) \<and>
          i \<in> fst ` set (firsts {} (completed (order_in env_of order_of) pre))) \<or>
       (\<exists>x. Dead_letter (adapt r) x \<in> set pre))"
proof -
  let ?oi = "order_in env_of order_of"
  let ?t = "turns (wire (order_processor f env_of order_of) env) c n (((new_memory_claims, a, []), v), [])"
  have inv: "service_inv ?oi (((cs, a', log), v'), es)"
    using service_run [where f = f and env = env] assms(2) by (cases ?t) (fastforce split: sum.splits)+
  have "trace_of ?t = es" using assms(2) by (cases ?t) auto
  then have ok: "commits_ok es" using turns_trace [OF assms(1)] by metis
  have "(\<exists>i ord. ?oi (adapt r) = Some (i, ord) \<and> i \<in> fst ` set (firsts {} (completed ?oi pre))) \<or>
      (\<exists>x. Dead_letter (adapt r) x \<in> set pre)"
    if es: "es = pre @ Commit rs # post" and cut: "Cut_short \<notin> set (since_commit pre)" and r: "r \<in> set rs" for pre rs post r
  proof -
    have "settled (since_commit pre) = map adapt rs" using ok es cut unfolding commits_ok_def by blast
    then have "adapt r \<in> set (settled (since_commit pre))" using r by simp
    from settled_event [OF this] consider "Handled (adapt r) None \<in> set pre" | x where "Dead_letter (adapt r) x \<in> set pre"
      using since_commit_subset [of pre] by blast
    then show ?thesis
    proof cases
      case 1
      then obtain i ord where "?oi (adapt r) = Some (i, ord)" using inv es by (fastforce simp: service_inv_def)
      with completed_event [OF 1, of ?oi] show ?thesis by (force simp: firsts_keys)
    qed blast
  qed
  then show ?thesis using inv firsts_keys_distinct by (simp add: service_inv_def)
qed

text \<open>A batch that delivers one order twice: it is applied once, and both deliveries are committed.\<close>

definition paid_order :: order_payload where
  "paid_order = \<lparr>order_id = ''o1'', account_id = ''a1'', order_amount = 500, order_currency = ''USD''\<rparr>"

definition paid_record :: "string \<Rightarrow> krecord" where
  "paid_record k = \<lparr>rec_key = k, rec_value = ''v'', rec_headers = [(''idempotency_key'', ''o1'')]\<rparr>"

definition twice_env :: "nat kafka_env" where
  "twice_env = (demo_env None False)
     \<lparr>poll_records := (\<lambda>_ n. (\<lparr>client_closed = (n > 0), fetch_errors = [], partitions = [[paid_record ''a'', paid_record ''b'']]\<rparr>, Suc n))\<rparr>"

lemma twice_turn:
  "turns (wire (order_processor (\<lambda>_ u. (None, u)) (\<lambda>_. Inr (1, ''p'')) (\<lambda>_. Inr paid_order)) twice_env) demo_config 1
     (((new_memory_claims, 0 :: nat, []), 0), []) =
   Inr ((((\<lparr>active = {''o1''}\<rparr>), 0, [paid_order]), 1),
     [Handled (adapt (paid_record ''a'')) None, Handled (adapt (paid_record ''b'')) None,
      Commit [paid_record ''a'', paid_record ''b'']])"
  by (simp add: demo_run_simps twice_env_def wire_def numeral_3_eq_3 process_def process_v1_def order_processor_def
      memory_claim_ops_def mem_claim_def new_memory_claims_def recording_def paid_record_def adapt_def)

theorem exactly_once_witness:
  "map snd (firsts {} (completed (order_in (\<lambda>_. Inr (1, ''p'')) (\<lambda>_. Inr paid_order))
     [Handled (adapt (paid_record ''a'')) None, Handled (adapt (paid_record ''b'')) None,
      Commit [paid_record ''a'', paid_record ''b'']])) = [paid_order]"
  using exactly_once [of demo_config "\<lambda>_ u. (None, u)" "\<lambda>_. Inr (1, ''p'')" "\<lambda>_. Inr paid_order" twice_env 1 "0 :: nat" 0,
      unfolded twice_turn state_of.simps, OF _ refl]
  by (simp add: demo_config_def)

end
