(* ===== verification/Postgres.thy ===== *)
theory Postgres
  imports Bank
begin

text \<open>
  \<^verbatim>\<open>13-databases/examples/bank/postgres.go\<close>: \<^verbatim>\<open>PostgresStore\<close> and the transaction helper \<^verbatim>\<open>withinTx\<close>.
  The database behind \<^verbatim>\<open>database/sql\<close> is the parameter \<open>sql_db\<close>: one field for each statement the
  code sends, on states \<open>'d\<close> and open transactions \<open>'x\<close>.  What the store relies on (atomic
  transactions, the effect of its statements, the constraints of \<^verbatim>\<open>Schema\<close>) is \<open>lawful_db\<close>,
  used as a hypothesis; transactions run one after the other.
\<close>

subsection \<open>The database\<close>

datatype pg_error =
    Driver string
  | No_rows
  | In_step string pg_error
  | Overdraft
  | No_account string

record ('d, 'x) sql_db =
  begin_tx :: "'d \<Rightarrow> (pg_error + 'x) \<times> 'd"
  exec_debit :: "int64 \<Rightarrow> string \<Rightarrow> 'x \<Rightarrow> (pg_error + int) \<times> 'x"
  insert_payment :: "string \<Rightarrow> int64 \<Rightarrow> string \<Rightarrow> 'x \<Rightarrow> (pg_error + string \<times> string) \<times> 'x"
  commit_tx :: "'x \<Rightarrow> 'd \<Rightarrow> pg_error option \<times> 'd"
  rollback_tx :: "'x \<Rightarrow> 'd \<Rightarrow> 'd"
  select_payments :: "string \<Rightarrow> int64 \<Rightarrow> 'd \<Rightarrow> pg_error + (pg_error + payment) list \<times> pg_error option"
  select_account :: "string \<Rightarrow> 'd \<Rightarrow> pg_error + account"

subsection \<open>The store\<close>

text \<open>How the function run inside a transaction ends, and how \<^verbatim>\<open>withinTx\<close> does.\<close>

datatype 'a tx_end = Returns 'a | Fails pg_error | Panics string

definition within_tx :: "('d, 'x) sql_db \<Rightarrow> ('x \<Rightarrow> 'a tx_end \<times> 'x) \<Rightarrow> 'd \<Rightarrow> 'a tx_end \<times> 'd" where
  "within_tx db fn d =
     (case begin_tx db d of
        (Inl e, d1) \<Rightarrow> (Fails (In_step ''begin'' e), d1)
      | (Inr x, d1) \<Rightarrow>
          (case fn x of
             (Panics p, x1) \<Rightarrow> (Panics p, rollback_tx db x1 d1)
           | (Fails e, x1) \<Rightarrow> (Fails e, rollback_tx db x1 d1)
           | (Returns v, x1) \<Rightarrow>
               (case commit_tx db x1 d1 of
                  (Some e, d2) \<Rightarrow> (Fails e, d2)
                | (None, d2) \<Rightarrow> (Returns v, d2))))"

definition charge_tx :: "('d, 'x) sql_db \<Rightarrow> payment \<Rightarrow> 'x \<Rightarrow> payment tx_end \<times> 'x" where
  "charge_tx db p x =
     (case exec_debit db (amount p) (payer p) x of
        (Inl e, x1) \<Rightarrow> (Fails (In_step ''debit'' e), x1)
      | (Inr n, x1) \<Rightarrow>
          if n = 0 then (Fails Overdraft, x1)
          else (case insert_payment db (payer p) (amount p) (currency p) x1 of
                  (Inl e, x2) \<Rightarrow> (Fails (In_step ''insert payment'' e), x2)
                | (Inr (i, s), x2) \<Rightarrow>
                    (Returns \<lparr>payment_id = i, payer = payer p, amount = amount p, currency = currency p, status = s\<rparr>, x2)))"

definition pg_charge :: "('d, 'x) sql_db \<Rightarrow> payment \<Rightarrow> 'd \<Rightarrow> payment tx_end \<times> 'd" where
  "pg_charge db p d = within_tx db (charge_tx db p) d"

fun scan_all :: "(pg_error + payment) list \<Rightarrow> payment list \<Rightarrow> pg_error + payment list" where
  "scan_all [] out = Inr out"
| "scan_all (Inl e # rows) out = Inl (In_step ''scan payment'' e)"
| "scan_all (Inr p # rows) out = scan_all rows (out @ [p])"

definition bounded_limit :: "int64 \<Rightarrow> int64" where
  "bounded_limit limit = (if sint limit \<le> 0 \<or> sint limit > 100 then 100 else limit)"

definition pg_by_customer :: "('d, 'x) sql_db \<Rightarrow> string \<Rightarrow> int64 \<Rightarrow> 'd \<Rightarrow> pg_error + payment list" where
  "pg_by_customer db cid limit d =
     (case select_payments db cid (bounded_limit limit) d of
        Inl e \<Rightarrow> Inl (In_step ''query payments'' e)
      | Inr (rows, err) \<Rightarrow>
          (case scan_all rows [] of
             Inl e \<Rightarrow> Inl e
           | Inr out \<Rightarrow> (case err of Some e \<Rightarrow> Inl (In_step ''iterate payments'' e) | None \<Rightarrow> Inr out)))"

text \<open>\<^verbatim>\<open>errors.Is\<close> looks through wrapped errors.\<close>

fun is_no_rows :: "pg_error \<Rightarrow> bool" where
  "is_no_rows No_rows = True"
| "is_no_rows (In_step s e) = is_no_rows e"
| "is_no_rows _ = False"

definition pg_account :: "('d, 'x) sql_db \<Rightarrow> string \<Rightarrow> 'd \<Rightarrow> pg_error + account" where
  "pg_account db cid d =
     (case select_account db cid d of
        Inl e \<Rightarrow> if is_no_rows e then Inl (No_account cid) else Inl (In_step ''query account'' e)
      | Inr a \<Rightarrow> Inr a)"

fun pg_charge_all :: "('d, 'x) sql_db \<Rightarrow> payment list \<Rightarrow> 'd \<Rightarrow> 'd" where
  "pg_charge_all db [] d = d"
| "pg_charge_all db (p # ps) d = pg_charge_all db ps (snd (pg_charge db p d))"

subsection \<open>What the store relies on\<close>

text \<open>
  \<open>rows\<close> are the tables a new transaction would see, \<open>seen\<close> those of an open one, both as accounts
  and payments.  A transaction starts on the committed rows; its commit publishes what it sees, and a
  rollback or a failed commit leaves the committed rows.  The debit changes the one account that
  matches, within \<^verbatim>\<open>CHECK (balance_minor >= 0)\<close>; the insert adds the row, within
  \<^verbatim>\<open>CHECK (amount_minor > 0)\<close>.  Any of them may fail.
\<close>

type_synonym tables = "(string \<rightharpoonup> account) \<times> payment list"

definition debit_row :: "int64 \<Rightarrow> string \<Rightarrow> tables \<Rightarrow> int \<times> tables" where
  "debit_row a cid t =
     (case fst t cid of
        None \<Rightarrow> (0, t)
      | Some r \<Rightarrow>
          if sint (balance r) \<ge> sint a
          then (1, ((fst t)(cid \<mapsto> r\<lparr>balance := balance r - a\<rparr>), snd t)) else (0, t))"

definition lawful_db :: "('d, 'x) sql_db \<Rightarrow> ('d \<Rightarrow> tables) \<Rightarrow> ('x \<Rightarrow> tables) \<Rightarrow> bool" where
  "lawful_db db rows seen \<longleftrightarrow>
     (\<forall>d r d1. begin_tx db d = (r, d1) \<longrightarrow> rows d1 = rows d \<and> (\<forall>x. r = Inr x \<longrightarrow> seen x = rows d)) \<and>
     (\<forall>a c x n x1. exec_debit db a c x = (Inr n, x1) \<longrightarrow> (n, seen x1) = debit_row a c (seen x)) \<and>
     (\<forall>c a cur x i s x1. insert_payment db c a cur x = (Inr (i, s), x1) \<longrightarrow>
        s = ''charged'' \<and> 0 < sint a \<and>
        seen x1 = (fst (seen x), snd (seen x) @ [\<lparr>payment_id = i, payer = c, amount = a, currency = cur, status = s\<rparr>])) \<and>
     (\<forall>x d r d1. commit_tx db x d = (r, d1) \<longrightarrow> rows d1 = (if r = None then seen x else rows d)) \<and>
     (\<forall>x d. rows (rollback_tx db x d) = rows d)"

subsection \<open>Lemmas\<close>

lemma lawful_begin: "lawful_db db rows seen \<Longrightarrow> begin_tx db d = (r, d1) \<Longrightarrow> rows d1 = rows d"
  by (simp add: lawful_db_def)

lemma lawful_start: "lawful_db db rows seen \<Longrightarrow> begin_tx db d = (Inr x, d1) \<Longrightarrow> seen x = rows d"
  by (simp add: lawful_db_def)

lemma lawful_debit:
  "lawful_db db rows seen \<Longrightarrow> exec_debit db a c x = (Inr n, x1) \<Longrightarrow> (n, seen x1) = debit_row a c (seen x)"
  by (simp add: lawful_db_def)

lemma lawful_insert:
  "lawful_db db rows seen \<Longrightarrow> insert_payment db c a cur x = (Inr (i, s), x1) \<Longrightarrow>
    s = ''charged'' \<and> 0 < sint a \<and>
    seen x1 = (fst (seen x), snd (seen x) @ [\<lparr>payment_id = i, payer = c, amount = a, currency = cur, status = s\<rparr>])"
  unfolding lawful_db_def by blast

lemma lawful_commit:
  "lawful_db db rows seen \<Longrightarrow> commit_tx db x d = (e, d1) \<Longrightarrow> rows d1 = (if e = None then seen x else rows d)"
  unfolding lawful_db_def by blast

lemma lawful_rollback: "lawful_db db rows seen \<Longrightarrow> rows (rollback_tx db x d) = rows d"
  by (simp add: lawful_db_def)

text \<open>A transaction publishes what its function saw at a successful end, or nothing.\<close>

lemma within_tx_atomic:
  assumes "lawful_db db rows seen" "within_tx db fn d = (r, d1)"
  shows "case r of
      Returns v \<Rightarrow> \<exists>x x1. seen x = rows d \<and> fn x = (Returns v, x1) \<and> rows d1 = seen x1
    | _ \<Rightarrow> rows d1 = rows d"
proof -
  obtain b d0 where b: "begin_tx db d = (b, d0)" by fastforce
  then have b': "rows d0 = rows d" "\<And>x. b = Inr x \<Longrightarrow> seen x = rows d"
    using lawful_begin [OF assms(1)] lawful_start [OF assms(1)] by simp_all
  show ?thesis
  proof (cases b)
    case (Inl e)
    then show ?thesis using assms(2) b b'(1) by (auto simp: within_tx_def)
  next
    case (Inr x)
    obtain e x1 where f: "fn x = (e, x1)" by fastforce
    have rb: "rows (rollback_tx db x1 d0) = rows d" using lawful_rollback [OF assms(1)] b'(1) by simp
    obtain c d2 where c: "commit_tx db x1 d0 = (c, d2)" by fastforce
    then have "rows d2 = (if c = None then seen x1 else rows d0)" by (rule lawful_commit [OF assms(1)])
    then show ?thesis
      using assms(2) b b' Inr f rb c by (cases e; cases c) (fastforce simp: within_tx_def)+
  qed
qed

lemma charge_tx_returns:
  assumes "lawful_db db rows seen" "charge_tx db p x = (Returns q, x1)"
  shows "0 < sint (amount p) \<and> (\<exists>i. q = p\<lparr>payment_id := i, status := ''charged''\<rparr>) \<and>
    (\<exists>a. fst (seen x) (payer p) = Some a \<and> sint (amount p) \<le> sint (balance a) \<and>
       seen x1 = ((fst (seen x))(payer p \<mapsto> a\<lparr>balance := balance a - amount p\<rparr>), snd (seen x) @ [q]))"
proof -
  obtain n x2 where n: "exec_debit db (amount p) (payer p) x = (Inr n, x2)" "n \<noteq> 0"
    using assms(2) by (auto simp: charge_tx_def split: sum.splits if_splits prod.splits)
  then have t: "(n, seen x2) = debit_row (amount p) (payer p) (seen x)"
    by (intro lawful_debit [OF assms(1)]) simp
  obtain i s where i: "insert_payment db (payer p) (amount p) (currency p) x2 = (Inr (i, s), x1)"
    "q = \<lparr>payment_id = i, payer = payer p, amount = amount p, currency = currency p, status = s\<rparr>"
    using assms(2) n by (auto simp: charge_tx_def split: sum.splits prod.splits)
  then have "s = ''charged''" "0 < sint (amount p)"
    "seen x1 = (fst (seen x2), snd (seen x2) @ [\<lparr>payment_id = i, payer = payer p, amount = amount p, currency = currency p, status = s\<rparr>])"
    using lawful_insert [OF assms(1) i(1)] by simp_all
  note ins = this
  have "q = p\<lparr>payment_id := i, status := ''charged''\<rparr>" using ins(1) i(2) by (cases p) simp
  then have "\<exists>i. q = p\<lparr>payment_id := i, status := ''charged''\<rparr>" by blast
  moreover have "\<exists>a. fst (seen x) (payer p) = Some a \<and> sint (amount p) \<le> sint (balance a) \<and>
      seen x1 = ((fst (seen x))(payer p \<mapsto> a\<lparr>balance := balance a - amount p\<rparr>), snd (seen x) @ [q])"
    using t n(2) i(2) ins(3) by (auto simp: debit_row_def split: option.splits if_splits)
  ultimately show ?thesis using ins(2) by blast
qed

definition as_fake :: "int64 \<Rightarrow> tables \<Rightarrow> fake_store" where
  "as_fake n t = \<lparr>seq = n, accounts = fst t, payments = snd t\<rparr>"

lemma pg_charge_fake:
  assumes "lawful_db db rows seen" "pg_charge db p d = (Returns q, d1)"
  shows "0 < sint (amount p) \<and> (\<exists>q' f'. charge p (as_fake n (rows d)) = (Inr q', f') \<and>
    q = q'\<lparr>payment_id := payment_id q\<rparr> \<and> rows d1 = (accounts f', butlast (payments f') @ [q]))"
proof -
  obtain x x1 where x: "seen x = rows d" "charge_tx db p x = (Returns q, x1)" "rows d1 = seen x1"
    using within_tx_atomic [OF assms(1), of "charge_tx db p" d "Returns q" d1] assms(2)
    by (auto simp: pg_charge_def)
  from charge_tx_returns [OF assms(1) x(2)] x(1,3) show ?thesis
    by (auto simp: charge_def as_fake_def Let_def)
qed

lemma pg_charge_fails:
  "lawful_db db rows seen \<Longrightarrow> pg_charge db p d = (Fails e, d1) \<Longrightarrow> rows d1 = rows d"
  using within_tx_atomic [of db rows seen "charge_tx db p" d "Fails e" d1] by (simp add: pg_charge_def)

lemma pg_charge_no_panic: "pg_charge db p d \<noteq> (Panics m, d1)"
  by (auto simp: pg_charge_def within_tx_def charge_tx_def split: sum.splits prod.splits option.splits if_splits tx_end.splits)

subsection \<open>Properties\<close>

text \<open>C34: \<^verbatim>\<open>Charge\<close> on Postgres is atomic and agrees with the in-memory store: a failure at any step
  (begin, debit, insert, commit) leaves the tables as they were; a success has a positive amount, is what
  \<^verbatim>\<open>FakeStore.Charge\<close> answers on the same accounts up to the generated ID, and leaves the same accounts
  and the same payments with the new one last.\<close>

theorem charge_atomic:
  assumes "lawful_db db rows seen" "pg_charge db p d = (r, d1)"
  shows "case r of
      Fails e \<Rightarrow> rows d1 = rows d
    | Returns q \<Rightarrow> 0 < sint (amount p) \<and> (\<exists>q' f'. charge p (as_fake n (rows d)) = (Inr q', f') \<and>
        q = q'\<lparr>payment_id := payment_id q\<rparr> \<and> rows d1 = (accounts f', butlast (payments f') @ [q]))
    | Panics m \<Rightarrow> False"
proof (cases r)
  case (Returns q)
  then show ?thesis using pg_charge_fake [OF assms(1), of p d q d1 n] assms(2) by simp
next
  case (Fails e)
  then show ?thesis using pg_charge_fails [OF assms(1)] assms(2) by simp
next
  case (Panics m)
  then show ?thesis using pg_charge_no_panic [of db p d m d1] assms(2) by simp
qed

text \<open>A database that keeps its tables in memory and numbers the payments.\<close>

definition demo_db :: "(tables, tables) sql_db" where
  "demo_db = \<lparr>begin_tx = (\<lambda>d. (Inr d, d)),
     exec_debit = (\<lambda>a c x. (case debit_row a c x of (n, x1) \<Rightarrow> (Inr n, x1))),
     insert_payment = (\<lambda>c a cur x.
       (if sint a \<le> 0 then (Inl (Driver ''amount_minor'')  , x)
        else let i = nat_text (length (snd x)) in
          (Inr (i, ''charged''), (fst x, snd x @ [\<lparr>payment_id = i, payer = c, amount = a, currency = cur, status = ''charged''\<rparr>])))),
     commit_tx = (\<lambda>x d. (None, x)), rollback_tx = (\<lambda>x d. d),
     select_payments = (\<lambda>c n d. Inr (map Inr (take (nat (sint n)) (filter (\<lambda>p. payer p = c) (rev (snd d)))), None)),
     select_account = (\<lambda>c d. case fst d c of None \<Rightarrow> Inl No_rows | Some a \<Rightarrow> Inr a)\<rparr>"

lemma demo_db_lawful: "lawful_db demo_db id id"
  by (auto simp: lawful_db_def demo_db_def Let_def split: prod.splits if_splits)

definition demo_rows :: tables where
  "demo_rows = ([''c'' \<mapsto> \<lparr>owner = ''c'', balance = 100, acct_currency = ''USD''\<rparr>], [])"

definition demo_payment :: "string \<Rightarrow> int64 \<Rightarrow> payment" where
  "demo_payment c a = \<lparr>payment_id = [], payer = c, amount = a, currency = ''USD'', status = []\<rparr>"

theorem charge_atomic_witness:
  "snd (pg_charge demo_db (demo_payment ''c'' 150) demo_rows) = demo_rows"
proof -
  let ?r = "pg_charge demo_db (demo_payment ''c'' 150) demo_rows"
  have "fst ?r = Fails Overdraft"
    by (simp add: pg_charge_def within_tx_def charge_tx_def demo_db_def demo_payment_def demo_rows_def debit_row_def)
  with charge_atomic [OF demo_db_lawful prod.collapse [symmetric], where p = "demo_payment ''c'' 150" and d = demo_rows] show ?thesis by simp
qed

text \<open>On Postgres overdrafts are impossible for any charges, negative amounts included: whatever charges
  are attempted and whatever fails, every account holds its seed less the payments recorded for it, and
  no balance is negative.\<close>

theorem pg_no_overdraft:
  assumes "lawful_db db rows seen" "\<forall>c b. balances c = Some b \<longrightarrow> 0 \<le> sint b"
    and "rows d = (accounts (new_fake_store balances cur), [])"
    and "t = rows (pg_charge_all db ps d)" "balances c = Some b"
  shows "\<exists>a. fst t c = Some a \<and> 0 \<le> sint (balance a) \<and> sint (balance a) = sint b - paid c (snd t)"
proof -
  have inv: "bank_inv balances (as_fake 0 (rows d')) \<Longrightarrow> bank_inv balances (as_fake 0 (rows (pg_charge_all db ps d')))" for d'
  proof (induction ps arbitrary: d')
    case (Cons p ps)
    obtain r d1 where r: "pg_charge db p d' = (r, d1)" by fastforce
    have "bank_inv balances (as_fake 0 (rows d1))"
    proof (cases r)
      case (Returns q)
      then obtain q' f' where f: "0 < sint (amount p)" "charge p (as_fake 0 (rows d')) = (Inr q', f')"
        "q = q'\<lparr>payment_id := payment_id q\<rparr>" "rows d1 = (accounts f', butlast (payments f') @ [q])"
        using pg_charge_fake [OF assms(1), of p d' q d1 0] r by auto
      have l: "payments f' = butlast (payments f') @ [q']" using f(2) by (auto simp: charge_def Let_def split: option.splits if_splits)
      have "bank_inv balances f'" using charge_inv [OF Cons.prems, of p] f(1,2) by simp
      moreover obtain i where "q = q'\<lparr>payment_id := i\<rparr>" using f(3) by blast
      then have "payer q = payer q'" "amount q = amount q'" by simp_all
      then have "paid c (snd (rows d1)) = paid c (payments f')" for c
        by (subst l) (simp add: f(4))
      ultimately show ?thesis by (simp add: bank_inv_def as_fake_def f(4))
    next
      case (Fails e)
      then show ?thesis using pg_charge_fails [OF assms(1)] r Cons.prems by simp
    next
      case (Panics m)
      then show ?thesis using pg_charge_no_panic r by fast
    qed
    then show ?case using Cons.IH r by simp
  qed simp
  have "bank_inv balances (as_fake 0 (rows d))"
    using assms(2,3) by (auto simp: bank_inv_def as_fake_def new_fake_store_def)
  from inv [OF this] have i: "bank_inv balances (as_fake 0 t)" unfolding assms(4) .
  then obtain a where "fst t c = Some a" using assms(5) unfolding bank_inv_def as_fake_def by fastforce
  moreover from this have "0 \<le> sint (balance a) \<and> sint (balance a) + paid c (snd t) = sint b"
    using i assms(5) unfolding bank_inv_def as_fake_def by simp
  ultimately show ?thesis by (intro exI [of _ a]) linarith
qed

theorem pg_no_overdraft_witness:
  "\<exists>a. fst (pg_charge_all demo_db [demo_payment ''c'' 30, demo_payment ''c'' (- 5), demo_payment ''c'' 80]
      (accounts (new_fake_store [''c'' \<mapsto> 100] ''USD''), [])) ''c'' = Some a \<and> 0 \<le> sint (balance a)"
proof -
  have nonneg: "\<forall>c b. [''c'' \<mapsto> 100 :: int64] c = Some b \<longrightarrow> 0 \<le> sint b" by simp
  let ?f = "new_fake_store [''c'' \<mapsto> 100] ''USD''"
  have "\<exists>a. fst (id (pg_charge_all demo_db [demo_payment ''c'' 30, demo_payment ''c'' (- 5), demo_payment ''c'' 80]
        (accounts ?f, []))) ''c'' = Some a \<and> 0 \<le> sint (balance a) \<and>
      sint (balance a) = sint (100 :: int64) - paid ''c'' (snd (id (pg_charge_all demo_db
        [demo_payment ''c'' 30, demo_payment ''c'' (- 5), demo_payment ''c'' 80] (accounts ?f, []))))"
    by (rule pg_no_overdraft [OF demo_db_lawful nonneg _ refl], rule id_apply) simp
  then show ?thesis by (metis id_apply)
qed

lemma scan_all_Inr: "scan_all rows out = Inr ps \<longleftrightarrow> (\<exists>qs. rows = map Inr qs \<and> ps = out @ qs)"
proof (induction rows arbitrary: out)
  case (Cons r rows)
  then show ?case by (cases r) (auto simp: Cons_eq_map_conv)
qed auto

text \<open>A listing is all of the rows of one bounded query, or an error; never a part of them.\<close>

lemma listing_whole:
  "pg_by_customer db cid limit d = Inr ps \<longleftrightarrow> select_payments db cid (bounded_limit limit) d = Inr (map Inr ps, None)"
proof (cases "select_payments db cid (bounded_limit limit) d")
  case (Inr q)
  then obtain rows err where q: "select_payments db cid (bounded_limit limit) d = Inr (rows, err)" by (cases q) simp
  then have "pg_by_customer db cid limit d = Inr ps \<longleftrightarrow> scan_all rows [] = Inr ps \<and> err = None"
    by (simp add: pg_by_customer_def split: sum.split option.split)
  then show ?thesis using q by (simp add: scan_all_Inr)
qed (simp add: pg_by_customer_def)

lemma bounded_limit_range: "0 < sint (bounded_limit limit) \<and> sint (bounded_limit limit) \<le> 100"
  by (simp add: bounded_limit_def)

text \<open>An unknown customer gets \<^verbatim>\<open>ErrInsufficientFunds\<close> here and \<^verbatim>\<open>ErrNotFound\<close> from \<^verbatim>\<open>FakeStore\<close>.\<close>

lemma unknown_customer:
  assumes "lawful_db db rows seen" "fst (rows d) (payer p) = None"
    and "begin_tx db d = (Inr x, d1)" "exec_debit db (amount p) (payer p) x = (Inr n, x1)"
  shows "fst (pg_charge db p d) = Fails Overdraft"
    and "fst (charge p (as_fake k (rows d))) = Inl (Not_found (payer p))"
proof -
  have "(n, seen x1) = debit_row (amount p) (payer p) (rows d)"
    using lawful_debit [OF assms(1,4)] lawful_start [OF assms(1,3)] by simp
  then have "n = 0" using assms(2) by (simp add: debit_row_def)
  then show "fst (pg_charge db p d) = Fails Overdraft"
    using assms(3,4) by (simp add: pg_charge_def within_tx_def charge_tx_def)
qed (use assms(2) in \<open>simp add: charge_def as_fake_def\<close>)


end
