(* ===== verification/Postgres_Concurrent.thy ===== *)
theory Postgres_Concurrent
  imports Postgres
begin

text \<open>
  Concurrent calls of \<^verbatim>\<open>PostgresStore.Charge\<close> (\<^verbatim>\<open>13-databases/examples/bank/postgres.go\<close>): every statement
  \<^verbatim>\<open>withinTx\<close> and its function send is a step, and the steps of the calls interleave in any order.  The
  database is again a parameter, now shared by numbered transactions; what the store relies on, the
  documented behaviour of \<^verbatim>\<open>READ COMMITTED\<close> and of the row locks an \<^verbatim>\<open>UPDATE\<close> takes, is
  \<open>read_committed\<close>, used as a hypothesis.
\<close>

subsection \<open>The shared database\<close>

text \<open>A debit that has to wait for the lock of a row gives \<open>None\<close>.\<close>

record 'd shared_db =
  sh_begin :: "nat \<Rightarrow> 'd \<Rightarrow> pg_error option \<times> 'd"
  sh_debit :: "nat \<Rightarrow> int64 \<Rightarrow> string \<Rightarrow> 'd \<Rightarrow> ((pg_error + int) \<times> 'd) option"
  sh_insert :: "nat \<Rightarrow> string \<Rightarrow> int64 \<Rightarrow> string \<Rightarrow> 'd \<Rightarrow> (pg_error + string \<times> string) \<times> 'd"
  sh_commit :: "nat \<Rightarrow> 'd \<Rightarrow> pg_error option \<times> 'd"
  sh_rollback :: "nat \<Rightarrow> 'd \<Rightarrow> 'd"

subsection \<open>A call, one statement at a time\<close>

datatype call = At_begin | At_debit | At_insert | At_commit payment | At_rollback pg_error | Ended "payment tx_end"

fun call_step :: "'d shared_db \<Rightarrow> nat \<Rightarrow> payment \<Rightarrow> call \<Rightarrow> 'd \<Rightarrow> (call \<times> 'd) option" where
  "call_step db i p At_begin d =
     (case sh_begin db i d of
        (Some e, d1) \<Rightarrow> Some (Ended (Fails (In_step ''begin'' e)), d1)
      | (None, d1) \<Rightarrow> Some (At_debit, d1))"
| "call_step db i p At_debit d =
     (case sh_debit db i (amount p) (payer p) d of
        None \<Rightarrow> None
      | Some (Inl e, d1) \<Rightarrow> Some (At_rollback (In_step ''debit'' e), d1)
      | Some (Inr n, d1) \<Rightarrow> Some (if n = 0 then At_rollback Overdraft else At_insert, d1))"
| "call_step db i p At_insert d =
     (case sh_insert db i (payer p) (amount p) (currency p) d of
        (Inl e, d1) \<Rightarrow> Some (At_rollback (In_step ''insert payment'' e), d1)
      | (Inr (k, s), d1) \<Rightarrow>
          Some (At_commit \<lparr>payment_id = k, payer = payer p, amount = amount p, currency = currency p, status = s\<rparr>, d1))"
| "call_step db i p (At_commit q) d =
     (case sh_commit db i d of
        (Some e, d1) \<Rightarrow> Some (Ended (Fails e), d1)
      | (None, d1) \<Rightarrow> Some (Ended (Returns q), d1))"
| "call_step db i p (At_rollback e) d = Some (Ended (Fails e), sh_rollback db i d)"
| "call_step db i p (Ended r) d = None"

record 'd bank_run =
  calls :: "call list"
  database :: 'd

definition start_calls :: "payment list \<Rightarrow> 'd \<Rightarrow> 'd bank_run" where
  "start_calls ps d = \<lparr>calls = replicate (length ps) At_begin, database = d\<rparr>"

inductive bank_step :: "'d shared_db \<Rightarrow> payment list \<Rightarrow> 'd bank_run \<Rightarrow> 'd bank_run \<Rightarrow> bool" for db ps where
  call: "i < length (calls s) \<Longrightarrow> call_step db i (ps ! i) (calls s ! i) (database s) = Some (c, d) \<Longrightarrow>
    bank_step db ps s (s\<lparr>calls := (calls s)[i := c], database := d\<rparr>)"

subsection \<open>A call alone\<close>

fun statements_left :: "call \<Rightarrow> nat" where
  "statements_left At_begin = 4"
| "statements_left At_debit = 3"
| "statements_left At_insert = 2"
| "statements_left (At_commit q) = 1"
| "statements_left (At_rollback e) = 1"
| "statements_left (Ended r) = 0"

lemma call_step_less: "call_step db i p c d = Some (c1, d1) \<Longrightarrow> statements_left c1 < statements_left c"
  by (cases c) (auto split: prod.splits option.splits sum.splits if_splits)

function solo :: "'d shared_db \<Rightarrow> nat \<Rightarrow> payment \<Rightarrow> call \<Rightarrow> 'd \<Rightarrow> call \<times> 'd" where
  "solo db i p c d = (case call_step db i p c d of None \<Rightarrow> (c, d) | Some (c1, d1) \<Rightarrow> solo db i p c1 d1)"
  by pat_completeness auto
termination
  by (relation "measure (\<lambda>(db, i, p, c, d). statements_left c)") (auto dest: call_step_less)

declare solo.simps [simp del]

text \<open>The steps of one call, with no other in between, are \<open>Postgres.pg_charge\<close>.\<close>

lemma solo_is_charge:
  assumes "\<And>d. begin_tx sdb d = (case sh_begin db i d of (None, d1) \<Rightarrow> (Inr d1, d1) | (Some e, d1) \<Rightarrow> (Inl e, d1))"
    and "\<And>a c x. sh_debit db i a c x = Some (exec_debit sdb a c x)"
    and "\<And>c a cur x. insert_payment sdb c a cur x = sh_insert db i c a cur x"
    and "\<And>x d. commit_tx sdb x d = sh_commit db i x" "\<And>x d. rollback_tx sdb x d = sh_rollback db i x"
  shows "solo db i p At_begin d = (case pg_charge sdb p d of (r, d1) \<Rightarrow> (Ended r, d1))"
proof -
  have ended: "solo db i p (Ended r) x = (Ended r, x)" for r x by (subst solo.simps) simp
  have rb: "solo db i p (At_rollback e) x = (Ended (Fails e), sh_rollback db i x)" for e x
    by (subst solo.simps) (simp add: ended)
  have commit: "solo db i p (At_commit q) x =
      (case sh_commit db i x of (Some e, x1) \<Rightarrow> (Ended (Fails e), x1) | (None, x1) \<Rightarrow> (Ended (Returns q), x1))" for q x
    by (subst solo.simps) (simp add: ended split: prod.split option.split)
  have insert: "solo db i p At_insert x = (case insert_payment sdb (payer p) (amount p) (currency p) x of
      (Inl e, x1) \<Rightarrow> (Ended (Fails (In_step ''insert payment'' e)), sh_rollback db i x1)
    | (Inr (k, s), x1) \<Rightarrow> solo db i p (At_commit \<lparr>payment_id = k, payer = payer p, amount = amount p, currency = currency p, status = s\<rparr>) x1)" for x
    by (subst solo.simps) (simp add: assms(3) rb split: prod.split sum.split)
  have debit: "solo db i p At_debit x = (case exec_debit sdb (amount p) (payer p) x of
      (Inl e, x1) \<Rightarrow> (Ended (Fails (In_step ''debit'' e)), sh_rollback db i x1)
    | (Inr n, x1) \<Rightarrow> if n = 0 then (Ended (Fails Overdraft), sh_rollback db i x1) else solo db i p At_insert x1)" for x
    by (subst solo.simps) (simp add: assms(2) rb split: prod.split sum.split)
  have "solo db i p At_begin d = (case sh_begin db i d of
      (Some e, d1) \<Rightarrow> (Ended (Fails (In_step ''begin'' e)), d1) | (None, d1) \<Rightarrow> solo db i p At_debit d1)"
    by (subst solo.simps) (simp add: ended split: prod.split option.split)
  then show ?thesis
    by (simp add: pg_charge_def within_tx_def charge_tx_def assms(1,4,5) debit insert commit
        split: prod.split option.split sum.split)
qed

subsection \<open>What the store relies on\<close>

text \<open>
  \<open>rows\<close> are the committed tables; \<open>pend\<close> is what an open transaction has done and not committed: the rows
  it has debited, which it holds locked until it ends, and the payments it has inserted.  A statement sees
  the committed tables with the changes of its own transaction.  A debit that matches a row needs its
  lock, and it waits only for a transaction that holds it.
\<close>

type_synonym change = "(string \<times> int64) list \<times> payment list"

definition debit_all :: "(string \<times> int64) list \<Rightarrow> (string \<rightharpoonup> account) \<Rightarrow> string \<rightharpoonup> account" where
  "debit_all ds m = fold (\<lambda>(c, a) m. case m c of None \<Rightarrow> m | Some r \<Rightarrow> m(c \<mapsto> r\<lparr>balance := balance r - a\<rparr>)) ds m"

definition apply_change :: "change \<Rightarrow> tables \<Rightarrow> tables" where
  "apply_change ch t = (debit_all (fst ch) (fst t), snd t @ snd ch)"

definition locked :: "change \<Rightarrow> string set" where
  "locked ch = fst ` set (fst ch)"

definition read_committed :: "'d shared_db \<Rightarrow> ('d \<Rightarrow> tables) \<Rightarrow> ('d \<Rightarrow> nat \<Rightarrow> change) \<Rightarrow> bool" where
  "read_committed db rows pend \<longleftrightarrow>
     (\<forall>i d. case sh_begin db i d of (r, d1) \<Rightarrow> rows d1 = rows d \<and> pend d1 = (pend d)(i := ([], []))) \<and>
     (\<forall>i a c d. case sh_debit db i a c d of
          None \<Rightarrow> \<exists>j. j \<noteq> i \<and> c \<in> locked (pend d j)
        | Some (r, d1) \<Rightarrow> rows d1 = rows d \<and> (\<forall>j. j \<noteq> i \<longrightarrow> pend d1 j = pend d j) \<and>
            (case r of
               Inl e \<Rightarrow> True
             | Inr n \<Rightarrow> n = fst (debit_row a c (apply_change (pend d i) (rows d))) \<and>
                 (if n = 0 then pend d1 i = pend d i
                  else pend d1 i = (fst (pend d i) @ [(c, a)], snd (pend d i)) \<and> (\<forall>j. j \<noteq> i \<longrightarrow> c \<notin> locked (pend d j))))) \<and>
     (\<forall>i c a cur d. case sh_insert db i c a cur d of (r, d1) \<Rightarrow>
        rows d1 = rows d \<and> (\<forall>j. j \<noteq> i \<longrightarrow> pend d1 j = pend d j) \<and>
        (case r of
           Inl e \<Rightarrow> True
         | Inr (k, s) \<Rightarrow> s = ''charged'' \<and> 0 < sint a \<and>
             pend d1 i = (fst (pend d i), snd (pend d i) @
               [\<lparr>payment_id = k, payer = c, amount = a, currency = cur, status = s\<rparr>]))) \<and>
     (\<forall>i d. case sh_commit db i d of (r, d1) \<Rightarrow>
        rows d1 = (if r = None then apply_change (pend d i) (rows d) else rows d) \<and>
        pend d1 = (pend d)(i := ([], [])) \<and> (\<forall>e. r = Some e \<longrightarrow> (\<exists>m. e = Driver m))) \<and>
     (\<forall>i d. rows (sh_rollback db i d) = rows d \<and> pend (sh_rollback db i d) = (pend d)(i := ([], [])))"

lemma rc_begin: "read_committed db rows pend \<Longrightarrow> sh_begin db i d = (r, d1) \<Longrightarrow>
    rows d1 = rows d \<and> pend d1 = (pend d)(i := ([], []))"
  by (drule read_committed_def [THEN iffD1, THEN conjunct1, THEN spec [of _ i], THEN spec [of _ d]]) simp

lemma rc_wait: "read_committed db rows pend \<Longrightarrow> sh_debit db i a c d = None \<Longrightarrow> \<exists>j. j \<noteq> i \<and> c \<in> locked (pend d j)"
  by (drule read_committed_def [THEN iffD1, THEN conjunct2, THEN conjunct1, THEN spec [of _ i], THEN spec [of _ a], THEN spec [of _ c], THEN spec [of _ d]]) simp

lemma rc_debit: "read_committed db rows pend \<Longrightarrow> sh_debit db i a c d = Some (r, d1) \<Longrightarrow>
    rows d1 = rows d \<and> (\<forall>j. j \<noteq> i \<longrightarrow> pend d1 j = pend d j)"
  by (drule read_committed_def [THEN iffD1, THEN conjunct2, THEN conjunct1, THEN spec [of _ i], THEN spec [of _ a], THEN spec [of _ c], THEN spec [of _ d]]) simp

lemma rc_debit_row: "read_committed db rows pend \<Longrightarrow> sh_debit db i a c d = Some (Inr n, d1) \<Longrightarrow>
    n = fst (debit_row a c (apply_change (pend d i) (rows d))) \<and>
    (if n = 0 then pend d1 i = pend d i
     else pend d1 i = (fst (pend d i) @ [(c, a)], snd (pend d i)) \<and> (\<forall>j. j \<noteq> i \<longrightarrow> c \<notin> locked (pend d j)))"
  by (drule read_committed_def [THEN iffD1, THEN conjunct2, THEN conjunct1, THEN spec [of _ i], THEN spec [of _ a], THEN spec [of _ c], THEN spec [of _ d]]) simp

lemma rc_insert: "read_committed db rows pend \<Longrightarrow> sh_insert db i c a cur d = (r, d1) \<Longrightarrow>
    rows d1 = rows d \<and> (\<forall>j. j \<noteq> i \<longrightarrow> pend d1 j = pend d j)"
  by (drule read_committed_def [THEN iffD1, THEN conjunct2, THEN conjunct2, THEN conjunct1, THEN spec [of _ i], THEN spec [of _ c], THEN spec [of _ a], THEN spec [of _ cur], THEN spec [of _ d]]) simp

lemma rc_insert_row: "read_committed db rows pend \<Longrightarrow> sh_insert db i c a cur d = (Inr (k, s), d1) \<Longrightarrow>
    s = ''charged'' \<and> 0 < sint a \<and> pend d1 i = (fst (pend d i), snd (pend d i) @
      [\<lparr>payment_id = k, payer = c, amount = a, currency = cur, status = s\<rparr>])"
  by (drule read_committed_def [THEN iffD1, THEN conjunct2, THEN conjunct2, THEN conjunct1, THEN spec [of _ i], THEN spec [of _ c], THEN spec [of _ a], THEN spec [of _ cur], THEN spec [of _ d]]) simp

lemma rc_commit: "read_committed db rows pend \<Longrightarrow> sh_commit db i d = (r, d1) \<Longrightarrow>
    rows d1 = (if r = None then apply_change (pend d i) (rows d) else rows d) \<and>
    pend d1 = (pend d)(i := ([], [])) \<and> (\<forall>e. r = Some e \<longrightarrow> (\<exists>m. e = Driver m))"
  by (drule read_committed_def [THEN iffD1, THEN conjunct2, THEN conjunct2, THEN conjunct2, THEN conjunct1, THEN spec [of _ i], THEN spec [of _ d]]) simp

lemma rc_rollback: "read_committed db rows pend \<Longrightarrow>
    rows (sh_rollback db i d) = rows d \<and> pend (sh_rollback db i d) = (pend d)(i := ([], []))"
  by (drule read_committed_def [THEN iffD1, THEN conjunct2, THEN conjunct2, THEN conjunct2, THEN conjunct2, THEN spec [of _ i], THEN spec [of _ d]]) simp

subsection \<open>The invariant\<close>

definition fits :: "payment \<Rightarrow> tables \<Rightarrow> bool" where
  "fits p t \<longleftrightarrow> (\<exists>r. fst t (payer p) = Some r \<and> sint (amount p) \<le> sint (balance r))"

definition answer :: "payment \<Rightarrow> string \<Rightarrow> payment" where
  "answer p k = p\<lparr>payment_id := k, status := ''charged''\<rparr>"

lemma answer_simps [simp]: "payer (answer p k) = payer p" "amount (answer p k) = amount p"
  by (simp_all add: answer_def)

fun holding :: "call \<Rightarrow> bool" where
  "holding At_insert = True"
| "holding (At_commit q) = True"
| "holding c = False"

fun call_ok :: "tables \<Rightarrow> change \<Rightarrow> payment \<Rightarrow> call \<Rightarrow> bool" where
  "call_ok t ch p At_begin \<longleftrightarrow> ch = ([], [])"
| "call_ok t ch p At_debit \<longleftrightarrow> ch = ([], [])"
| "call_ok t ch p At_insert \<longleftrightarrow> ch = ([(payer p, amount p)], []) \<and> fits p t"
| "call_ok t ch p (At_commit q) \<longleftrightarrow>
     ch = ([(payer p, amount p)], [q]) \<and> fits p t \<and> 0 < sint (amount p) \<and> (\<exists>k. q = answer p k)"
| "call_ok t ch p (At_rollback e) \<longleftrightarrow> (e = Overdraft \<longrightarrow> \<not> fits p t)"
| "call_ok t ch p (Ended r) \<longleftrightarrow> ch = ([], []) \<and>
     (case r of Returns q \<Rightarrow> \<exists>k. q = answer p k | Fails e \<Rightarrow> (e = Overdraft \<longrightarrow> \<not> fits p t) | Panics m \<Rightarrow> False)"

fun told :: "call \<Rightarrow> payment multiset" where
  "told (Ended (Returns q)) = {#q#}"
| "told c = {#}"

definition told_all :: "call list \<Rightarrow> payment multiset" where
  "told_all cs = sum_list (map told cs)"

text \<open>The committed tables are those of a serial run of the charges that returned.\<close>

inductive serial_from :: "tables \<Rightarrow> payment list \<Rightarrow> tables \<Rightarrow> bool" for t0 where
  none: "serial_from t0 [] t0"
| one_more: "serial_from t0 new t \<Longrightarrow> fst t (payer q) = Some r \<Longrightarrow> sint (amount q) \<le> sint (balance r) \<Longrightarrow> 0 < sint (amount q) \<Longrightarrow>
    serial_from t0 (new @ [q]) ((fst t)(payer q \<mapsto> r\<lparr>balance := balance r - amount q\<rparr>), snd t @ [q])"

definition bank_run_inv ::
  "tables \<Rightarrow> ('d \<Rightarrow> tables) \<Rightarrow> ('d \<Rightarrow> nat \<Rightarrow> change) \<Rightarrow> payment list \<Rightarrow> 'd bank_run \<Rightarrow> bool" where
  [inv_defs]: "bank_run_inv t0 rows pend ps s \<longleftrightarrow> length (calls s) = length ps \<and>
     (\<forall>i < length ps. call_ok (rows (database s)) (pend (database s) i) (ps ! i) (calls s ! i)) \<and>
     (\<forall>i \<ge> length ps. pend (database s) i = ([], [])) \<and>
     (\<forall>i < length ps. \<forall>j < length ps. i \<noteq> j \<and> holding (calls s ! i) \<and> holding (calls s ! j) \<longrightarrow> payer (ps ! i) \<noteq> payer (ps ! j)) \<and>
     (\<exists>new. serial_from t0 new (rows (database s)) \<and> mset new = told_all (calls s))"

lemma told_update: "i < length cs \<Longrightarrow> told_all (cs[i := c]) + told (cs ! i) = told_all cs + told c"
  unfolding told_all_def by (rule sum_list_map_update)

lemma holding_locks: "call_ok t ch p c \<Longrightarrow> holding c \<Longrightarrow> payer p \<in> locked ch"
  by (cases c) (simp_all add: locked_def)

lemma bank_run_invD:
  assumes "bank_run_inv t0 rows pend ps s"
  shows "length (calls s) = length ps"
    "j < length ps \<Longrightarrow> call_ok (rows (database s)) (pend (database s) j) (ps ! j) (calls s ! j)"
    "length ps \<le> j \<Longrightarrow> pend (database s) j = ([], [])"
    "j < length ps \<Longrightarrow> k < length ps \<Longrightarrow> j \<noteq> k \<Longrightarrow> holding (calls s ! j) \<Longrightarrow> holding (calls s ! k) \<Longrightarrow>
       payer (ps ! j) \<noteq> payer (ps ! k)"
    "\<exists>new. serial_from t0 new (rows (database s)) \<and> mset new = told_all (calls s)"
  using assms unfolding bank_run_inv_def by blast+

text \<open>A step that changes its own transaction only.\<close>

lemma quiet_inv:
  assumes inv: "bank_run_inv t0 rows pend ps s" and i: "i < length (calls s)"
    and d1: "rows d1 = rows (database s)" "\<And>j. j \<noteq> i \<Longrightarrow> pend d1 j = pend (database s) j"
    and ok: "call_ok (rows d1) (pend d1 i) (ps ! i) c" and told: "told c = told (calls s ! i)"
    and hold: "holding c \<Longrightarrow> holding (calls s ! i) \<or> (\<forall>j. j \<noteq> i \<longrightarrow> payer (ps ! i) \<notin> locked (pend (database s) j))"
  shows "bank_run_inv t0 rows pend ps (s\<lparr>calls := (calls s)[i := c], database := d1\<rparr>)"
proof -
  note D = bank_run_invD [OF inv]
  have len: "i < length ps" using i D(1) by simp
  have apart: "payer (ps ! i) \<noteq> payer (ps ! j)" if "j < length ps" "j \<noteq> i" "holding (calls s ! j)" "holding c" for j
    using hold [OF that(4)]
  proof
    assume "holding (calls s ! i)"
    then show ?thesis using D(4) [of i j] len that by simp
  next
    assume "\<forall>j. j \<noteq> i \<longrightarrow> payer (ps ! i) \<notin> locked (pend (database s) j)"
    then show ?thesis using holding_locks [OF D(2) [OF that(1)] that(3)] that(2) by metis
  qed
  have "told_all ((calls s)[i := c]) = told_all (calls s)" using told_update [OF i, of c] told by simp
  moreover have "\<forall>j < length ps. call_ok (rows d1) (pend d1 j) (ps ! j) ((calls s)[i := c] ! j)"
    using D(2) ok i d1 by (simp add: nth_list_update)
  moreover have "\<forall>j < length ps. \<forall>k < length ps. j \<noteq> k \<and> holding ((calls s)[i := c] ! j) \<and> holding ((calls s)[i := c] ! k) \<longrightarrow>
      payer (ps ! j) \<noteq> payer (ps ! k)"
    using D(4) apart apart [symmetric] i by (auto simp: nth_list_update)
  ultimately show ?thesis
    using D(1,3,5) len d1 unfolding bank_run_inv_def by simp
qed

text \<open>What a commit publishes.\<close>

lemma debit_one: "fst t c = Some r \<Longrightarrow> debit_all [(c, a)] (fst t) = (fst t)(c \<mapsto> r\<lparr>balance := balance r - a\<rparr>)"
  by (simp add: debit_all_def)

lemma fits_debited:
  assumes "fst t (payer p) = Some r" "sint (amount p) \<le> sint (balance r)" "0 < sint (amount p)"
    and t': "t' = ((fst t)(payer p \<mapsto> r\<lparr>balance := balance r - amount p\<rparr>), ps)"
  shows "payer q \<noteq> payer p \<Longrightarrow> fits q t' = fits q t" "fits q t' \<Longrightarrow> fits q t"
proof -
  have "sint (balance r - amount p) = sint (balance r) - sint (amount p)"
    using sint64_sub [of "balance r" "amount p"] assms(2,3) sint64_bounds [of "balance r"] sint64_bounds [of "amount p"] by simp
  then show "payer q \<noteq> payer p \<Longrightarrow> fits q t' = fits q t" "fits q t' \<Longrightarrow> fits q t"
    using assms by (auto simp: fits_def split: if_splits)
qed

lemma charge_all_snoc: "charge_all (ps @ [p]) f = snd (charge p (charge_all ps f))"
  by (induction ps arbitrary: f) simp_all

text \<open>The serial run is that of \<^verbatim>\<open>FakeStore\<close>, where every charge succeeds.\<close>

lemma serial_fake:
  "serial_from t0 new t \<Longrightarrow> snd t = snd t0 @ new \<and> fst t = accounts (charge_all new (as_fake n t0)) \<and>
     length (payments (charge_all new (as_fake n t0))) = length (snd t)"
  by (induction rule: serial_from.induct) (auto simp: as_fake_def charge_all_snoc charge_def Let_def)

lemma serial_balances:
  "serial_from t0 new t \<Longrightarrow> fst t0 c = Some r0 \<Longrightarrow> 0 \<le> sint (balance r0) \<Longrightarrow>
   \<exists>r. fst t c = Some r \<and> sint (balance r) = sint (balance r0) - paid c new \<and> 0 \<le> sint (balance r)"
proof (induction rule: serial_from.induct)
  case (one_more new t q r)
  have "sint (balance r - amount q) = sint (balance r) - sint (amount q)"
    using sint64_sub [of "balance r" "amount q"] one_more.hyps(3,4) sint64_bounds [of "balance r"] sint64_bounds [of "amount q"]
    by simp
  then show ?case using one_more by auto
qed simp

lemma commit_inv:
  assumes inv: "bank_run_inv t0 rows pend ps s" and i: "i < length (calls s)" and at: "calls s ! i = At_commit q"
    and d1: "rows d1 = apply_change (pend (database s) i) (rows (database s))"
      "pend d1 = (pend (database s))(i := ([], []))"
  shows "bank_run_inv t0 rows pend ps (s\<lparr>calls := (calls s)[i := Ended (Returns q)], database := d1\<rparr>)"
proof -
  note D = bank_run_invD [OF inv]
  let ?p = "ps ! i" and ?t = "rows (database s)" and ?cs = "(calls s)[i := Ended (Returns q)]"
  have len: "i < length ps" using i D(1) by simp
  obtain k where p: "pend (database s) i = ([(payer ?p, amount ?p)], [q])" "fits ?p ?t" "0 < sint (amount ?p)" "q = answer ?p k"
    using D(2) [OF len] at by auto
  obtain r where r: "fst ?t (payer ?p) = Some r" "sint (amount ?p) \<le> sint (balance r)"
    using p(2) by (auto simp: fits_def)
  have t1: "rows d1 = ((fst ?t)(payer ?p \<mapsto> r\<lparr>balance := balance r - amount ?p\<rparr>), snd ?t @ [q])"
    by (simp add: d1(1) p(1) apply_change_def debit_one [OF r(1)])
  note moved = fits_debited [OF r p(3) t1]
  have other: "call_ok (rows d1) (pend (database s) j) (ps ! j) (calls s ! j)" if j: "j < length ps" "j \<noteq> i" for j
  proof -
    have "holding (calls s ! j) \<Longrightarrow> payer (ps ! j) \<noteq> payer ?p" using D(4) [OF j(1) len j(2)] at by simp
    then show ?thesis
      using D(2) [OF j(1)] moved [of "ps ! j"] by (cases "calls s ! j") (auto split: tx_end.splits)
  qed
  have "\<forall>j < length ps. call_ok (rows d1) (pend d1 j) (ps ! j) (?cs ! j)"
    using other p(4) i d1(2) by (auto simp: nth_list_update)
  moreover have "\<forall>j < length ps. \<forall>k < length ps. j \<noteq> k \<and> holding (?cs ! j) \<and> holding (?cs ! k) \<longrightarrow> payer (ps ! j) \<noteq> payer (ps ! k)"
    using D(4) i by (auto simp: nth_list_update)
  moreover obtain new where new: "serial_from t0 new ?t" "mset new = told_all (calls s)" using D(5) by blast
  have "serial_from t0 (new @ [q]) (rows d1)"
    using serial_from.one_more [OF new(1), of q r] r p(3) unfolding t1 by (simp add: p(4))
  moreover have "mset (new @ [q]) = told_all ?cs" using told_update [OF i, of "Ended (Returns q)"] at new(2) by simp
  ultimately show ?thesis using D(1,3) len d1(2) unfolding bank_run_inv_def by auto
qed

lemma bank_step_inv:
  assumes rc: "read_committed db rows pend" and step: "bank_step db ps s s1" and inv: "bank_run_inv t0 rows pend ps s"
  shows "bank_run_inv t0 rows pend ps s1"
  using step
proof (cases rule: bank_step.cases)
  case (call i c d1)
  note D = bank_run_invD [OF inv]
  let ?p = "ps ! i" and ?d = "database s"
  have len: "i < length ps" using call(2) D(1) by simp
  note ok = D(2) [OF len]
  note quiet = quiet_inv [OF inv call(2), of d1 c, folded call(1)]
  show ?thesis
  proof (cases "calls s ! i")
    case At_begin
    obtain r d2 where b: "sh_begin db i ?d = (r, d2)" by fastforce
    from rc_begin [OF rc b] call(3) At_begin b show ?thesis
      by (intro quiet) (auto split: option.splits)
  next
    case At_debit
    obtain r d2 where b: "sh_debit db i (amount ?p) (payer ?p) ?d = Some (r, d2)"
      using call(3) At_debit by (auto split: option.splits)
    have d2: "d2 = d1" using call(3) At_debit b by (auto split: sum.splits)
    have seen: "apply_change (pend ?d i) (rows ?d) = rows ?d" using ok At_debit by (simp add: apply_change_def debit_all_def)
    show ?thesis
    proof (cases r)
      case (Inl e)
      with rc_debit [OF rc b] call(3) At_debit b d2 show ?thesis by (intro quiet) auto
    next
      case (Inr n)
      have fit: "fst (debit_row (amount ?p) (payer ?p) (rows ?d)) \<noteq> 0 \<longleftrightarrow> fits ?p (rows ?d)"
        by (auto simp: debit_row_def fits_def split: option.splits)
      from rc_debit [OF rc b] rc_debit_row [OF rc b [unfolded Inr]] call(3) At_debit b d2 Inr seen fit ok show ?thesis
        by (intro quiet) (auto split: if_splits)
    qed
  next
    case At_insert
    obtain r d2 where b: "sh_insert db i (payer ?p) (amount ?p) (currency ?p) ?d = (r, d2)" by fastforce
    have d2: "d2 = d1" using call(3) At_insert b by (auto split: sum.splits)
    show ?thesis
    proof (cases r)
      case (Inl e)
      with rc_insert [OF rc b] call(3) At_insert b d2 show ?thesis by (intro quiet) auto
    next
      case (Inr ks)
      obtain k t where ks: "ks = (k, t)" by fastforce
      have "\<lparr>payment_id = k, payer = payer ?p, amount = amount ?p, currency = currency ?p, status = ''charged''\<rparr> = answer ?p k"
        by (cases ?p) (simp add: answer_def)
      with rc_insert [OF rc b] rc_insert_row [OF rc b [unfolded Inr ks]] call(3) At_insert b d2 Inr ks ok show ?thesis
        by (intro quiet) auto
    qed
  next
    case (At_commit q)
    obtain r d2 where b: "sh_commit db i ?d = (r, d2)" by fastforce
    have d2: "d2 = d1" using call(3) At_commit b by (auto split: option.splits)
    show ?thesis
    proof (cases r)
      case None
      then have "c = Ended (Returns q)" using call(3) At_commit b by simp
      with commit_inv [OF inv call(2) At_commit, of d1] rc_commit [OF rc b] None d2 call(1) show ?thesis by simp
    next
      case (Some e)
      with rc_commit [OF rc b] call(3) At_commit b d2 show ?thesis by (intro quiet) auto
    qed
  next
    case (At_rollback e)
    with rc_rollback [OF rc, of i ?d] call(3) ok show ?thesis by (intro quiet) auto
  next
    case (Ended r)
    with call(3) show ?thesis by simp
  qed
qed

lemma start_calls_inv:
  assumes "pend d = (\<lambda>i. ([], []))"
  shows "bank_run_inv (rows d) rows pend ps (start_calls ps d)"
proof -
  have "told_all (replicate n At_begin) = {#}" for n by (induction n) (simp_all add: told_all_def)
  then show ?thesis
    using assms serial_from.none unfolding bank_run_inv_def start_calls_def by (auto intro: exI [of _ "[]"])
qed

lemma bank_steps_inv:
  assumes "read_committed db rows pend"
  shows "(bank_step db ps)\<^sup>*\<^sup>* s s1 \<Longrightarrow> bank_run_inv t0 rows pend ps s \<Longrightarrow> bank_run_inv t0 rows pend ps s1"
  by (induction rule: rtranclp_induct) (auto intro: bank_step_inv [OF assms])

definition left_all :: "call list \<Rightarrow> nat" where
  "left_all cs = sum_list (map statements_left cs)"

lemma bank_steps_bound: "(bank_step db ps ^^ n) s s1 \<Longrightarrow> n + left_all (calls s1) \<le> left_all (calls s)"
proof (induction n arbitrary: s1)
  case (Suc n)
  then obtain u where u: "(bank_step db ps ^^ n) s u" "bank_step db ps u s1" by auto
  from u(2) have "left_all (calls s1) < left_all (calls u)"
  proof (cases rule: bank_step.cases)
    case (call i c d)
    from call_step_less [OF call(3)] sum_list_map_update [OF call(2), of statements_left c] show ?thesis
      by (simp add: call(1) left_all_def)
  qed
  with Suc.IH [OF u(1)] show ?case by linarith
qed simp

text \<open>No deadlock: a call that waits for a row is waiting for one that does not wait.\<close>

lemma stuck_ended:
  assumes rc: "read_committed db rows pend" and inv: "bank_run_inv t0 rows pend ps s"
    and stuck: "\<nexists>t. bank_step db ps s t" and i: "i < length ps"
  shows "\<exists>r. calls s ! i = Ended r"
proof -
  note D = bank_run_invD [OF inv]
  have no: "call_step db j (ps ! j) (calls s ! j) (database s) = None" if "j < length ps" for j
  proof (rule ccontr)
    assume "call_step db j (ps ! j) (calls s ! j) (database s) \<noteq> None"
    then obtain c d where "call_step db j (ps ! j) (calls s ! j) (database s) = Some (c, d)" by force
    with stuck bank_step.call [of j s db ps c d] that D(1) show False by auto
  qed
  have quiet: "(\<exists>r. calls s ! j = Ended r) \<or> calls s ! j = At_debit" if "j < length ps" for j
    using no [OF that] by (cases "calls s ! j") (auto split: prod.splits option.splits sum.splits)
  have free: "locked (pend (database s) j) = {}" for j
  proof (cases "j < length ps")
    case True
    with quiet [OF True] D(2) [OF True] show ?thesis by (auto simp: locked_def)
  next
    case False
    with D(3) [of j] show ?thesis by (simp add: locked_def)
  qed
  have "calls s ! i \<noteq> At_debit"
  proof
    assume "calls s ! i = At_debit"
    then have "sh_debit db i (amount (ps ! i)) (payer (ps ! i)) (database s) = None"
      using no [OF i] by (auto split: option.splits sum.splits)
    from rc_wait [OF rc this] free show False by simp
  qed
  with quiet [OF i] show ?thesis by blast
qed

subsection \<open>Properties\<close>

text \<open>C35: concurrent charges on Postgres are serializable and do not deadlock: whatever the interleaving of
  their statements, at most four steps per call are possible, and where none is left every call has
  ended.  At any time the committed tables are those of \<^verbatim>\<open>FakeStore\<close> after some serial order of the
  charges that returned; every account holds what it started with less what was charged to it and
  never less than nothing; and a call answered \<^verbatim>\<open>ErrInsufficientFunds\<close> cannot be paid now either.\<close>

theorem charges_serializable:
  assumes "read_committed db rows pend" "pend d = (\<lambda>i. ([], []))" "(bank_step db ps ^^ n) (start_calls ps d) s"
  shows "n \<le> 4 * length ps \<and> ((\<nexists>t. bank_step db ps s t) \<longrightarrow> (\<forall>i < length ps. \<exists>r. calls s ! i = Ended r)) \<and>
    (\<exists>new. mset new = told_all (calls s) \<and> snd (rows (database s)) = snd (rows d) @ new \<and>
       fst (rows (database s)) = accounts (charge_all new (as_fake m (rows d))) \<and>
       length (payments (charge_all new (as_fake m (rows d)))) = length (snd (rows d)) + length new \<and>
       (\<forall>c r0. fst (rows d) c = Some r0 \<and> 0 \<le> sint (balance r0) \<longrightarrow>
          (\<exists>r. fst (rows (database s)) c = Some r \<and> sint (balance r) = sint (balance r0) - paid c new \<and> 0 \<le> sint (balance r)))) \<and>
    (\<forall>i < length ps. (\<forall>q. calls s ! i = Ended (Returns q) \<longrightarrow> (\<exists>k. q = answer (ps ! i) k)) \<and>
       (calls s ! i = Ended (Fails Overdraft) \<longrightarrow> \<not> fits (ps ! i) (rows (database s))))"
proof (intro conjI impI)
  show "n \<le> 4 * length ps"
    using bank_steps_bound [OF assms(3)] by (simp add: left_all_def start_calls_def sum_list_replicate)
  have inv: "bank_run_inv (rows d) rows pend ps s"
    using bank_steps_inv [OF assms(1) relpowp_imp_rtranclp [OF assms(3)] start_calls_inv [where rows = rows and pend = pend and d = d and ps = ps, OF assms(2)]] .
  show "\<forall>i < length ps. \<exists>r. calls s ! i = Ended r" if "\<nexists>t. bank_step db ps s t"
    using stuck_ended [OF assms(1) inv that] by blast
  note D = bank_run_invD [OF inv]
  obtain new where new: "serial_from (rows d) new (rows (database s))" "mset new = told_all (calls s)" using D(5) by blast
  show "\<exists>new. mset new = told_all (calls s) \<and> snd (rows (database s)) = snd (rows d) @ new \<and>
       fst (rows (database s)) = accounts (charge_all new (as_fake m (rows d))) \<and>
       length (payments (charge_all new (as_fake m (rows d)))) = length (snd (rows d)) + length new \<and>
       (\<forall>c r0. fst (rows d) c = Some r0 \<and> 0 \<le> sint (balance r0) \<longrightarrow>
          (\<exists>r. fst (rows (database s)) c = Some r \<and> sint (balance r) = sint (balance r0) - paid c new \<and> 0 \<le> sint (balance r)))"
    using serial_fake [OF new(1), of m] serial_balances [OF new(1)] new(2) by (intro exI [of _ new] conjI allI impI) simp_all
  have "(\<forall>q. calls s ! i = Ended (Returns q) \<longrightarrow> (\<exists>k. q = answer (ps ! i) k)) \<and>
       (calls s ! i = Ended (Fails Overdraft) \<longrightarrow> \<not> fits (ps ! i) (rows (database s)))" if "i < length ps" for i
    using D(2) [OF that] by (cases "calls s ! i") auto
  then show "\<forall>i < length ps. (\<forall>q. calls s ! i = Ended (Returns q) \<longrightarrow> (\<exists>k. q = answer (ps ! i) k)) \<and>
       (calls s ! i = Ended (Fails Overdraft) \<longrightarrow> \<not> fits (ps ! i) (rows (database s)))" by blast
qed

text \<open>A database with row locks for a fixed number of connections.\<close>

definition demo_pend :: "tables \<times> change list \<Rightarrow> nat \<Rightarrow> change" where
  "demo_pend d i = (if i < length (snd d) then snd d ! i else ([], []))"

definition demo_change :: "nat \<Rightarrow> change \<Rightarrow> tables \<times> change list \<Rightarrow> tables \<times> change list" where
  "demo_change i ch d = (fst d, (snd d)[i := ch])"

definition demo_locked :: "nat \<Rightarrow> string \<Rightarrow> tables \<times> change list \<Rightarrow> bool" where
  "demo_locked i c d = list_ex (\<lambda>j. j \<noteq> i \<and> c \<in> locked (snd d ! j)) [0..<length (snd d)]"

definition demo_shared :: "(tables \<times> change list) shared_db" where
  "demo_shared = \<lparr>sh_begin = (\<lambda>i d. (None, demo_change i ([], []) d)),
     sh_debit = (\<lambda>i a c d.
       if length (snd d) \<le> i then Some (Inl (Driver ''connection''), d)
       else if demo_locked i c d then None
       else let n = fst (debit_row a c (apply_change (demo_pend d i) (fst d)))
         in Some (Inr n, if n = 0 then d else demo_change i (fst (demo_pend d i) @ [(c, a)], snd (demo_pend d i)) d)),
     sh_insert = (\<lambda>i c a cur d.
       if length (snd d) \<le> i \<or> sint a \<le> 0 then (Inl (Driver ''amount_minor''), d)
       else let k = replicate (Suc (length (snd (fst d)))) (CHR ''p'')
         in (Inr (k, ''charged''), demo_change i (fst (demo_pend d i), snd (demo_pend d i) @
               [\<lparr>payment_id = k, payer = c, amount = a, currency = cur, status = ''charged''\<rparr>]) d)),
     sh_commit = (\<lambda>i d. (None, demo_change i ([], []) (apply_change (demo_pend d i) (fst d), snd d))),
     sh_rollback = (\<lambda>i d. demo_change i ([], []) d)\<rparr>"

lemma demo_change_pend: "demo_pend (demo_change i ([], []) d) = (demo_pend d)(i := ([], []))"
  "i < length (snd d) \<Longrightarrow> demo_pend (demo_change i ch d) i = ch"
  "j \<noteq> i \<Longrightarrow> demo_pend (demo_change i ch d) j = demo_pend d j"
  "fst (demo_change i ch d) = fst d" "demo_pend (t, snd d) = demo_pend d"
  by (auto simp: demo_pend_def demo_change_def fun_eq_iff nth_list_update)

lemma demo_locked_iff: "demo_locked i c d \<longleftrightarrow> (\<exists>j. j \<noteq> i \<and> c \<in> locked (demo_pend d j))"
proof -
  have "locked ([], []) = {}" by (simp add: locked_def)
  then show ?thesis by (auto simp: demo_locked_def demo_pend_def list_ex_iff split: if_splits)
qed

lemma demo_shared_read_committed: "read_committed demo_shared fst demo_pend"
  unfolding read_committed_def demo_shared_def
  by (auto simp: demo_change_pend demo_locked_iff Let_def)

text \<open>A schedule names the call that moves next.\<close>

fun run_schedule :: "'d shared_db \<Rightarrow> payment list \<Rightarrow> nat list \<Rightarrow> 'd bank_run \<Rightarrow> 'd bank_run option" where
  "run_schedule db ps [] s = Some s"
| "run_schedule db ps (i # is) s =
     (if length (calls s) \<le> i then None
      else case call_step db i (ps ! i) (calls s ! i) (database s) of
             None \<Rightarrow> None
           | Some (c, d) \<Rightarrow> run_schedule db ps is (s\<lparr>calls := (calls s)[i := c], database := d\<rparr>))"

lemma run_schedule_steps: "run_schedule db ps is s = Some t \<Longrightarrow> (bank_step db ps ^^ length is) s t"
proof (induction "is" arbitrary: s)
  case (Cons i "is")
  then obtain c d where i: "i < length (calls s)" "call_step db i (ps ! i) (calls s ! i) (database s) = Some (c, d)"
    "run_schedule db ps is (s\<lparr>calls := (calls s)[i := c], database := d\<rparr>) = Some t"
    by (auto split: if_splits option.splits)
  from bank_step.call [OF i(1,2)] Cons.IH [OF i(3)] show ?case
    by (simp add: relpowp_Suc_I2 del: relpowp.simps)
qed simp

text \<open>Two charges of an account that pays for one: the second waits for the row, then finds too little.\<close>

definition two_charges :: "payment list" where
  "two_charges = [demo_payment ''c'' 60, demo_payment ''c'' 70]"

definition two_start :: "tables \<times> change list" where
  "two_start = (demo_rows, [([], []), ([], [])])"

lemma two_interleaved:
  "run_schedule demo_shared two_charges [0, 1, 0, 1] (start_calls two_charges two_start) = None"
  "map_option calls (run_schedule demo_shared two_charges [0, 1, 0, 0, 0, 1, 1] (start_calls two_charges two_start)) =
     Some [Ended (Returns (answer (demo_payment ''c'' 60) ''p'')), Ended (Fails Overdraft)]"
  by code_simp+

theorem charges_serializable_witness:
  "\<exists>s. run_schedule demo_shared two_charges [0, 1, 0, 0, 0, 1, 1] (start_calls two_charges two_start) = Some s \<and>
     snd (fst (database s)) = [answer (demo_payment ''c'' 60) ''p''] \<and>
     \<not> fits (demo_payment ''c'' 70) (fst (database s)) \<and>
     (\<exists>r. fst (fst (database s)) ''c'' = Some r \<and> sint (balance r) = 40)"
proof -
  obtain s where s: "run_schedule demo_shared two_charges [0, 1, 0, 0, 0, 1, 1] (start_calls two_charges two_start) = Some s"
    "calls s = [Ended (Returns (answer (demo_payment ''c'' 60) ''p'')), Ended (Fails Overdraft)]"
    using two_interleaved(2) by (auto simp: map_option_eq_Some)
  have quiet: "demo_pend two_start = (\<lambda>i. ([], []))" by (auto simp: demo_pend_def two_start_def fun_eq_iff nth_Cons split: nat.split)
  note all = charges_serializable [OF demo_shared_read_committed quiet run_schedule_steps [OF s(1)], of 0]
  obtain new where new: "mset new = told_all (calls s)" "snd (fst (database s)) = snd (fst two_start) @ new"
    "\<forall>c r0. fst (fst two_start) c = Some r0 \<and> 0 \<le> sint (balance r0) \<longrightarrow>
       (\<exists>r. fst (fst (database s)) c = Some r \<and> sint (balance r) = sint (balance r0) - paid c new \<and> 0 \<le> sint (balance r))"
    using all by blast
  have one: "new = [answer (demo_payment ''c'' 60) ''p'']" using new(1) s(2) by (simp add: told_all_def)
  have "calls s ! 1 = Ended (Fails Overdraft)" "1 < length two_charges" by (simp_all add: s(2) two_charges_def)
  with all have "\<not> fits (two_charges ! 1) (fst (database s))" by blast
  moreover have "two_charges ! 1 = demo_payment ''c'' 70" by (simp add: two_charges_def)
  moreover have "paid ''c'' new = 60" unfolding one by (simp add: paid_def demo_payment_def)
  moreover have "fst (fst two_start) ''c'' = Some \<lparr>owner = ''c'', balance = 100, acct_currency = ''USD''\<rparr>"
    "snd (fst two_start) = []" by (simp_all add: two_start_def demo_rows_def)
  moreover from this(1) new(3) have "\<exists>r. fst (fst (database s)) ''c'' = Some r \<and> sint (balance r) = 100 - paid ''c'' new"
    by fastforce
  ultimately show ?thesis using s(1) new(2) unfolding one by (intro exI [of _ s]) simp
qed

end
