(* ===== verification/Platform.thy ===== *)
theory Platform
  imports Complex_Main Middleware
begin

text \<open>
  The rest of the platform packages under \<^verbatim>\<open>14-backend-development/examples/service/internal/platform\<close>:
  the request-scoped logger and the access log of \<^verbatim>\<open>httpmw\<close>, \<^verbatim>\<open>Decode\<close> of \<^verbatim>\<open>httpjson\<close>, and the
  set-up of \<^verbatim>\<open>otelwiring\<close>.  A logger is the list of attributes it adds to each line; a logged
  handler also gets the logger its context carries and appends to the list of lines.  The JSON
  decoder, the exporter and the SDK are parameters.
\<close>

subsection \<open>Loggers\<close>

type_synonym attrs = "(string \<times> string) list"

record log_line =
  line_attrs :: attrs
  line_msg :: string
  line_fields :: attrs

type_synonym 's logged = "attrs option \<Rightarrow> ('s \<times> log_line list) handler"

definition from_context :: "attrs \<Rightarrow> attrs option \<Rightarrow> attrs" where
  "from_context dflt ctx = (case ctx of Some l \<Rightarrow> l | None \<Rightarrow> dflt)"

definition scoped_log :: "attrs \<Rightarrow> string \<Rightarrow> (string \<times> string) option \<Rightarrow> 's logged \<Rightarrow> 's logged" where
  "scoped_log base rid sc h ctx r s =
     (let logger = base @ [(''request_id'', rid)] @
            (case sc of None \<Rightarrow> [] | Some (t, i) \<Rightarrow> [(''trace_id'', t), (''span_id'', i)])
      in case h (Some logger) r s of ((ops, p), s1) \<Rightarrow> ((Set_header ''X-Request-ID'' rid # ops, p), s1))"

definition access_log :: "attrs \<Rightarrow> string \<Rightarrow> 's logged \<Rightarrow> 's logged" where
  "access_log dflt dur h ctx r s =
     (case h ctx r s of
        ((ops, Some p), s1) \<Rightarrow> ((ops, Some p), s1)
      | ((ops, None), s1) \<Rightarrow>
          ((ops, None),
           (fst s1, snd s1 @ [\<lparr>line_attrs = from_context dflt ctx, line_msg = ''http'',
              line_fields = [(''method'', req_method r), (''path'', req_path r),
                             (''status'', int_text (status_writer 0 ops)), (''dur'', dur)]\<rparr>])))"

definition recover_log :: "attrs \<Rightarrow> 's logged \<Rightarrow> 's logged" where
  "recover_log dflt h ctx r s =
     (case h ctx r s of
        ((ops, None), s1) \<Rightarrow> ((ops, None), s1)
      | ((ops, Some p), s1) \<Rightarrow>
          ((ops @ (if status_writer 0 ops = 0 then http_error ''internal error'' 500 else []), None),
           (fst s1, snd s1 @ [\<lparr>line_attrs = from_context dflt ctx, line_msg = ''panic'',
              line_fields = [(''rec'', p), (''path'', req_path r)]\<rparr>])))"

subsection \<open>Decode\<close>

text \<open>A body read through \<^verbatim>\<open>MaxBytesReader\<close>: what can be read, and whether the limit then fails the read.\<close>

definition max_body_bytes :: nat where
  "max_body_bytes = 2 ^ 20"

definition max_bytes_reader :: "string \<Rightarrow> nat \<Rightarrow> string \<times> bool" where
  "max_bytes_reader content n = (take n content, n < length content)"

datatype 'e decode_error = Body_too_large | Decode_body 'e

text \<open>\<open>decoder\<close> reads one value from the stream, unknown fields disallowed by its first argument.\<close>

definition decode ::
  "(bool \<Rightarrow> string \<times> bool \<Rightarrow> 'e + 'a \<times> string \<times> bool) \<Rightarrow> request \<Rightarrow> 'e decode_error + 'a" where
  "decode decoder r =
     (case decoder True (max_bytes_reader (req_body r) max_body_bytes) of
        Inl e \<Rightarrow> Inl (Decode_body e)
      | Inr (v, rest) \<Rightarrow> Inr v)"

subsection \<open>otelwiring\<close>

text \<open>A \<^verbatim>\<open>float64\<close> as far as \<^verbatim>\<open>ratio\<close> compares it.\<close>

datatype float64 = Finite rat | Pos_inf | Neg_inf | Not_a_number

fun at_most_0 :: "float64 \<Rightarrow> bool" where
  "at_most_0 (Finite q) \<longleftrightarrow> q \<le> 0"
| "at_most_0 Neg_inf \<longleftrightarrow> True"
| "at_most_0 x \<longleftrightarrow> False"

fun above_1 :: "float64 \<Rightarrow> bool" where
  "above_1 (Finite q) \<longleftrightarrow> q > 1"
| "above_1 Pos_inf \<longleftrightarrow> True"
| "above_1 x \<longleftrightarrow> False"

definition ratio :: "(string \<Rightarrow> float64 option) \<Rightarrow> (string \<Rightarrow> string) \<Rightarrow> float64" where
  "ratio sscanf getenv =
     (let v = getenv ''OTEL_TRACES_SAMPLER_ARG''
      in if v = [] \<or> v = ''1'' then Finite 1
         else case sscanf v of
                None \<Rightarrow> Finite 1
              | Some f \<Rightarrow> if at_most_0 f \<or> above_1 f then Finite 1 else f)"

record 'res provider =
  sampled :: float64
  resource :: 'res

text \<open>What \<^verbatim>\<open>Init\<close> returns to be called at shutdown: nothing to do, or a flush of the provider within a bound.\<close>

datatype 'res shutdown_fn = No_op | Flush "'res provider" duration

datatype 'e otel_error = Exporter 'e | Resource 'e

definition otel_init ::
  "(string \<Rightarrow> float64 option) \<Rightarrow> (string \<Rightarrow> string) \<Rightarrow> 'e option \<Rightarrow> ('e + 'res) \<Rightarrow>
   'e otel_error + 'res shutdown_fn" where
  "otel_init sscanf getenv exporter merged =
     (if getenv ''OTEL_EXPORTER_OTLP_ENDPOINT'' = [] \<or> getenv ''OTEL_SDK_DISABLED'' = ''1'' then Inr No_op
      else case exporter of
             Some e \<Rightarrow> Inl (Exporter e)
           | None \<Rightarrow>
               (case merged of
                  Inl e \<Rightarrow> Inl (Resource e)
                | Inr res \<Rightarrow> Inr (Flush \<lparr>sampled = ratio sscanf getenv, resource = res\<rparr> (5 * 1000000000))))"

definition run_shutdown :: "('res provider \<Rightarrow> duration \<Rightarrow> 'e option) \<Rightarrow> 'res shutdown_fn \<Rightarrow> 'e option" where
  "run_shutdown flush f = (case f of No_op \<Rightarrow> None | Flush tp bound \<Rightarrow> flush tp bound)"

subsection \<open>Lemmas\<close>

text \<open>The request ID reaches the panic line only when \<^verbatim>\<open>Recover\<close> runs inside \<^verbatim>\<open>ScopedLogger\<close>; the order of
  \<^verbatim>\<open>Routes\<close> is the other one.\<close>

lemma panic_line_unscoped:
  assumes "h (Some (base @ [(''request_id'', rid)])) r (s, ls) = ((ops, Some p), (s1, ls1))"
  shows "snd (snd (recover_log dflt (scoped_log base rid None h) None r (s, ls))) =
      ls1 @ [\<lparr>line_attrs = dflt, line_msg = ''panic'', line_fields = [(''rec'', p), (''path'', req_path r)]\<rparr>]"
    and "snd (snd (scoped_log base rid None (recover_log dflt h) None r (s, ls))) =
      ls1 @ [\<lparr>line_attrs = base @ [(''request_id'', rid)], line_msg = ''panic'',
              line_fields = [(''rec'', p), (''path'', req_path r)]\<rparr>]"
  using assms by (simp_all add: recover_log_def scoped_log_def from_context_def)

text \<open>The decoder reads one value, so what follows it in the body is not looked at.\<close>

lemma trailing_data_accepted:
  "decoder True (max_bytes_reader (req_body r) max_body_bytes) = Inr (v, rest) \<Longrightarrow> decode decoder r = Inr v"
  by (simp add: decode_def)

lemma decode_not_too_large: "decode decoder r \<noteq> Inl Body_too_large"
  by (auto simp: decode_def split: sum.split)

text \<open>A sampling ratio from the environment lies in the unit interval, unless it is not a number.\<close>

lemma ratio_range:
  "ratio sscanf getenv = Not_a_number \<or> (\<exists>q. ratio sscanf getenv = Finite q \<and> 0 < q \<and> q \<le> 1)"
proof (cases "sscanf (getenv ''OTEL_TRACES_SAMPLER_ARG'')")
  case (Some f)
  then show ?thesis by (cases f) (auto simp: ratio_def Let_def)
qed (simp add: ratio_def Let_def)

lemma ratio_nan:
  "getenv ''OTEL_TRACES_SAMPLER_ARG'' = ''NaN'' \<Longrightarrow> sscanf ''NaN'' = Some Not_a_number \<Longrightarrow>
   ratio sscanf getenv = Not_a_number"
  by (simp add: ratio_def)

text \<open>The kill switch and an empty endpoint need no exporter, and their shutdown cannot fail.\<close>

lemma otel_off:
  "otel_init sscanf getenv exporter merged = Inr No_op \<longleftrightarrow>
     getenv ''OTEL_EXPORTER_OTLP_ENDPOINT'' = [] \<or> getenv ''OTEL_SDK_DISABLED'' = ''1''"
  "run_shutdown flush No_op = None"
  by (auto simp: otel_init_def run_shutdown_def split: option.split sum.split)

subsection \<open>Properties\<close>

text \<open>The access log around \<^verbatim>\<open>Recover\<close> writes one line for every request, panics included, with the
  status the client got, or \<^verbatim>\<open>0\<close> when the handler wrote nothing and the client got 200.\<close>

theorem access_log_once:
  assumes "h ctx r (s, ls) = ((ops, p), (s1, ls @ new))" "final_ops ops"
    and "access_log dflt dur (recover_log dflt h) ctx r (s, ls) = ((ops', p'), (s2, ls2))"
  shows "p' = None \<and> s2 = s1 \<and>
    ls2 = ls @ new @ (case p of None \<Rightarrow> [] | Some x \<Rightarrow> [\<lparr>line_attrs = from_context dflt ctx, line_msg = ''panic'',
        line_fields = [(''rec'', x), (''path'', req_path r)]\<rparr>]) @
      [\<lparr>line_attrs = from_context dflt ctx, line_msg = ''http'',
        line_fields = [(''method'', req_method r), (''path'', req_path r),
          (''status'', int_text (if p = None \<and> status_writer 0 ops = 0 then 0 else wire_status ops')), (''dur'', dur)]\<rparr>]"
proof (cases p)
  case None
  then show ?thesis
    using assms status_writer_wire [OF assms(2)] by (auto simp: access_log_def recover_log_def)
next
  case (Some x)
  let ?ops = "ops @ (if status_writer 0 ops = 0 then http_error ''internal error'' 500 else [])"
  have fin: "final_ops ?ops" using assms(2) by (simp add: final_ops_def http_error_def informational_def)
  have "status_writer 0 ?ops \<noteq> 0"
    using assms(2) by (induction "0 :: int" ops rule: status_writer.induct) (auto simp: http_error_def final_ops_def)
  then have "status_writer 0 ?ops = wire_status ?ops" using status_writer_wire [OF fin] by simp
  then show ?thesis using assms(1,3) Some by (auto simp: access_log_def recover_log_def)
qed

theorem access_log_once_witness:
  "snd (snd (access_log [] ''1ms'' (recover_log [] (\<lambda>ctx r s. (([], Some ''boom''), s))) None
     \<lparr>req_method = ''GET'', req_path = ''/x'', req_pattern = [], req_authorization = [], req_body = []\<rparr> ((), []))) =
   [\<lparr>line_attrs = [], line_msg = ''panic'', line_fields = [(''rec'', ''boom''), (''path'', ''/x'')]\<rparr>,
    \<lparr>line_attrs = [], line_msg = ''http'', line_fields = [(''method'', ''GET''), (''path'', ''/x''), (''status'', int_text 500), (''dur'', ''1ms'')]\<rparr>]"
proof -
  let ?h = "\<lambda>ctx r (s :: unit \<times> log_line list). (([] :: wop list, Some ''boom''), s)"
  let ?r = "\<lparr>req_method = ''GET'', req_path = ''/x'', req_pattern = [], req_authorization = [], req_body = []\<rparr>"
  have run: "access_log [] ''1ms'' (recover_log [] ?h) None ?r ((), []) =
      ((http_error ''internal error'' 500, None), ((), snd (snd (access_log [] ''1ms'' (recover_log [] ?h) None ?r ((), [])))))"
    by (simp add: access_log_def recover_log_def)
  have "?h None ?r ((), []) = (([], Some ''boom''), ((), [] @ []))" by simp
  from access_log_once [OF this _ run] show ?thesis
    by (simp add: final_ops_def from_context_def informational_def)
qed

text \<open>Inside \<^verbatim>\<open>Recover\<close> the access log writes nothing for a request that panics.\<close>

lemma access_log_inside:
  "h ctx r s = ((ops, Some p), s1) \<Longrightarrow>
   snd (recover_log dflt (access_log dflt dur h) ctx r s) =
     (fst s1, snd s1 @ [\<lparr>line_attrs = from_context dflt ctx, line_msg = ''panic'',
        line_fields = [(''rec'', p), (''path'', req_path r)]\<rparr>])"
  by (simp add: recover_log_def access_log_def)

end
