(* ===== verification/Payments_Metrics.thy ===== *)
theory Payments_Metrics
  imports Payments
begin

text \<open>
  \<^verbatim>\<open>internal/payments/metrics.go\<close> and the registration of \<^verbatim>\<open>internal/platform/obshttp\<close>, under
  \<^verbatim>\<open>14-backend-development/examples/service\<close>.  A registry is the list of registered names, a
  counter a map from its label to a number; a nil pointer is \<open>None\<close>.  The events of
  \<open>Payments.svc_charge\<close> are the calls of the two emit helpers.
\<close>

subsection \<open>Registration\<close>

text \<open>\<^verbatim>\<open>MustRegister\<close> panics on a name that is taken: \<open>None\<close>.\<close>

definition must_register :: "string list \<Rightarrow> string list \<Rightarrow> string list option" where
  "must_register names reg = (if distinct (reg @ names) then Some (reg @ names) else None)"

record payment_metrics =
  charged :: "string \<Rightarrow> nat"
  failed :: "string \<Rightarrow> nat"
  charge_otel :: "(string \<times> int64) list option"
  tracer :: bool

definition new_payment_metrics ::
  "(string \<times> int64) list option \<Rightarrow> string list \<Rightarrow> (payment_metrics \<times> string list) option" where
  "new_payment_metrics otel reg =
     map_option (Pair \<lparr>charged = \<lambda>_. 0, failed = \<lambda>_. 0, charge_otel = otel, tracer = False\<rparr>)
       (must_register [''payments_charged_total'', ''payments_failed_total''] reg)"

definition new_red_metrics :: "string list \<Rightarrow> string list option" where
  "new_red_metrics reg =
     must_register [''http_requests_total'', ''http_errors_total'', ''http_request_duration_seconds''] reg"

definition with_tracer :: "payment_metrics \<Rightarrow> payment_metrics" where
  "with_tracer m = m\<lparr>tracer := True\<rparr>"

subsection \<open>Emit helpers\<close>

definition emit_charged :: "string \<Rightarrow> int64 \<Rightarrow> payment_metrics option \<Rightarrow> payment_metrics option" where
  "emit_charged cur amt m =
     (case m of
        None \<Rightarrow> None
      | Some x \<Rightarrow>
          let x1 = x\<lparr>charged := (charged x)(cur := charged x cur + 1)\<rparr>
          in Some (case charge_otel x1 of None \<Rightarrow> x1 | Some c \<Rightarrow> x1\<lparr>charge_otel := Some (c @ [(cur, amt)])\<rparr>))"

definition emit_failed :: "string \<Rightarrow> payment_metrics option \<Rightarrow> payment_metrics option" where
  "emit_failed reason m =
     (case m of None \<Rightarrow> None | Some x \<Rightarrow> Some (x\<lparr>failed := (failed x)(reason := failed x reason + 1)\<rparr>))"

text \<open>The span a charge opens: \<open>None\<close> is the no-op span.\<close>

definition charge_span :: "payment_metrics option \<Rightarrow> charge_input \<Rightarrow> (string \<times> string \<times> int64) option" where
  "charge_span m i =
     (case m of
        None \<Rightarrow> None
      | Some x \<Rightarrow> if tracer x then Some (''payments.charge'', in_currency i, in_amount i) else None)"

fun record_event :: "event \<Rightarrow> payment_metrics option \<Rightarrow> payment_metrics option" where
  "record_event (Emit_charged cur amt) m = emit_charged cur amt m"
| "record_event (Emit_failed reason) m = emit_failed reason m"

text \<open>A sequence of charges with the counters they move, over the store.\<close>

fun charge_all ::
  "'s service \<Rightarrow> (instant \<times> charge_input) list \<Rightarrow> 's \<times> payment_metrics option \<Rightarrow> 's \<times> payment_metrics option" where
  "charge_all svc [] st = st"
| "charge_all svc ((now, i) # cs) st =
     (case svc_charge svc now i (fst st) of
        ((r, ev), s1) \<Rightarrow> charge_all svc cs (s1, fold record_event ev (snd st)))"

subsection \<open>Lemmas\<close>

lemma emit_nil [simp]: "emit_charged cur amt None = None" "emit_failed reason None = None"
  by (simp_all add: emit_charged_def emit_failed_def)

lemma record_nil: "fold record_event ev None = None"
proof (induction ev)
  case (Cons e ev)
  then show ?case by (cases e) simp_all
qed simp

lemma charged_emitted [simp]:
  "\<exists>y. emit_charged cur amt (Some x) = Some y \<and> charged y = (charged x)(cur := charged x cur + 1) \<and>
     failed y = failed x \<and> charge_otel y = map_option (\<lambda>c. c @ [(cur, amt)]) (charge_otel x)"
  by (cases "charge_otel x") (simp_all add: emit_charged_def Let_def)

text \<open>\<^verbatim>\<open>main\<close> registers both bundles on a private registry; a second registration panics.\<close>

lemma registered_once:
  "Option.bind (new_payment_metrics otel []) (\<lambda>(m, reg). new_red_metrics reg) =
     Some [''payments_charged_total'', ''payments_failed_total'',
           ''http_requests_total'', ''http_errors_total'', ''http_request_duration_seconds'']"
  "Option.bind (new_payment_metrics otel []) (\<lambda>(m, reg). new_payment_metrics otel' reg) = None"
  by (simp_all add: new_payment_metrics_def new_red_metrics_def must_register_def)

text \<open>How many of the payments have the currency; how many of the inputs are invalid.\<close>

definition in_cur :: "string \<Rightarrow> payment list \<Rightarrow> nat" where
  "in_cur cur ps = length (filter (\<lambda>p. currency p = cur) ps)"

definition refused :: "(string \<Rightarrow> string) \<Rightarrow> (instant \<times> charge_input) list \<Rightarrow> nat" where
  "refused uu cs = length (filter (\<lambda>c. validate uu (snd c) \<noteq> []) cs)"

lemma refused_simps [simp]: "refused uu [] = 0"
  "refused uu ((now, i) # cs) = (if validate uu i = [] then 0 else 1) + refused uu cs"
  by (simp_all add: refused_def)

lemma charge_all_counts:
  assumes "store svc = memory_ops" "metrics svc" "mem_ok m" "length (mem_view m) + length cs \<le> 2 ^ 62"
  shows "\<exists>m' x'. charge_all svc cs (m, Some x) = (m', Some x') \<and> mem_ok m' \<and>
    length (mem_view m') + refused (upper svc) cs = length (mem_view m) + length cs \<and>
    (\<forall>cur. charged x' cur + in_cur cur (mem_view m) = charged x cur + in_cur cur (mem_view m')) \<and>
    (\<forall>r. failed x' r = failed x r + (if r = ''validation'' then refused (upper svc) cs else 0))"
  using assms(3,4)
proof (induction cs arbitrary: m x)
  case Nil
  then show ?case by simp
next
  case (Cons c cs)
  obtain now i where c: "c = (now, i)" by fastforce
  show ?case
  proof (cases "validate (upper svc) i = []")
    case False
    define y where "y = x\<lparr>failed := (failed x)(''validation'' := failed x ''validation'' + 1)\<rparr>"
    have "svc_charge svc now i m = ((Inl (Validation (validate (upper svc) i)), [Emit_failed ''validation'']), m)"
      using False assms(2) by (simp add: svc_charge_def emit_def)
    then have run: "charge_all svc (c # cs) (m, Some x) = charge_all svc cs (m, Some y)"
      by (simp add: c emit_failed_def y_def)
    have "length (mem_view m) + length cs \<le> 2 ^ 62" using Cons.prems(2) by simp
    from Cons.IH [OF Cons.prems(1) this, of y] obtain m' x' where "charge_all svc cs (m, Some y) = (m', Some x')" "mem_ok m'"
      "length (mem_view m') + refused (upper svc) cs = length (mem_view m) + length cs"
      "\<forall>cur. charged x' cur + in_cur cur (mem_view m) = charged y cur + in_cur cur (mem_view m')"
      "\<forall>r. failed x' r = failed y r + (if r = ''validation'' then refused (upper svc) cs else 0)" by blast
    then show ?thesis unfolding run using False by (intro exI [of _ m'] exI [of _ x']) (simp add: c y_def)
  next
    case True
    have "length (mem_view m) < 2 ^ 62" using Cons.prems(2) by simp
    from ms.charge_valid [OF Cons.prems(1) this True assms(1), of now] obtain p m1 where
      p: "svc_charge svc now i m = ((Inr p, [Emit_charged (in_currency i) (in_amount i)]), m1)"
        "mem_ok m1" "mem_view m1 = mem_view m @ [p]" "currency p = in_currency i"
      using assms(2) by (auto simp: emit_def)
    obtain y where y: "emit_charged (in_currency i) (in_amount i) (Some x) = Some y"
      "charged y = (charged x)(in_currency i := charged x (in_currency i) + 1)" "failed y = failed x"
      using charged_emitted by blast
    have run: "charge_all svc (c # cs) (m, Some x) = charge_all svc cs (m1, Some y)"
      using p(1) y(1) by (simp add: c)
    have "length (mem_view m1) + length cs \<le> 2 ^ 62" using Cons.prems(2) p(3) by simp
    from Cons.IH [OF p(2) this, of y] obtain m' x' where ih: "charge_all svc cs (m1, Some y) = (m', Some x')" "mem_ok m'"
      "length (mem_view m') + refused (upper svc) cs = length (mem_view m1) + length cs"
      "\<And>cur. charged x' cur + in_cur cur (mem_view m1) = charged y cur + in_cur cur (mem_view m')"
      "\<forall>r. failed x' r = failed y r + (if r = ''validation'' then refused (upper svc) cs else 0)" by blast
    have "charged x' cur + in_cur cur (mem_view m) = charged x cur + in_cur cur (mem_view m')" for cur
      using ih(4) [of cur] p(3,4) y(2) by (auto simp: in_cur_def split: if_splits)
    then show ?thesis
      unfolding run using True ih(1-3,5) p(3) y(3) by (intro exI [of _ m'] exI [of _ x']) (simp add: c)
  qed
qed

text \<open>A service without metrics works the same on the store.\<close>

lemma metrics_gate_nothing:
  "fst (charge_all svc cs (s, x)) = fst (charge_all (svc\<lparr>metrics := b\<rparr>) cs (s, y))"
proof (induction cs arbitrary: s x y)
  case (Cons c cs)
  obtain now i where c: "c = (now, i)" by fastforce
  obtain r ev s1 where "svc_charge svc now i s = ((r, ev), s1)" by (metis prod.exhaust)
  moreover from this obtain ev' where "svc_charge (svc\<lparr>metrics := b\<rparr>) now i s = ((r, ev'), s1)"
    by (auto simp: svc_charge_def Let_def split: prod.splits sum.splits if_splits)
  ultimately show ?case using Cons.IH by (simp add: c)
qed simp

subsection \<open>Properties\<close>

text \<open>The business counters agree with the store: after any charges on a new store and new metrics, the
  charged counter of a currency is the number of payments stored in it, the validation counter is the
  number of invalid inputs, every input is one or the other, and without metrics the store is the same.\<close>

theorem counters_agree:
  assumes "store svc = memory_ops" "metrics svc" "length cs \<le> 2 ^ 62"
    and "new_payment_metrics otel reg = Some (x, reg')"
    and "charge_all svc cs (new_memory_store, Some x) = (m, mx)"
  shows "(\<exists>x'. mx = Some x' \<and> (\<forall>cur. charged x' cur = in_cur cur (mem_view m)) \<and>
      failed x' ''validation'' = refused (upper svc) cs) \<and>
    length (mem_view m) + refused (upper svc) cs = length cs \<and>
    charge_all (svc\<lparr>metrics := False\<rparr>) cs (new_memory_store, None) = (m, None)"
proof -
  have v: "mem_view new_memory_store = []" by (simp add: mem_view_def new_memory_store_def)
  have x: "charged x cur = 0" "failed x r = 0" for cur r
    using assms(4) by (auto simp: new_payment_metrics_def)
  have len: "length (mem_view new_memory_store) + length cs \<le> 2 ^ 62" using v assms(3) by simp
  obtain m' x' where run: "charge_all svc cs (new_memory_store, Some x) = (m', Some x')"
    "length (mem_view m') + refused (upper svc) cs = length (mem_view new_memory_store) + length cs"
    "\<forall>cur. charged x' cur + in_cur cur (mem_view new_memory_store) = charged x cur + in_cur cur (mem_view m')"
    "\<forall>r. failed x' r = failed x r + (if r = ''validation'' then refused (upper svc) cs else 0)"
    using charge_all_counts [OF assms(1,2) mem_ok_new(1) len, of x] by blast
  have nil: "snd (charge_all (svc\<lparr>metrics := False\<rparr>) cs (s, None)) = None" for s
    by (induction cs arbitrary: s) (auto simp: record_nil split: prod.split)
  have "fst (charge_all (svc\<lparr>metrics := False\<rparr>) cs (new_memory_store, None)) = m"
    using metrics_gate_nothing [of svc cs new_memory_store "Some x" False None] assms(5) by simp
  with nil have "charge_all (svc\<lparr>metrics := False\<rparr>) cs (new_memory_store, None) = (m, None)"
    by (metis prod.collapse)
  then show ?thesis using run assms(5) v x by (simp add: in_cur_def)
qed

definition memory_ops_service :: "memory_store service" where
  "memory_ops_service = \<lparr>store = memory_ops, metrics = True, upper = \<lambda>s. s\<rparr>"

theorem counters_agree_witness:
  "\<exists>m x'. charge_all memory_ops_service [(1, \<lparr>in_customer = ''c'', in_amount = 5, in_currency = ''EUR''\<rparr>),
       (2, \<lparr>in_customer = ''c'', in_amount = 0, in_currency = ''EUR''\<rparr>)]
     (new_memory_store, Some \<lparr>charged = \<lambda>_. 0, failed = \<lambda>_. 0, charge_otel = None, tracer = False\<rparr>) = (m, Some x') \<and>
     charged x' ''EUR'' = in_cur ''EUR'' (mem_view m) \<and> length (mem_view m) + failed x' ''validation'' = 2"
proof -
  let ?cs = "[(1, \<lparr>in_customer = ''c'', in_amount = 5, in_currency = ''EUR''\<rparr>),
       (2, \<lparr>in_customer = ''c'', in_amount = 0, in_currency = ''EUR''\<rparr>)] :: (instant \<times> charge_input) list"
  let ?x = "\<lparr>charged = \<lambda>_. 0, failed = \<lambda>_. 0, charge_otel = None, tracer = False\<rparr>"
  obtain m mx where run: "charge_all memory_ops_service ?cs (new_memory_store, Some ?x) = (m, mx)" by fastforce
  have "new_payment_metrics None [] = Some (?x, [''payments_charged_total'', ''payments_failed_total''])"
    by (simp add: new_payment_metrics_def must_register_def)
  from counters_agree [OF _ _ _ this run] show ?thesis using run by (auto simp: memory_ops_service_def simp del: charge_all.simps refused_simps)
qed

end
