(* ===== verification/Service_Program.thy ===== *)
theory Service_Program
  imports Config Lifecycle Payments_Http Payments_Metrics Platform
begin

text \<open>
  The payments service of \<^verbatim>\<open>14-backend-development/examples/service\<close> as one program: \<^verbatim>\<open>main.go\<close> puts the
  configuration, the metrics, the store, the transport and the middleware together.  The first part serves
  requests through the outer mux; the second runs the process from its environment.
\<close>

subsection \<open>Serving\<close>

type_synonym served = "(memory_store \<times> event list) \<times> red_entry list"

definition is_scrape :: "request \<Rightarrow> bool" where
  "is_scrape r \<longleftrightarrow> req_path r = ''/metrics'' \<and> (req_method r = ''GET'' \<or> req_method r = ''HEAD'')"

text \<open>Requests one after another, each with its instant and request ID; every response is kept.\<close>

fun serve_all ::
  "served handler \<Rightarrow> memory_store api \<Rightarrow> (instant \<times> string \<times> request) list \<Rightarrow> served \<Rightarrow>
   (request \<times> wop list \<times> string option) list \<times> served" where
  "serve_all promhttp a [] st = ([], st)"
| "serve_all promhttp a ((now, rid, r) # rs) st =
     (case main_mux promhttp (a\<lparr>wall_clock := now\<rparr>) rid r st of
        ((ops, p), st1) \<Rightarrow> (case serve_all promhttp a rs st1 of (out, st2) \<Rightarrow> ((r, ops, p) # out, st2)))"

subsection \<open>What one request does\<close>

definition charged_in :: "event list \<Rightarrow> string list" where
  "charged_in es = List.map_filter (\<lambda>e. case e of Emit_charged cur amt \<Rightarrow> Some cur | Emit_failed r \<Rightarrow> None) es"

lemma charged_in_simps [simp]:
  "charged_in [] = []" "charged_in (es @ fs) = charged_in es @ charged_in fs"
  "charged_in [Emit_charged cur amt] = [cur]" "charged_in [Emit_failed r] = []"
  by (simp_all add: charged_in_def map_filter_def)

text \<open>By status: a new charged payment, one payment canceled, or nothing.\<close>

definition handled :: "payment list \<Rightarrow> int \<Rightarrow> event list \<Rightarrow> payment list \<Rightarrow> bool" where
  "handled v code es w \<longleftrightarrow>
     code = 201 \<and> (\<exists>p. w = v @ [p] \<and> status p = Charged \<and> charged_in es = [currency p]) \<or>
     code = 204 \<and> charged_in es = [] \<and> (\<exists>i p. find_id i v = Some p \<and> status p = Charged \<and> w = cancel_in i v) \<or>
     code \<in> {200, 400, 401, 403, 404, 405, 409, 422} \<and> charged_in es = [] \<and> w = v"

lemma handled_same: "code \<in> {200, 400, 401, 403, 404, 405, 409, 422} \<Longrightarrow> handled v code [] v"
  by (simp add: handled_def)

lemma handled_below_500: "handled v code es w \<Longrightarrow> \<not> 500 \<le> code"
  by (auto simp: handled_def)

lemma cancel_charges_nothing: "charged_in (snd (fst (svc_cancel svc c i s))) = []"
  by (auto simp: svc_cancel_def emit_def split: sum.split option.split prod.split)

lemma final_error [simp]: "final_ops (http_error t c) \<longleftrightarrow> \<not> informational c \<and> c \<noteq> 0"
  by (simp add: final_ops_def http_error_def)

lemma final_set [simp]: "final_ops (Set_header k v # ops) \<longleftrightarrow> final_ops ops"
  by (simp add: final_ops_def)

lemma not_allowed_final [simp]: "final_ops (not_allowed ms)" "wire_status (not_allowed ms) = 405"
  by (simp_all add: not_allowed_def informational_def)

definition answers :: "(wop list \<times> string option) \<times> memory_store \<times> event list \<Rightarrow> memory_store \<Rightarrow> event list \<Rightarrow> bool" where
  "answers res m ev \<longleftrightarrow>
     (\<exists>ops m' es. res = ((ops, None), (m', ev @ es)) \<and> final_ops ops \<and> mem_ok m' \<and>
        handled (mem_view m) (wire_status ops) es (mem_view m'))"

lemma answers_same:
  assumes "mem_ok m" "final_ops ops" "wire_status ops \<in> {200, 400, 401, 403, 404, 405, 409, 422}"
  shows "answers ((ops, None), (m, ev)) m ev"
  unfolding answers_def using assms handled_same [OF assms(3), of "mem_view m"]
  by (intro exI [of _ ops] exI [of _ m] exI [of _ "[]"]) simp

lemma create_answers:
  assumes ok: "mem_ok m" "length (mem_view m) < 2 ^ 62" and svc: "store (service a) = memory_ops" "metrics (service a)"
  shows "answers (create a ident r (m, ev)) m ev"
proof (cases "Payments_Http.decode a (req_body r)")
  case None
  then show ?thesis using ok(1) by (auto simp: create_def informational_def intro!: answers_same)
next
  case (Some i)
  show ?thesis
  proof (cases "validate (upper (service a)) i = []")
    case True
    from ms.charge_valid [where now = "wall_clock a", OF ok True svc(1)] obtain p m' where
      "svc_charge (service a) (wall_clock a) i m = ((Inr p, [Emit_charged (in_currency i) (in_amount i)]), m')"
      "mem_ok m'" "mem_view m' = mem_view m @ [p]" "status p = Charged" "currency p = in_currency i"
      using svc(2) by (auto simp: emit_def)
    then show ?thesis using Some
      by (auto simp: answers_def create_def json_write_def final_ops_def informational_def handled_def)
  next
    case False
    then show ?thesis using Some ok(1) svc(2)
      by (auto simp: answers_def create_def svc_charge_def emit_def write_error_def informational_def handled_def)
  qed
qed

lemma cancel_answers:
  assumes ok: "mem_ok m" and svc: "store (service a) = memory_ops"
  shows "answers (Payments_Http.cancel a pid (Some i) r (m, ev)) m ev"
proof -
  let ?c = "customer_of i"
  obtain e es m' where run: "svc_cancel (service a) ?c pid m = ((e, es), m')" by (metis prod.exhaust)
  then have es: "charged_in es = []" using cancel_charges_nothing [of "service a" ?c pid m] by simp
  show ?thesis
  proof (cases "\<exists>p. find_id pid (mem_view m) = Some p \<and> customer_id p = ?c \<and> status p = Charged")
    case True
    then obtain p where p: "find_id pid (mem_view m) = Some p" "customer_id p = ?c" "status p = Charged" by blast
    from ms.cancel_own [OF ok p svc] run p es show ?thesis
      by (auto simp: answers_def Payments_Http.cancel_def final_ops_def informational_def handled_def)
  next
    case False
    from ms.cancel_refused [OF ok svc this] run
    have "e = Some Not_found \<or> e = Some (Forbidden pid) \<or> (\<exists>st. e = Some (Not_cancelable st))" "m' = m"
      by (auto split: option.splits)
    with run es ok show ?thesis
      by (auto simp: answers_def Payments_Http.cancel_def write_error_def informational_def handled_def)
  qed
qed

lemma authenticated_answers:
  assumes ok: "mem_ok m" "length (mem_view m) < 2 ^ 62" and svc: "store (service a) = memory_ops" "metrics (service a)"
  shows "answers (authenticate (mux a) r (m, ev)) m ev"
proof (cases "token_identity (req_authorization r)")
  case None
  then show ?thesis using ok(1) by (auto simp: authenticate_def informational_def intro!: answers_same)
next
  case (Some i)
  have gate: "answers (require_kind k h (Some i) r (m, ev)) m ev" if "answers (h (Some i) r (m, ev)) m ev" for k h
    using that ok(1) by (auto simp: require_kind_def informational_def intro!: answers_same)
  have health: "final_ops [Write_header 200, Write_body b]" for b
    by (simp add: final_ops_def informational_def)
  show ?thesis
    using Some ok(1) health create_answers [OF ok svc] cancel_answers [OF ok(1) svc(1)]
    by (auto simp: authenticate_def mux_def informational_def split: route.split intro!: answers_same gate)
qed

text \<open>The whole stack: the middleware adds the request ID and one metrics entry.\<close>

lemma main_mux_answers:
  assumes ok: "mem_ok m" "length (mem_view m) < 2 ^ 62" and svc: "store (service a) = memory_ops" "metrics (service a)"
    and r: "\<not> is_scrape r"
  shows "\<exists>ops m' es. main_mux promhttp a rid r ((m, ev), reds) =
      ((ops, None), ((m', ev @ es), reds @ [(req_method r, ''/'', int_text (wire_status ops), False)])) \<and>
    mem_ok m' \<and> handled (mem_view m) (wire_status ops) es (mem_view m')"
proof -
  let ?r = "r\<lparr>req_pattern := ''/''\<rparr>"
  from authenticated_answers [OF ok svc, of ?r ev] obtain ops m' es where
    run: "authenticate (mux a) ?r (m, ev) = ((ops, None), (m', ev @ es))"
    and fin: "final_ops ops" and ok': "mem_ok m'" and h: "handled (mem_view m) (wire_status ops) es (mem_view m')"
    unfolding answers_def by blast
  let ?ops = "Set_header ''X-Request-ID'' rid # ops"
  have fin': "final_ops ?ops" using fin by simp
  have code: "obs_code (obs_writer (0, False) ?ops) = wire_status ?ops"
    unfolding obs_writer_status [OF fin'] status_writer_wire [OF fin'] by (simp add: obs_code_def)
  have "main_mux promhttp a rid r ((m, ev), reds) = instrument (routes a rid) ?r ((m, ev), reds)"
    using r unfolding main_mux_def is_scrape_def by (simp only: if_False)
  also have "\<dots> = ((?ops, None), ((m', ev @ es), reds @ [(req_method r, ''/'', int_text (wire_status ?ops), 500 \<le> wire_status ?ops)]))"
    using routes_inner [OF run, of rid] code by (simp add: instrument_def Let_def route_pattern_def)
  finally show ?thesis using ok' h handled_below_500 [OF h]
    by (intro exI [of _ ?ops] exI [of _ m'] exI [of _ es]) simp
qed

text \<open>The counters after a list of events.\<close>

lemma record_charged:
  "\<exists>y. fold record_event es (Some x) = Some y \<and> (\<forall>cur. charged y cur = charged x cur + count_list (charged_in es) cur)"
proof (induction es arbitrary: x)
  case Nil
  then show ?case by (simp add: charged_in_def map_filter_def)
next
  case (Cons e es)
  show ?case
  proof (cases e)
    case (Emit_charged cur amt)
    obtain y where y: "emit_charged cur amt (Some x) = Some y" "charged y = (charged x)(cur := charged x cur + 1)"
      using charged_emitted by blast
    with Cons.IH [of y] Emit_charged show ?thesis by (auto simp: charged_in_def map_filter_def)
  next
    case (Emit_failed reason)
    from Cons.IH [of "x\<lparr>failed := (failed x)(reason := failed x reason + 1)\<rparr>"] Emit_failed show ?thesis
      by (auto simp: emit_failed_def charged_in_def map_filter_def)
  qed
qed

text \<open>What is read off the responses and off the store.\<close>

definition answered :: "int \<Rightarrow> (request \<times> wop list \<times> string option) list \<Rightarrow> nat" where
  "answered code out = length (filter (\<lambda>(r, ops, p). \<not> is_scrape r \<and> wire_status ops = code) out)"

definition red_of :: "(request \<times> wop list \<times> string option) list \<Rightarrow> red_entry list" where
  "red_of out = map (\<lambda>(r, ops, p). (req_method r, ''/'', int_text (wire_status ops), False))
     (filter (\<lambda>(r, ops, p). \<not> is_scrape r) out)"

definition canceled_count :: "payment list \<Rightarrow> nat" where
  "canceled_count v = length (filter (\<lambda>p. status p = Canceled) v)"

lemma answered_simps [simp]: "answered code [] = 0"
  "answered code ((r, ops, p) # out) = (if \<not> is_scrape r \<and> wire_status ops = code then 1 else 0) + answered code out"
  by (simp_all add: answered_def)

lemma red_of_simps [simp]: "red_of [] = []"
  "red_of ((r, ops, p) # out) =
     (if is_scrape r then [] else [(req_method r, ''/'', int_text (wire_status ops), False)]) @ red_of out"
  by (simp_all add: red_of_def)

lemma cancel_in_keeps: "length (cancel_in i v) = length v" "in_cur cur (cancel_in i v) = in_cur cur v"
  "map pay_id (cancel_in i v) = map pay_id v"
  by (induction v) (auto simp: cancel_in_def in_cur_def)

lemma cancel_in_missing: "i \<notin> pay_id ` set v \<Longrightarrow> cancel_in i v = v"
  by (auto simp: cancel_in_def intro!: map_idI)

lemma cancel_in_counts:
  "distinct (map pay_id v) \<Longrightarrow> find_id i v = Some p \<Longrightarrow> status p = Charged \<Longrightarrow>
   canceled_count (cancel_in i v) = Suc (canceled_count v)"
proof (induction v)
  case (Cons q v)
  show ?case
  proof (cases "pay_id q = i")
    case True
    with Cons.prems have "i \<notin> pay_id ` set v" "q = p" by (auto simp: find_id_def)
    with Cons.prems(3) True cancel_in_missing [of i v] show ?thesis
      by (simp add: canceled_count_def cancel_in_def)
  next
    case False
    with Cons.prems have "find_id i v = Some p" by (simp add: find_id_def)
    with Cons False show ?thesis by (simp add: canceled_count_def cancel_in_def)
  qed
qed (simp add: find_id_def)

lemma mem_ok_distinct:
  assumes "mem_ok m" "length (mem_view m) \<le> 2 ^ 62"
  shows "distinct (map pay_id (mem_view m))"
proof -
  let ?f = "\<lambda>k. pay_name (of_nat (Suc k))"
  have len: "length (order m) \<le> 2 ^ 62" using assms(2) by (simp add: mem_view_def)
  have "inj_on ?f {0..<length (order m)}"
  proof (rule inj_onI)
    fix j k assume "j \<in> {0..<length (order m)}" "k \<in> {0..<length (order m)}" "?f j = ?f k"
    then show "j = k" using len pay_name_value [of "Suc j"] pay_name_value [of "Suc k"] by simp
  qed
  then have "distinct (map ?f [0..<length (order m)])" by (simp add: distinct_map)
  moreover have "order m = map ?f [0..<length (order m)]" using assms(1) unfolding mem_ok_def by blast
  ultimately have "distinct (order m)" by simp
  moreover have "map pay_id (mem_view m) = order m"
    using mem_ok_dest(4) [OF assms(1)] by (force simp: mem_view_def intro!: map_idI)
  ultimately show ?thesis by simp
qed

lemma counts_append: "in_cur cur (v @ [p]) = in_cur cur v + (if currency p = cur then 1 else 0)"
  "canceled_count (v @ [p]) = canceled_count v + (if status p = Canceled then 1 else 0)"
  by (simp_all add: in_cur_def canceled_count_def)

text \<open>The books of one response: payments, cancellations and charges per currency.\<close>

lemma handled_books:
  assumes "handled v code es w" "distinct (map pay_id v)"
  shows "length w = length v + (if code = 201 then 1 else 0)"
    and "canceled_count w = canceled_count v + (if code = 204 then 1 else 0)"
    and "in_cur cur w = in_cur cur v + count_list (charged_in es) cur"
  using assms(1) cancel_in_counts [OF assms(2)]
  by (auto simp: handled_def cancel_in_keeps counts_append)

lemma serve_all_books:
  assumes svc: "store (service a) = memory_ops" "metrics (service a)"
    and scrape: "\<And>r st. snd (promhttp r st) = st"
  shows "serve_all promhttp a rs ((m, ev), reds) = (out, ((m', ev'), reds')) \<Longrightarrow> mem_ok m \<Longrightarrow>
    length (mem_view m) + length rs \<le> 2 ^ 62 \<Longrightarrow>
    map fst out = map (snd \<circ> snd) rs \<and> (\<forall>(r, ops, p) \<in> set out. is_scrape r \<or> p = None) \<and>
    reds' = reds @ red_of out \<and>
    length (mem_view m') = length (mem_view m) + answered 201 out \<and>
    canceled_count (mem_view m') = canceled_count (mem_view m) + answered 204 out \<and>
    (\<exists>es. ev' = ev @ es \<and> (\<forall>cur. in_cur cur (mem_view m') = in_cur cur (mem_view m) + count_list (charged_in es) cur))"
proof (induction rs arbitrary: m ev reds out)
  case Nil
  then show ?case by (auto intro: exI [of _ "[]"])
next
  case (Cons x rs)
  obtain now rid r where x: "x = (now, rid, r)" by (metis prod.exhaust)
  let ?a = "a\<lparr>wall_clock := now\<rparr>"
  have svc': "store (service ?a) = memory_ops" "metrics (service ?a)" using svc by simp_all
  show ?case
  proof (cases "is_scrape r")
    case True
    obtain ops p where res: "main_mux promhttp ?a rid r ((m, ev), reds) = ((ops, p), ((m, ev), reds))"
      using True scrape unfolding main_mux_def is_scrape_def by (metis prod.collapse)
    then obtain out1 where out: "serve_all promhttp a rs ((m, ev), reds) = (out1, ((m', ev'), reds'))"
      "out = (r, ops, p) # out1" using Cons.prems(1) by (auto simp: x split: prod.splits)
    have len: "length (mem_view m) + length rs \<le> 2 ^ 62" using Cons.prems(3) by simp
    from Cons.IH [OF out(1) Cons.prems(2) len] show ?thesis using True by (simp add: out(2) x)
  next
    case False
    have len: "length (mem_view m) < 2 ^ 62" using Cons.prems(3) by simp
    from main_mux_answers [OF Cons.prems(2) len svc' False, of promhttp rid ev reds] obtain ops m1 es where
      res: "main_mux promhttp ?a rid r ((m, ev), reds) =
        ((ops, None), ((m1, ev @ es), reds @ [(req_method r, ''/'', int_text (wire_status ops), False)]))"
      and ok1: "mem_ok m1" and h: "handled (mem_view m) (wire_status ops) es (mem_view m1)" by blast
    from res obtain out1 where out: "serve_all promhttp a rs ((m1, ev @ es),
        reds @ [(req_method r, ''/'', int_text (wire_status ops), False)]) = (out1, ((m', ev'), reds'))"
      "out = (r, ops, None) # out1" using Cons.prems(1) by (auto simp: x split: prod.splits)
    note books = handled_books [OF h mem_ok_distinct [OF Cons.prems(2) less_imp_le [OF len]]]
    have len1: "length (mem_view m1) + length rs \<le> 2 ^ 62" using Cons.prems(3) books(1) by (simp split: if_splits)
    from Cons.IH [OF out(1) ok1 len1] obtain es1 where ih: "map fst out1 = map (snd \<circ> snd) rs"
      "\<forall>(r, ops, p) \<in> set out1. is_scrape r \<or> p = None"
      "reds' = (reds @ [(req_method r, ''/'', int_text (wire_status ops), False)]) @ red_of out1"
      "length (mem_view m') = length (mem_view m1) + answered 201 out1"
      "canceled_count (mem_view m') = canceled_count (mem_view m1) + answered 204 out1"
      "ev' = (ev @ es) @ es1" "\<And>cur. in_cur cur (mem_view m') = in_cur cur (mem_view m1) + count_list (charged_in es1) cur"
      by blast
    show ?thesis
      using False ih books by (auto simp: out(2) x intro!: exI [of _ "es @ es1"])
  qed
qed

subsection \<open>Serving: the property\<close>

text \<open>C16: the books of the running service agree with what clients were told.  After any sequence of requests
  on a new store and new metrics (a scrape only reads), every request has its response and no handler
  panics; the RED entries are one per response outside \<^verbatim>\<open>/metrics\<close>, with the status the client got
  and none counted as an error; the store holds as many payments as there were 201s and as many
  canceled ones as there were 204s; and the charged counter of a currency is the number of payments
  stored in it.\<close>

theorem service_accounts:
  assumes "store (service a) = memory_ops" "metrics (service a)" "\<And>r st. snd (promhttp r st) = st"
    and "length rs \<le> 2 ^ 62" "new_payment_metrics otel [] = Some (x, reg)"
    and "serve_all promhttp a rs ((new_memory_store, []), []) = (out, ((m, ev), reds))"
  shows "map fst out = map (snd \<circ> snd) rs \<and> (\<forall>(r, ops, p) \<in> set out. is_scrape r \<or> p = None) \<and>
    reds = red_of out \<and> length (mem_view m) = answered 201 out \<and> canceled_count (mem_view m) = answered 204 out \<and>
    (\<exists>y. fold record_event ev (Some x) = Some y \<and> (\<forall>cur. charged y cur = in_cur cur (mem_view m)))"
proof -
  have v: "mem_view new_memory_store = []" by (simp add: mem_view_def new_memory_store_def)
  have len: "length (mem_view new_memory_store) + length rs \<le> 2 ^ 62" using v assms(4) by simp
  have x: "charged x cur = 0" for cur using assms(5) by (auto simp: new_payment_metrics_def)
  show ?thesis
    using serve_all_books [OF assms(1-3,6) mem_ok_new(1) len] record_charged [of ev x] x
    by (auto simp: v canceled_count_def in_cur_def)
qed

theorem service_accounts_witness:
  "\<exists>out m ev reds. serve_all (\<lambda>r st. (([Write_body ''metrics''], None), st)) demo_api
       [(1, ''a'', user_post ''cus_1'' ''/payments'' ''x''), (2, ''b'', user_post ''cus_1'' ''/payments/pay_0001/cancel'' []),
        (3, ''c'', (user_post ''cus_1'' ''/metrics'' [])\<lparr>req_method := ''GET''\<rparr>)] ((new_memory_store, []), []) =
     (out, ((m, ev), reds)) \<and> length out = 3 \<and> length (mem_view m) = answered 201 out \<and>
     canceled_count (mem_view m) = answered 204 out \<and> reds = red_of out"
proof -
  let ?prom = "\<lambda>(r :: request) st :: served. (([Write_body ''metrics''], None :: string option), st)"
  let ?rs = "[(1, ''a'', user_post ''cus_1'' ''/payments'' ''x''), (2, ''b'', user_post ''cus_1'' ''/payments/pay_0001/cancel'' []),
        (3, ''c'', (user_post ''cus_1'' ''/metrics'' [])\<lparr>req_method := ''GET''\<rparr>)] :: (instant \<times> string \<times> request) list"
  let ?x = "\<lparr>charged = \<lambda>_. 0, failed = \<lambda>_. 0, charge_otel = None, tracer = False\<rparr>"
  obtain out m ev reds where run: "serve_all ?prom demo_api ?rs ((new_memory_store, []), []) = (out, ((m, ev), reds))"
    by (metis prod.exhaust)
  have svc: "store (service demo_api) = memory_ops" "metrics (service demo_api)"
    by (simp_all add: demo_api_def memory_service_def)
  have reg: "new_payment_metrics None [] = Some (?x, [''payments_charged_total'', ''payments_failed_total''])"
    by (simp add: new_payment_metrics_def must_register_def)
  have len: "length ?rs \<le> 2 ^ 62" by simp
  from service_accounts [OF svc _ len reg run] have "map fst out = map (snd \<circ> snd) ?rs"
    "reds = red_of out" "length (mem_view m) = answered 201 out" "canceled_count (mem_view m) = answered 204 out"
    by simp_all
  moreover from this(1) have "length out = 3" by (metis length_map length_Cons list.size(3) numeral_3_eq_3)
  ultimately show ?thesis using run by blast
qed

subsection \<open>The process\<close>

text \<open>
  What the process finds: the environment, the library functions that read and print values, the
  results of building the exporter and of merging the resource, the flush of a provider, and how the
  server ends on an address and a grace period (with the error of \<^verbatim>\<open>Shutdown\<close>, when it fails).
\<close>

record 'res world =
  getenv :: "string \<Rightarrow> string"
  parse_duration :: "string \<Rightarrow> int64 option"
  show_duration :: "int64 \<Rightarrow> string"
  quote_q :: "string \<Rightarrow> string"
  scan_float :: "string \<Rightarrow> float64 option"
  exporter :: "string option"
  merged :: "string + 'res"
  flush_provider :: "'res provider \<Rightarrow> duration \<Rightarrow> string option"
  listens :: "string \<Rightarrow> int64 \<Rightarrow> serving"
  drain_error :: string

definition load_os :: "'res world \<Rightarrow> string list + config" where
  "load_os w = load (parse_duration w) (show_duration w) (quote_q w) (getenv w)"

text \<open>A failing \<^verbatim>\<open>Load\<close> returns the zero \<^verbatim>\<open>Config\<close>.\<close>

definition zero_config :: config where
  "zero_config = \<lparr>addr = [], store_kind = [], database_url = [], shutdown_grace = 0, request_timeout = 0,
     pool_max_open = 0, log_level = []\<rparr>"

definition config_of :: "'res world \<Rightarrow> config" where
  "config_of w = (case load_os w of Inl errs \<Rightarrow> zero_config | Inr c \<Rightarrow> c)"

definition tracing :: "'res world \<Rightarrow> string otel_error + 'res shutdown_fn" where
  "tracing w = otel_init (scan_float w) (getenv w) (exporter w) (merged w)"

definition flush_error :: "'res world \<Rightarrow> string option" where
  "flush_error w = (case tracing w of Inl e \<Rightarrow> None | Inr f \<Rightarrow> run_shutdown (flush_provider w) f)"

definition store_of :: "'res world \<Rightarrow> string + memory_store" where
  "store_of w = open_store (if store_kind (config_of w) = ''postgres'' then Postgres else Memory)"

definition surroundings_of :: "'res world \<Rightarrow> surroundings" where
  "surroundings_of w = \<lparr>config_ok = (\<not> isl (load_os w)), tracing_ok = (\<not> isl (tracing w)), flush_ok = (flush_error w = None),
     store_ok = (\<not> isl (store_of w)), serving = listens w (addr (config_of w)) (shutdown_grace (config_of w))\<rparr>"

subsection \<open>What it logs\<close>

fun otel_text :: "string otel_error \<Rightarrow> string" where
  "otel_text (Exporter e) = ''otel exporter: '' @ e"
| "otel_text (Resource e) = ''otel resource: '' @ e"

text \<open>The attribute each call of the logger passes.\<close>

definition log_attr :: "'res world \<Rightarrow> string \<Rightarrow> (string \<times> string) option" where
  "log_attr w msg =
     (if msg = ''configuration invalid'' then
        (case load_os w of Inl errs \<Rightarrow> Some (''err'', ''invalid configuration: '' @ join_lines errs) | Inr c \<Rightarrow> None)
      else if msg = ''starting'' then Some (''config'', summary (show_duration w) (config_of w))
      else if msg = ''tracing init failed'' then
        (case tracing w of Inl e \<Rightarrow> Some (''err'', otel_text e) | Inr f \<Rightarrow> None)
      else if msg = ''trace flush failed'' then map_option (Pair ''err'') (flush_error w)
      else if msg = ''store open failed'' then (case store_of w of Inl e \<Rightarrow> Some (''err'', e) | Inr m \<Rightarrow> None)
      else if msg = ''server failed'' then
        map_option (Pair ''err'') (snd (run_server (serving (surroundings_of w))))
      else if msg = ''forced close after grace period'' then Some (''err'', drain_error w)
      else None)"

fun rank :: "level \<Rightarrow> nat" where
  "rank Debug = 0" | "rank Info = 1" | "rank Warn = 2" | "rank Error = 3"

text \<open>The default logger, at level info, serves until the configuration is known.\<close>

definition threshold :: "'res world \<Rightarrow> level" where
  "threshold w = (if isl (load_os w) then Info else level_of (log_level (config_of w)))"

type_synonym service_line = "level \<times> string \<times> (string \<times> string) option"

definition printed :: "'res world \<Rightarrow> service_line list" where
  "printed w = List.map_filter
     (\<lambda>a. case a of Logged l msg \<Rightarrow> if rank (threshold w) \<le> rank l then Some (l, msg, log_attr w msg) else None
                  | _ \<Rightarrow> None)
     (run_main (surroundings_of w))"

definition service_main :: "'res world \<Rightarrow> action list \<times> service_line list" where
  "service_main w = (run_main (surroundings_of w), printed w)"

subsection \<open>The process: lemmas\<close>

text \<open>The database URL is in nothing but its own field.\<close>

lemma load_url:
  assumes "environ ''DATABASE_URL'' = [] \<longleftrightarrow> u = []"
  shows "load parse show_dur quoted (environ(''DATABASE_URL'' := u)) =
    map_sum id (\<lambda>c. c\<lparr>database_url := u\<rparr>) (load parse show_dur quoted environ)"
proof -
  let ?e = "environ(''DATABASE_URL'' := u)"
  have other: "?e k = environ k" if "k \<noteq> ''DATABASE_URL''" for k using that by simp
  have keys: "?e ''SHUTDOWN_GRACE'' = environ ''SHUTDOWN_GRACE''" "?e ''REQUEST_TIMEOUT'' = environ ''REQUEST_TIMEOUT''"
    "?e ''POOL_MAX_OPEN'' = environ ''POOL_MAX_OPEN''" "?e ''ADDR'' = environ ''ADDR''" "?e ''STORE'' = environ ''STORE''"
    "?e ''LOG_LEVEL'' = environ ''LOG_LEVEL''" "?e ''DATABASE_URL'' = u"
    by (rule other, simp)+ simp
  have dur: "must_duration parse show_dur quoted ?e k d = must_duration parse show_dur quoted environ k d"
    if "?e k = environ k" for k d unfolding must_duration_def that ..
  have num: "must_int32 quoted ?e k d = must_int32 quoted environ k d" if "?e k = environ k" for k d
    unfolding must_int32_def that ..
  have env: "env_or ?e k d = env_or environ k d" if "?e k = environ k" for k d unfolding env_or_def that ..
  obtain g e1 where g: "must_duration parse show_dur quoted environ ''SHUTDOWN_GRACE'' 25000000000 = (g, e1)" by fastforce
  obtain d e2 where d: "must_duration parse show_dur quoted environ ''REQUEST_TIMEOUT'' 10000000000 = (d, e2)" by fastforce
  obtain n e3 where n: "must_int32 quoted environ ''POOL_MAX_OPEN'' 25 = (n, e3)" by fastforce
  have pick: "(if es \<noteq> [] then Inl es else Inr (c\<lparr>database_url := u\<rparr>)) =
      map_sum id (\<lambda>c. c\<lparr>database_url := u\<rparr>) (if es \<noteq> [] then Inl es else Inr c)"
    for es :: "string list" and c by simp
  show ?thesis
    unfolding load_def dur [OF keys(1)] dur [OF keys(2)] num [OF keys(3)] env [OF keys(4)] env [OF keys(5)]
      env [OF keys(6)] keys(7) g d n Let_def prod.case pick [symmetric] config.simps assms ..
qed

lemma ratio_url: "ratio sscanf (environ(''DATABASE_URL'' := u)) = ratio sscanf environ"
  by (simp add: ratio_def)

lemma otel_url: "otel_init sscanf (environ(''DATABASE_URL'' := u)) ex me = otel_init sscanf environ ex me"
  unfolding otel_init_def ratio_url by simp

lemma summary_url: "(s = [] \<longleftrightarrow> u = []) \<Longrightarrow> database_url c = s \<Longrightarrow>
    summary show_dur (c\<lparr>database_url := u\<rparr>) = summary show_dur c"
  by (simp add: summary_def secret_text_def)

lemma load_keeps_url: "load parse show_dur quoted environ = Inr c \<Longrightarrow> database_url c = environ ''DATABASE_URL''"
  by (auto simp: load_def Let_def split: prod.splits if_splits)

lemma url_unseen:
  assumes "getenv w ''DATABASE_URL'' = [] \<longleftrightarrow> u = []" "w' = w\<lparr>getenv := (getenv w)(''DATABASE_URL'' := u)\<rparr>"
  shows "load_os w' = map_sum id (\<lambda>c. c\<lparr>database_url := u\<rparr>) (load_os w)"
    and "tracing w' = tracing w" "flush_error w' = flush_error w" "store_of w' = store_of w"
    and "surroundings_of w' = surroundings_of w" "log_attr w' msg = log_attr w msg" "threshold w' = threshold w"
proof -
  show load: "load_os w' = map_sum id (\<lambda>c. c\<lparr>database_url := u\<rparr>) (load_os w)"
    by (simp add: load_os_def assms(2) load_url [where environ = "getenv w" and u = u, OF assms(1)])
  show tr: "tracing w' = tracing w" by (simp add: tracing_def assms(2) otel_url)
  then show fl: "flush_error w' = flush_error w" by (simp add: flush_error_def assms(2) split: sum.split)
  have fields: "addr (config_of w') = addr (config_of w)" "store_kind (config_of w') = store_kind (config_of w)"
    "shutdown_grace (config_of w') = shutdown_grace (config_of w)" "log_level (config_of w') = log_level (config_of w)"
    "isl (load_os w') = isl (load_os w)"
    unfolding config_of_def load by (cases "load_os w"; simp)+
  have sum: "summary d (config_of w') = summary d (config_of w)" for d
  proof (cases "load_os w")
    case (Inr c)
    then have "database_url c = getenv w ''DATABASE_URL''" unfolding load_os_def by (rule load_keeps_url)
    from summary_url [OF assms(1) this, of d] show ?thesis unfolding config_of_def load Inr by simp
  qed (simp add: config_of_def load)
  have errs: "(case load_os w' of Inl errs \<Rightarrow> f errs | Inr c \<Rightarrow> None) = (case load_os w of Inl errs \<Rightarrow> f errs | Inr c \<Rightarrow> None)"
    for f :: "string list \<Rightarrow> (string \<times> string) option" unfolding load by (cases "load_os w"; simp)
  have rest: "show_duration w' = show_duration w" "listens w' = listens w" "drain_error w' = drain_error w"
    by (simp_all add: assms(2))
  show st: "store_of w' = store_of w" unfolding store_of_def fields ..
  show sur: "surroundings_of w' = surroundings_of w" unfolding surroundings_of_def fields tr fl st rest ..
  show "threshold w' = threshold w" unfolding threshold_def fields ..
  show "log_attr w' msg = log_attr w msg" unfolding log_attr_def errs rest sum tr fl st sur ..
qed

subsection \<open>The process: properties\<close>

text \<open>C17: the database URL is never disclosed: whatever its value, only its being set or not shows in what
  the process does and in every line it logs, on success and on every error path, at every level.\<close>

theorem secret_unlogged:
  assumes "getenv w ''DATABASE_URL'' = [] \<longleftrightarrow> u = []"
  shows "service_main (w\<lparr>getenv := (getenv w)(''DATABASE_URL'' := u)\<rparr>) = service_main w"
  unfolding service_main_def printed_def url_unseen(5-7) [OF assms refl] ..

definition postgres_world :: "unit world" where
  "postgres_world = \<lparr>getenv = (\<lambda>k. if k = ''STORE'' then ''postgres'' else if k = ''DATABASE_URL'' then ''postgres://u:pw@h/db'' else []),
     parse_duration = \<lambda>s. None, show_duration = \<lambda>d. ''1s'', quote_q = \<lambda>s. s, scan_float = \<lambda>s. None,
     exporter = None, merged = Inr (), flush_provider = \<lambda>p b. None, listens = \<lambda>a g. Signalled True, drain_error = []\<rparr>"

theorem secret_unlogged_witness:
  "service_main (postgres_world\<lparr>getenv := (getenv postgres_world)(''DATABASE_URL'' := ''x'')\<rparr>) = service_main postgres_world"
  by (rule secret_unlogged) (simp add: postgres_world_def)

text \<open>C18: the exit code of the process is 0 exactly when the environment follows the loader's rules and does not
  ask for Postgres, tracing is off or its exporter and resource could be built, and the server did not
  fail to listen; otherwise it is 1.  An environment the loader rejects is logged and nothing is opened.\<close>

theorem service_exit:
  "exit_code (fst (service_main w)) = Some (if
     (getenv w ''SHUTDOWN_GRACE'' = [] \<or> parse_duration w (getenv w ''SHUTDOWN_GRACE'') \<noteq> None) \<and>
     (getenv w ''POOL_MAX_OPEN'' = [] \<or> scan_int32 (getenv w ''POOL_MAX_OPEN'') \<noteq> None) \<and>
     getenv w ''STORE'' \<in> {[], ''memory''} \<and>
     getenv w ''LOG_LEVEL'' \<in> {[], ''debug'', ''info'', ''warn'', ''error''} \<and>
     (getenv w ''REQUEST_TIMEOUT'' = [] \<or>
       (\<exists>d. parse_duration w (getenv w ''REQUEST_TIMEOUT'') = Some d \<and> 0 < sint d \<and> sint d \<le> 60000000000)) \<and>
     (getenv w ''OTEL_EXPORTER_OTLP_ENDPOINT'' = [] \<or> getenv w ''OTEL_SDK_DISABLED'' = ''1'' \<or>
       exporter w = None \<and> \<not> isl (merged w)) \<and>
     (\<nexists>e. listens w (addr (config_of w)) (shutdown_grace (config_of w)) = Listen_failed e) then 0 else 1) \<and>
   (isl (load_os w)) = (fst (service_main w) = [Logged Error ''configuration invalid'', Exit 1])"
proof -
  have tr: "\<not> isl (tracing w) \<longleftrightarrow> (getenv w ''OTEL_EXPORTER_OTLP_ENDPOINT'' = [] \<or> getenv w ''OTEL_SDK_DISABLED'' = ''1'' \<or>
       exporter w = None \<and> \<not> isl (merged w))"
    by (auto simp: tracing_def otel_init_def split: option.split sum.split)
  have sv: "snd (run_server s) = None \<longleftrightarrow> (\<nexists>e. s = Listen_failed e)" for s
    by (cases s) (simp_all add: run_server_def)
  have ld: "\<not> isl (load_os w) \<longleftrightarrow> (\<exists>c. load_os w = Inr c)" by (cases "load_os w") auto
  have kind: "store_kind c = env_or (getenv w) ''STORE'' ''memory''" if "load_os w = Inr c" for c
    using that by (auto simp: load_os_def load_def Let_def split: prod.splits if_splits)
  have st: "\<not> isl (store_of w) \<longleftrightarrow> getenv w ''STORE'' \<noteq> ''postgres''" if "\<not> isl (load_os w)"
  proof -
    obtain c where c: "load_os w = Inr c" using \<open>\<not> isl (load_os w)\<close> unfolding ld by blast
    show ?thesis using kind [OF c] by (simp add: c store_of_def open_store_def config_of_def env_or_def)
  qed
  have pick: "getenv w ''STORE'' \<in> {[], ''memory''} \<longleftrightarrow>
      getenv w ''STORE'' \<in> {[], ''memory'', ''postgres''} \<and> getenv w ''STORE'' \<noteq> ''postgres''" by auto
  note rules = load_decides [of "parse_duration w" "show_duration w" "quote_q w" "getenv w", THEN conjunct1,
    folded load_os_def, folded ld]
  have ok: "\<not> isl (load_os w) \<and> \<not> isl (store_of w) \<longleftrightarrow>
     (getenv w ''SHUTDOWN_GRACE'' = [] \<or> parse_duration w (getenv w ''SHUTDOWN_GRACE'') \<noteq> None) \<and>
     (getenv w ''POOL_MAX_OPEN'' = [] \<or> scan_int32 (getenv w ''POOL_MAX_OPEN'') \<noteq> None) \<and>
     getenv w ''STORE'' \<in> {[], ''memory''} \<and>
     getenv w ''LOG_LEVEL'' \<in> {[], ''debug'', ''info'', ''warn'', ''error''} \<and>
     (getenv w ''REQUEST_TIMEOUT'' = [] \<or>
       (\<exists>d. parse_duration w (getenv w ''REQUEST_TIMEOUT'') = Some d \<and> 0 < sint d \<and> sint d \<le> 60000000000))"
    using rules st unfolding pick by argo
  have sur: "config_ok (surroundings_of w) \<and> tracing_ok (surroundings_of w) \<and> store_ok (surroundings_of w) \<and>
      snd (run_server (serving (surroundings_of w))) = None \<longleftrightarrow>
     (\<not> isl (load_os w) \<and> \<not> isl (store_of w)) \<and> \<not> isl (tracing w) \<and>
     (\<nexists>e. listens w (addr (config_of w)) (shutdown_grace (config_of w)) = Listen_failed e)"
    unfolding sv by (simp add: surroundings_of_def) blast
  have "isl (load_os w) = (fst (service_main w) = [Logged Error ''configuration invalid'', Exit 1])"
    by (simp add: service_main_def run_main_def surroundings_of_def)
  then show ?thesis unfolding service_main_def fst_conv one_exit sur ok tr conj_assoc by simp
qed

text \<open>With an empty environment the service boots and ends well; asking for Postgres is an error.\<close>

theorem service_exit_witness:
  "exit_code (fst (service_main (postgres_world\<lparr>getenv := \<lambda>_. []\<rparr>))) = Some 0 \<and>
   exit_code (fst (service_main postgres_world)) = Some 1"
  using service_exit [of "postgres_world\<lparr>getenv := \<lambda>_. []\<rparr>", THEN conjunct1]
    service_exit [of postgres_world, THEN conjunct1]
  by (simp add: postgres_world_def)

end
