(* ===== verification/Profiling.thy ===== *)
theory Profiling
  imports Calc
begin

text \<open>
  The practice service of \<^verbatim>\<open>19-performance/examples/profiling\<close>: the two slow functions and the \<^verbatim>\<open>/work\<close>
  handler over them.  The random key and the query's value are given; \<^verbatim>\<open>pprof\<close> and the servers are left out.
\<close>

subsection \<open>The slow functions\<close>

text \<open>Go's remainder takes the sign of the dividend.\<close>

definition go_mod :: "int \<Rightarrow> int \<Rightarrow> int" where
  "go_mod a b = a - b * go_div a b"

lemma sint_next: "sint (i :: int64) < sint (n :: int64) \<Longrightarrow> sint (i + 1) = sint i + 1"
  using sint64_add [of i 1] sint64_bounds [of i] sint64_bounds [of n] by simp

function hog_loop :: "int64 \<Rightarrow> int64 \<Rightarrow> int64 \<Rightarrow> int64" where
  "hog_loop n i tot =
     (if sint i < sint n then hog_loop n (i + 1) (tot + word_of_int (go_mod (sint i) 7)) else tot)"
  by pat_completeness auto

termination
  by (relation "measure (\<lambda>(n, i, tot). nat (sint n - sint i))") (auto simp: sint_next)

declare hog_loop.simps [simp del]

definition cpu_hog :: "int64 \<Rightarrow> int64" where
  "cpu_hog n = hog_loop n 0 0"

text \<open>\<^verbatim>\<open>make\<close> panics on a negative capacity.\<close>

definition alloc_hog :: "int64 \<Rightarrow> string list option" where
  "alloc_hog n = (if sint n < 0 then None else Some (map (\<lambda>i. ''item-'' @ int_text (int i)) [0..<nat (sint n)]))"

subsection \<open>The handler\<close>

text \<open>The number \<^verbatim>\<open>strconv.Atoi\<close> returns beside its error: zero for bad syntax, the nearest bound for a
  number out of range.\<close>

definition atoi_value :: "string \<Rightarrow> int64" where
  "atoi_value s =
     (let neg = (s \<noteq> [] \<and> hd s = CHR ''-'');
          d = (if s \<noteq> [] \<and> (hd s = CHR ''-'' \<or> hd s = CHR ''+'') then tl s else s);
          i = (if neg then - int (digits_value d) else int (digits_value d))
      in if d = [] \<or> \<not> list_all is_digit d then 0
         else word_of_int (if i < int64_min then int64_min else if i > int64_max then int64_max else i))"

definition work_count :: "string \<Rightarrow> int64" where
  "work_count q = (let n = atoi_value q in if n = 0 then 100000 else n)"

text \<open>The result of \<^verbatim>\<open>cpuHog\<close> is thrown away; what stays is the new entry of the cache.\<close>

definition work :: "string \<Rightarrow> int64 \<Rightarrow> (int64 \<rightharpoonup> string list) \<Rightarrow> (string \<times> (int64 \<rightharpoonup> string list)) option" where
  "work q key cache =
     (let waste = cpu_hog (work_count q)
      in case alloc_hog 64 of
           None \<Rightarrow> None
         | Some items \<Rightarrow> Some (''done'' @ [CHR 0x0A], cache(key \<mapsto> items)))"

subsection \<open>Lemmas\<close>

definition hog_sum :: "nat \<Rightarrow> int" where
  "hog_sum k = 21 * (int k div 7) + (int k mod 7) * (int k mod 7 - 1) div 2"

lemma hog_sum_Suc: "hog_sum (Suc k) = hog_sum k + int k mod 7"
proof -
  let ?q = "int k div 7" and ?r = "int k mod 7"
  have "int (Suc k) = 7 * ?q + (?r + 1)" by simp
  then have next_div: "int (Suc k) div 7 = ?q + (?r + 1) div 7" "int (Suc k) mod 7 = (?r + 1) mod 7"
    by (simp_all only: div_mult_self4 mod_mult_self4)
  have "0 \<le> ?r" "?r < 7" by simp_all
  then consider "?r = 0" | "?r = 1" | "?r = 2" | "?r = 3" | "?r = 4" | "?r = 5" | "?r = 6" by linarith
  then show ?thesis unfolding hog_sum_def next_div by cases simp_all
qed

lemma hog_loop_sum:
  assumes "int k \<le> sint n"
  shows "hog_loop n (of_nat k) (word_of_int (hog_sum k)) = word_of_int (hog_sum (nat (sint n)))"
  using assms
proof (induction "nat (sint n) - k" arbitrary: k)
  case 0
  then have "sint n = int k" by simp
  moreover from this have "sint (of_nat k :: int64) = int k"
    using sint64_bounds [of n] by (intro sint64_of_nat) simp
  ultimately show ?case by (subst hog_loop.simps) simp
next
  case (Suc d)
  have k: "sint (of_nat k :: int64) = int k"
    using Suc.prems sint64_bounds [of n] by (intro sint64_of_nat) simp
  have "go_mod (int k) 7 = int k mod 7"
    by (simp add: go_mod_def go_div_def sgn_if minus_mult_div_eq_mod)
  moreover have "hog_loop n (of_nat (Suc k)) (word_of_int (hog_sum (Suc k))) = word_of_int (hog_sum (nat (sint n)))"
    using Suc by (intro Suc.hyps(1)) auto
  moreover have "int k < sint n" using Suc.hyps(2) by linarith
  ultimately show ?case using k by (subst hog_loop.simps) (simp add: hog_sum_Suc add.commute)
qed

subsection \<open>What they compute\<close>

text \<open>\<^verbatim>\<open>cpuHog\<close> adds 21 for every seven rounds and a triangular rest, within \<^verbatim>\<open>int\<close>; for a negative count
  it does nothing.\<close>

lemma cpu_hog_closed:
  "cpu_hog n = word_of_int (if sint n < 0 then 0 else 21 * (sint n div 7) + (sint n mod 7) * (sint n mod 7 - 1) div 2)"
proof (cases "sint n < 0")
  case True
  then show ?thesis by (simp add: cpu_hog_def hog_loop.simps)
next
  case False
  with hog_loop_sum [of 0 n] show ?thesis by (simp add: cpu_hog_def hog_sum_def)
qed

lemma alloc_hog_items:
  assumes "0 \<le> sint n"
  shows "\<exists>xs. alloc_hog n = Some xs \<and> length xs = nat (sint n) \<and> distinct xs"
proof -
  have "inj_on (\<lambda>i. ''item-'' @ int_text (int i)) A" for A by (auto simp: inj_on_def)
  then show ?thesis using assms by (simp add: alloc_hog_def distinct_map)
qed

text \<open>A request always answers once its loop is over, and the cache keeps an entry for every key drawn.\<close>

lemma work_answers: "\<exists>items. work q key cache = Some (''done'' @ [CHR 0x0A], cache(key \<mapsto> items)) \<and> length items = 64"
  using alloc_hog_items [of 64] by (auto simp: work_def Let_def)

text \<open>Without the error, a count too large for an \<^verbatim>\<open>int\<close> asks for the longest loop there is.\<close>

lemma work_count_overflow: "work_count ''99999999999999999999'' = word_of_int int64_max"
  by (simp add: work_count_def atoi_value_def digits_value_def digit_value_def is_digit_def Let_def)

end
