(* ===== verification/Zero.thy ===== *)
theory Zero
  imports Text
begin

text \<open>
  Chapter 1: \<^verbatim>\<open>examples/hello\<close> and \<^verbatim>\<open>examples/zero\<close>.  The types of the variables \<^verbatim>\<open>main\<close> declares, the zero
  value the language gives a variable of a type, what \<^verbatim>\<open>len\<close> and a map read do on it, and what \<^verbatim>\<open>fmt\<close>
  prints.  The zero of \<^verbatim>\<open>float64\<close> is \<open>f0\<close>, printed by \<open>show_g\<close>; \<open>show_dur\<close> is \<^verbatim>\<open>Duration.String\<close> and
  \<open>quoted\<close> is \<^verbatim>\<open>%q\<close>.
\<close>

subsection \<open>Types and values\<close>

datatype gtype =
    Int_t | Float_t | Bool_t | String_t | Duration_t
  | Pointer_t gtype | Map_t gtype gtype | Slice_t gtype | Chan_t gtype | Func_t | Any_t
  | Struct_t "(string \<times> gtype) list"

datatype 'f gval =
    Int_v int64 | Float_v 'f | Bool_v bool | String_v string | Duration_v int64
  | Nil_v gtype | Struct_v "(string \<times> 'f gval) list"

primrec zero :: "'f \<Rightarrow> gtype \<Rightarrow> 'f gval" where
  "zero f0 Int_t = Int_v 0"
| "zero f0 Float_t = Float_v f0"
| "zero f0 Bool_t = Bool_v False"
| "zero f0 String_t = String_v []"
| "zero f0 Duration_t = Duration_v 0"
| "zero f0 (Pointer_t t) = Nil_v (Pointer_t t)"
| "zero f0 (Map_t k v) = Nil_v (Map_t k v)"
| "zero f0 (Slice_t t) = Nil_v (Slice_t t)"
| "zero f0 (Chan_t t) = Nil_v (Chan_t t)"
| "zero f0 Func_t = Nil_v Func_t"
| "zero f0 Any_t = Nil_v Any_t"
| "zero f0 (Struct_t fs) = Struct_v (map (map_prod id (zero f0)) fs)"

text \<open>A value is of a type; nil is a value of the reference-like types only.\<close>

fun reference_like :: "gtype \<Rightarrow> bool" where
  "reference_like (Pointer_t t) = True"
| "reference_like (Map_t k v) = True"
| "reference_like (Slice_t t) = True"
| "reference_like (Chan_t t) = True"
| "reference_like Func_t = True"
| "reference_like Any_t = True"
| "reference_like t = False"

inductive has_type :: "'f gval \<Rightarrow> gtype \<Rightarrow> bool" where
  "has_type (Int_v i) Int_t"
| "has_type (Float_v f) Float_t"
| "has_type (Bool_v b) Bool_t"
| "has_type (String_v s) String_t"
| "has_type (Duration_v d) Duration_t"
| "reference_like t \<Longrightarrow> has_type (Nil_v t) t"
| "list_all2 (\<lambda>x d. fst x = fst d \<and> has_type (snd x) (snd d)) xs fs \<Longrightarrow> has_type (Struct_v xs) (Struct_t fs)"

subsection \<open>Reading and printing\<close>

text \<open>\<^verbatim>\<open>len\<close> of a string, and of a nil map, slice or channel.\<close>

fun go_len :: "'f gval \<Rightarrow> nat option" where
  "go_len (String_v s) = Some (length s)"
| "go_len (Nil_v (Map_t k v)) = Some 0"
| "go_len (Nil_v (Slice_t t)) = Some 0"
| "go_len (Nil_v (Chan_t t)) = Some 0"
| "go_len v = None"

text \<open>A map read \<^verbatim>\<open>m[k]\<close> of a nil map, and the values a range over a nil map or slice visits.\<close>

fun map_read :: "'f \<Rightarrow> 'f gval \<Rightarrow> 'f gval option" where
  "map_read f0 (Nil_v (Map_t k v)) = Some (zero f0 v)"
| "map_read f0 v = None"

fun range_over :: "'f gval \<Rightarrow> 'f gval list option" where
  "range_over (Nil_v (Map_t k v)) = Some []"
| "range_over (Nil_v (Slice_t t)) = Some []"
| "range_over v = None"

definition is_nil :: "'f gval \<Rightarrow> bool" where
  "is_nil v = (case v of Nil_v t \<Rightarrow> True | _ \<Rightarrow> False)"

definition bool_text :: "bool \<Rightarrow> string" where
  "bool_text b = (if b then ''true'' else ''false'')"

primrec show_v :: "(int64 \<Rightarrow> string) \<Rightarrow> ('f \<Rightarrow> string) \<Rightarrow> 'f gval \<Rightarrow> string" where
  "show_v show_dur show_g (Int_v i) = int_text (sint i)"
| "show_v show_dur show_g (Float_v f) = show_g f"
| "show_v show_dur show_g (Bool_v b) = bool_text b"
| "show_v show_dur show_g (String_v s) = s"
| "show_v show_dur show_g (Duration_v d) = show_dur d"
| "show_v show_dur show_g (Nil_v t) = (case t of Map_t k v \<Rightarrow> ''map[]'' | Slice_t t \<Rightarrow> ''[]'' | _ \<Rightarrow> ''<nil>'')"
| "show_v show_dur show_g (Struct_v fs) =
     ''{'' @ join_on (CHR '' '') (map (\<lambda>(n, s). n @ '':'' @ s) (map (map_prod id (show_v show_dur show_g)) fs)) @ ''}''"

subsection \<open>The programs\<close>

definition config_t :: gtype where
  "config_t = Struct_t [(''Retries'', Int_t), (''Timeout'', Duration_t), (''TLS'', Bool_t), (''Host'', String_t)]"

definition len_text :: "'f gval \<Rightarrow> string" where
  "len_text v = (case go_len v of Some n \<Rightarrow> nat_text n | None \<Rightarrow> [])"

definition zero_main :: "(int64 \<Rightarrow> string) \<Rightarrow> ('f \<Rightarrow> string) \<Rightarrow> (string \<Rightarrow> string) \<Rightarrow> 'f \<Rightarrow> string list" where
  "zero_main show_dur show_g quoted f0 =
     (let z = zero f0; sh = show_v show_dur show_g;
          m = z (Map_t String_t Int_t); sl = z (Slice_t Int_t)
      in [''int:        '' @ sh (z Int_t),
          ''float64:    '' @ sh (z Float_t),
          ''bool:       '' @ sh (z Bool_t),
          ''string:     '' @ quoted (sh (z String_t)) @ '' (len '' @ len_text (z String_t) @ '')'',
          ''*int:       '' @ sh (z (Pointer_t Int_t)),
          ''map:        '' @ sh m @ '' (len '' @ len_text m @ '', safe to read)'',
          ''slice:      '' @ sh sl @ '' (len '' @ len_text sl @ '', safe to range)'',
          ''chan:       '' @ sh (z (Chan_t Int_t)) @ '' (all ops block)'',
          ''func:       nil='' @ bool_text (is_nil (z Func_t)),
          ''any:        '' @ sh (z Any_t),
          ''Config:     '' @ sh (z config_t)])"

definition hello_main :: "string list" where
  "hello_main = [''hello, handbook'']"

subsection \<open>Lemmas\<close>

text \<open>Every type has a zero value, of that type, and it is nil exactly for the reference-like types.\<close>

lemma zero_typed: "has_type (zero f0 t) t"
proof (induction t)
  case (Struct_t fs)
  have "list_all2 (\<lambda>x d. fst x = fst d \<and> has_type (snd x) (snd d)) (map (map_prod id (zero f0)) fs) fs"
    using Struct_t unfolding list.rel_map list_all2_same by (auto simp: prod_set_simps)
  then show ?case by (simp add: has_type.intros)
qed (auto intro: has_type.intros)

lemma zero_nil: "is_nil (zero f0 t) \<longleftrightarrow> reference_like t"
  by (cases t) (simp_all add: is_nil_def)

text \<open>What the printed lines promise of the nil map and the nil slice.\<close>

lemma nil_safe:
  "map_read f0 (zero f0 (Map_t k v)) = Some (zero f0 v)" "go_len (zero f0 (Map_t k v)) = Some 0"
  "range_over (zero f0 (Slice_t t)) = Some []" "go_len (zero f0 (Slice_t t)) = Some 0"
  by simp_all

lemma digit_zero: "int_text 0 = ''0''" "nat_text 0 = ''0''"
  by code_simp+

lemma zero_main_prints:
  "zero_main show_dur show_g quoted f0 =
     [''int:        0'', ''float64:    '' @ show_g f0, ''bool:       false'',
      ''string:     '' @ quoted [] @ '' (len 0)'', ''*int:       <nil>'', ''map:        map[] (len 0, safe to read)'',
      ''slice:      [] (len 0, safe to range)'', ''chan:       <nil> (all ops block)'', ''func:       nil=true'',
      ''any:        <nil>'', ''Config:     {Retries:0 Timeout:'' @ show_dur 0 @ '' TLS:false Host:}'']"
  by (simp add: zero_main_def Let_def len_text_def bool_text_def is_nil_def config_t_def digit_zero)

end
